(* ===== verification/Go_Strings.thy ===== *)
theory Go_Strings
  imports Gateway_Prelude "HOL-Library.Sublist"
begin

text \<open>
  What the gateway uses of Go's \<open>strings\<close>, \<open>strconv\<close>, \<open>unicode/utf8\<close>. A Go string is a
  sequence of bytes, here a \<open>string\<close> (\<open>char\<close> is a byte). Runes are code points, here \<open>nat\<close>.
  Decoding follows \<open>utf8.DecodeRuneInString\<close>: an invalid sequence is \<open>RuneError\<close> of width 1.
\<close>

section \<open>UTF-8\<close>

definition RuneError :: nat where
  "RuneError = 65533"

definition scalar :: "nat \<Rightarrow> bool" where
  "scalar r \<longleftrightarrow> r < 55296 \<or> 57344 \<le> r \<and> r \<le> 1114111"

definition is_cont :: "nat \<Rightarrow> bool" where
  "is_cont b \<longleftrightarrow> 128 \<le> b \<and> b \<le> 191"

text \<open>Length of the sequence a lead byte announces, 0 for a byte that cannot lead.\<close>

definition lead_size :: "nat \<Rightarrow> nat" where
  "lead_size b =
     (if b < 128 then 1 else if b < 194 then 0 else if b < 224 then 2
      else if b < 240 then 3 else if b < 245 then 4 else 0)"

text \<open>Range of the second byte (Go's \<open>acceptRanges\<close>).\<close>

definition second_ok :: "nat \<Rightarrow> nat \<Rightarrow> bool" where
  "second_ok b0 b1 \<longleftrightarrow>
     (if b0 = 224 then 160 else if b0 = 240 then 144 else 128) \<le> b1 \<and>
     b1 \<le> (if b0 = 237 then 159 else if b0 = 244 then 143 else 191)"

definition decode_rune :: "string \<Rightarrow> nat \<times> nat" where
  "decode_rune s =
     (case s of [] \<Rightarrow> (RuneError, 0)
      | c0 # cs \<Rightarrow>
        (let b0 = of_char c0; n = lead_size b0; b = (\<lambda>i. of_char (cs ! i)) in
         if n = 1 then (b0, 1)
         else if n = 0 \<or> length cs < n - 1 then (RuneError, 1)
         else if \<not> second_ok b0 (b 0) then (RuneError, 1)
         else if n = 2 then ((b0 mod 32) * 64 + b 0 mod 64, 2)
         else if \<not> is_cont (b 1) then (RuneError, 1)
         else if n = 3 then ((b0 mod 16) * 4096 + (b 0 mod 64) * 64 + b 1 mod 64, 3)
         else if \<not> is_cont (b 2) then (RuneError, 1)
         else ((b0 mod 8) * 262144 + (b 0 mod 64) * 4096 + (b 1 mod 64) * 64 + b 2 mod 64, 4)))"

text \<open>\<open>utf8.DecodeLastRuneInString\<close>: step back over at most three continuation bytes, decode
  forward, and accept only a sequence that ends where the string ends.\<close>

definition rune_start :: "char \<Rightarrow> bool" where
  "rune_start c \<longleftrightarrow> \<not> is_cont (of_char c)"

definition last_width :: "string \<Rightarrow> nat" where
  "last_width s =
     (case find (\<lambda>k. k \<le> length s \<and> rune_start (s ! (length s - k))) [2, 3, 4] of
        Some k \<Rightarrow> k | None \<Rightarrow> min (length s) 5)"

definition decode_last_rune :: "string \<Rightarrow> nat \<times> nat" where
  "decode_last_rune s =
     (if s = [] then (RuneError, 0)
      else if of_char (last s) < (128 :: nat) then (of_char (last s), 1)
      else (let k = last_width s; (r, n) = decode_rune (drop (length s - k) s)
            in if n = k then (r, n) else (RuneError, 1)))"

definition encode_rune :: "nat \<Rightarrow> string" where
  "encode_rune r =
     (if r < 128 then [char_of r]
      else if r < 2048 then [char_of (192 + r div 64), char_of (128 + r mod 64)]
      else if \<not> scalar r then [char_of (239::nat), char_of (191::nat), char_of (189::nat)]
      else if r < 65536 then
        [char_of (224 + r div 4096), char_of (128 + r div 64 mod 64), char_of (128 + r mod 64)]
      else [char_of (240 + r div 262144), char_of (128 + r div 4096 mod 64),
            char_of (128 + r div 64 mod 64), char_of (128 + r mod 64)])"

definition utf8 :: "nat list \<Rightarrow> string" where
  "utf8 rs = concat (map encode_rune rs)"

lemma decode_rune_size_pos: "s \<noteq> [] \<Longrightarrow> 0 < snd (decode_rune s)"
  by (auto simp: decode_rune_def Let_def split: list.splits)

lemma decode_rune_size_le: "snd (decode_rune s) \<le> length s"
  by (auto simp: decode_rune_def Let_def lead_size_def Suc_le_eq split: list.splits)

lemma last_width_le: "last_width s \<le> length s"
  by (auto simp: last_width_def find_Some_iff split: option.splits)

lemma decode_last_rune_size:
  assumes "s \<noteq> []"
  shows "0 < snd (decode_last_rune s)" "snd (decode_last_rune s) \<le> length s"
proof -
  have "0 < length s" using assms by simp
  then have "0 < last_width s"
    by (auto simp: last_width_def find_Some_iff numeral_eq_Suc nth_Cons split: option.splits nat.splits)
  with assms last_width_le[of s]
  show "0 < snd (decode_last_rune s)" "snd (decode_last_rune s) \<le> length s"
    by (auto simp: decode_last_rune_def Let_def Suc_le_eq split: prod.splits)
qed

text \<open>\<open>[]rune(s)\<close>, also what \<open>range\<close> over a string visits.\<close>

function runes :: "string \<Rightarrow> nat list" where
  "runes s = (if s = [] then [] else fst (decode_rune s) # runes (drop (snd (decode_rune s)) s))"
  by pat_completeness auto
termination
  by (relation "measure length") (auto simp: decode_rune_size_pos)

declare runes.simps [simp del]

subsection \<open>Encoding and decoding are inverse\<close>

lemma encode_rune_not_Nil [simp]: "encode_rune r \<noteq> []"
  by (simp add: encode_rune_def)

lemma length_encode_rune_pos [simp]: "0 < length (encode_rune r)"
  by simp

lemma length_encode_rune_le: "length (encode_rune r) \<le> 4"
  by (simp add: encode_rune_def)

lemma digits64:
  "r div 4096 * 4096 + r div 64 mod 64 * 64 + r mod 64 = (r :: nat)"
  "r div 262144 * 262144 + r div 4096 mod 64 * 4096 + r div 64 mod 64 * 64 + r mod 64 = r"
proof -
  have q: "r div 4096 = r div 64 div 64" "r div 262144 = r div 64 div 64 div 64"
    by (simp_all add: div_mult2_eq[symmetric])
  have "r div 64 * 64 + r mod 64 = r" "r div 64 div 64 * 64 + r div 64 mod 64 = r div 64"
    "r div 64 div 64 div 64 * 64 + r div 64 div 64 mod 64 = r div 64 div 64"
    by (rule div_mult_mod_eq)+
  then show
    "r div 4096 * 4096 + r div 64 mod 64 * 64 + r mod 64 = r"
    "r div 262144 * 262144 + r div 4096 mod 64 * 4096 + r div 64 mod 64 * 64 + r mod 64 = r"
    unfolding q by linarith+
qed

lemma mod_offset:
  "x < 32 \<Longrightarrow> (192 + x) mod 32 = (x :: nat)" "x < 16 \<Longrightarrow> (224 + x) mod 16 = x"
  "x < 8 \<Longrightarrow> (240 + x) mod 8 = x" "x < 64 \<Longrightarrow> (128 + x) mod 64 = x"
  using mod_mult_self2[of x 32 6] mod_mult_self2[of x 16 14] mod_mult_self2[of x 8 30]
    mod_mult_self2[of x 64 2]
  by (simp_all add: add.commute)

lemma decode_encode_rune:
  assumes "scalar r"
  shows "decode_rune (encode_rune r @ s) = (r, length (encode_rune r))"
proof -
  consider (a) "r < 128" | (b) "128 \<le> r" "r < 2048" | (c) "2048 \<le> r" "r < 65536"
    | (d) "65536 \<le> r" "r \<le> 1114111"
    using assms unfolding scalar_def by linarith
  then show ?thesis
  proof cases
    case a
    then show ?thesis
      by (simp add: decode_rune_def encode_rune_def lead_size_def)
  next
    case b
    define y z where yz: "y = r div 64" "z = r mod 64"
    have bnd: "2 \<le> y" "y < 32" "z < 64" and sum: "y * 64 + z = r"
      using b by (auto simp: yz)
    have enc: "encode_rune r = [char_of (192 + y), char_of (128 + z)]"
      using b by (simp add: encode_rune_def yz)
    show ?thesis
      using bnd sum
      by (simp add: decode_rune_def enc lead_size_def second_ok_def Let_def mod_offset)
  next
    case c
    define x y z where xyz: "x = r div 4096" "y = r div 64 mod 64" "z = r mod 64"
    have bnd: "x < 16" "y < 64" "z < 64" and sum: "x * 4096 + y * 64 + z = r"
      using c digits64(1)[of r] by (auto simp: xyz)
    have e0: "x = 0 \<Longrightarrow> 32 \<le> y" and ed: "x = 13 \<Longrightarrow> y < 32"
      using c assms sum bnd by (auto simp: scalar_def)
    have enc: "encode_rune r = [char_of (224 + x), char_of (128 + y), char_of (128 + z)]"
      using c assms by (simp add: encode_rune_def xyz)
    show ?thesis
      using bnd e0 ed sum
      by (simp add: decode_rune_def enc lead_size_def second_ok_def is_cont_def Let_def mod_offset) linarith
  next
    case d
    define w x y z where wxyz: "w = r div 262144" "x = r div 4096 mod 64" "y = r div 64 mod 64" "z = r mod 64"
    have bnd: "w < 5" "x < 64" "y < 64" "z < 64" and sum: "w * 262144 + x * 4096 + y * 64 + z = r"
      using d digits64(2)[of r] by (auto simp: wxyz)
    have f0: "w = 0 \<Longrightarrow> 16 \<le> x" and f4: "w = 4 \<Longrightarrow> x < 16"
      using d sum bnd by auto
    have enc: "encode_rune r = [char_of (240 + w), char_of (128 + x), char_of (128 + y), char_of (128 + z)]"
      using d assms by (simp add: encode_rune_def wxyz)
    show ?thesis
      using bnd f0 f4 sum
      by (simp add: decode_rune_def enc lead_size_def second_ok_def is_cont_def Let_def mod_offset) linarith
  qed
qed

lemma utf8_simps [simp]:
  "utf8 [] = []" "utf8 (r # rs) = encode_rune r @ utf8 rs" "utf8 (rs @ rs') = utf8 rs @ utf8 rs'"
  by (simp_all add: utf8_def)

lemma utf8_eq_Nil_iff [simp]: "utf8 rs = [] \<longleftrightarrow> rs = []"
  by (cases rs) auto

lemma encode_rune_shape:
  assumes "scalar r"
  shows "rune_start (hd (encode_rune r))" "c \<in> set (tl (encode_rune r)) \<Longrightarrow> \<not> rune_start c"
proof -
  have m: "n mod 64 < 64" for n :: nat by simp
  have "r div 262144 < 5" "r < 65536 \<Longrightarrow> r div 4096 < 16" "r < 2048 \<Longrightarrow> r div 64 < 32"
    using assms by (auto simp: scalar_def)
  then show "rune_start (hd (encode_rune r))" "c \<in> set (tl (encode_rune r)) \<Longrightarrow> \<not> rune_start c"
    using assms m[of r] m[of "r div 64"] m[of "r div 4096"]
    by (auto simp: encode_rune_def rune_start_def is_cont_def split: if_splits)
qed

lemma runes_utf8: "list_all scalar rs \<Longrightarrow> runes (utf8 rs) = rs"
  by (induction rs) (auto simp: runes.simps[of "[]"] runes.simps[of "encode_rune _ @ _"] decode_encode_rune)

lemma last_width_encode:
  assumes "scalar r" and "2 \<le> length (encode_rune r)"
  shows "last_width (s @ encode_rune r) = length (encode_rune r)"
proof -
  let ?e = "encode_rune r"
  define n where "n = length ?e"
  have n: "n \<in> {2, 3, 4}" using assms(2) length_encode_rune_le[of r] by (auto simp: n_def)
  have hd: "rune_start (?e ! 0)" using encode_rune_shape(1)[OF assms(1)] by (simp add: hd_conv_nth)
  have tl: "\<not> rune_start (?e ! i)" if "0 < i" "i < n" for i
    using encode_rune_shape(2)[OF assms(1), of "?e ! i"] that
    by (cases ?e; cases i) (auto simp: n_def)
  have nth: "(s @ ?e) ! (length (s @ ?e) - k) = ?e ! (n - k)" if "k \<le> n" for k
    using that by (auto simp: nth_append n_def)
  show ?thesis
    using n hd tl[of 1] tl[of 2] tl[of 3] nth[of 2] nth[of 3] nth[of 4]
    by (auto simp: last_width_def n_def[symmetric])
qed

lemma decode_last_encode_rune:
  assumes "scalar r"
  shows "decode_last_rune (s @ encode_rune r) = (r, length (encode_rune r))"
proof (cases "r < 128")
  case True
  then show ?thesis by (simp add: decode_last_rune_def encode_rune_def)
next
  case False
  then have l: "2 \<le> length (encode_rune r)" by (simp add: encode_rune_def)
  then have "last (encode_rune r) \<in> set (tl (encode_rune r))"
    by (cases "encode_rune r") auto
  then have "\<not> of_char (last (encode_rune r)) < (128::nat)"
    using encode_rune_shape(2)[OF assms] by (fastforce simp: rune_start_def is_cont_def)
  then show ?thesis
    using decode_encode_rune[OF assms, of "[]"] last_width_encode[OF assms l, of s]
    by (simp add: decode_last_rune_def)
qed

section \<open>Trimming\<close>

text \<open>\<open>unicode.IsSpace\<close>.\<close>

definition IsSpace :: "nat \<Rightarrow> bool" where
  "IsSpace r \<longleftrightarrow> r \<in> {9, 10, 11, 12, 13, 32, 133, 160, 5760, 8232, 8233, 8239, 8287, 12288}
     \<or> 8192 \<le> r \<and> r \<le> 8202"

function trim_left :: "string \<Rightarrow> string" where
  "trim_left s = (if s \<noteq> [] \<and> IsSpace (fst (decode_rune s))
     then trim_left (drop (snd (decode_rune s)) s) else s)"
  by pat_completeness auto
termination
  by (relation "measure length") (auto simp: decode_rune_size_pos)

function trim_right :: "string \<Rightarrow> string" where
  "trim_right s = (if s \<noteq> [] \<and> IsSpace (fst (decode_last_rune s))
     then trim_right (take (length s - snd (decode_last_rune s)) s) else s)"
  by pat_completeness auto
termination
  by (relation "measure length") (auto simp: decode_last_rune_size)

declare trim_left.simps [simp del] trim_right.simps [simp del]

text \<open>\<open>strings.TrimSpace\<close>.\<close>

definition TrimSpace :: "string \<Rightarrow> string" where
  "TrimSpace s = trim_right (trim_left s)"

lemma trim_left_Nil [simp]: "trim_left [] = []"
  by (simp add: trim_left.simps)

lemma trim_right_Nil [simp]: "trim_right [] = []"
  by (simp add: trim_right.simps)

lemma TrimSpace_Nil [simp]: "TrimSpace [] = []"
  by (simp add: TrimSpace_def)

lemma trim_left_suffix: "suffix (trim_left s) s"
proof (induction s rule: trim_left.induct)
  case (1 s)
  show ?case
    using 1 by (subst trim_left.simps) (auto intro: suffix_order.trans suffix_drop)
qed

lemma trim_right_prefix: "prefix (trim_right s) s"
proof (induction s rule: trim_right.induct)
  case (1 s)
  show ?case
    using 1 by (subst trim_right.simps) (auto intro: prefix_order.trans take_is_prefix)
qed

lemma trim_right_last:
  "trim_right s \<noteq> [] \<Longrightarrow> \<not> IsSpace (fst (decode_last_rune (trim_right s)))"
proof (induction s rule: trim_right.induct)
  case (1 s)
  then show ?case
    by (subst (asm) trim_right.simps, subst trim_right.simps) (auto split: if_splits)
qed

lemma set_TrimSpace: "set (TrimSpace s) \<subseteq> set s"
  using set_mono_prefix[OF trim_right_prefix] set_mono_suffix[OF trim_left_suffix]
  by (auto simp: TrimSpace_def)

lemma decode_rune_append:
  assumes "s \<noteq> []" "fst (decode_rune s) \<noteq> RuneError"
  shows "decode_rune (s @ x) = decode_rune s"
proof -
  obtain c cs where s: "s = c # cs" using assms(1) by (cases s) auto
  define n where "n = lead_size (of_char c)"
  have n: "n = 0 \<or> n = 1 \<or> n = 2 \<or> n = 3 \<or> n = 4" by (simp add: n_def lead_size_def)
  have short: "decode_rune s = (RuneError, 1)" if "n = 0 \<or> n \<noteq> 1 \<and> length cs < n - 1"
    using that by (auto simp: s decode_rune_def n_def[symmetric] Let_def)
  have ok: "n \<noteq> 0" "n \<noteq> 1 \<Longrightarrow> \<not> length cs < n - 1"
    using assms(2) short by (metis fst_conv)+
  have idx: "n \<noteq> 1 \<Longrightarrow> i < n - 1 \<Longrightarrow> (cs @ x) ! i = cs ! i" for i
    using ok(2) by (simp add: nth_append)
  from n ok(1) consider "n = 1" | "n = 2" | "n = 3" | "n = 4" by blast
  then show ?thesis
  proof cases
    case 1
    then show ?thesis by (simp add: s decode_rune_def n_def[symmetric] Let_def)
  next
    case 2
    then show ?thesis using ok(2) idx[of 0] by (simp add: s decode_rune_def n_def[symmetric] Let_def)
  next
    case 3
    then show ?thesis using ok(2) idx[of 0] idx[of 1] by (simp add: s decode_rune_def n_def[symmetric] Let_def)
  next
    case 4
    then show ?thesis using ok(2) idx[of 0] idx[of 1] idx[of 2] by (simp add: s decode_rune_def n_def[symmetric] Let_def)
  qed
qed

lemma trim_left_first: "trim_left s \<noteq> [] \<Longrightarrow> \<not> IsSpace (fst (decode_rune (trim_left s)))"
proof (induction s rule: trim_left.induct)
  case (1 s)
  then show ?case
    by (subst (asm) trim_left.simps, subst trim_left.simps) (auto split: if_splits)
qed

text \<open>A fixed point of trimming: what has no space at either end.\<close>

lemma TrimSpace_id:
  "s = [] \<or> \<not> IsSpace (fst (decode_rune s)) \<and> \<not> IsSpace (fst (decode_last_rune s)) \<Longrightarrow> TrimSpace s = s"
  by (auto simp: TrimSpace_def trim_left.simps[of s] trim_right.simps[of s])

lemma TrimSpace_idem [simp]: "TrimSpace (TrimSpace s) = TrimSpace s"
proof (rule TrimSpace_id, cases "TrimSpace s = []")
  case False
  let ?u = "trim_left s" and ?t = "TrimSpace s"
  obtain x where u: "?u = ?t @ x" using trim_right_prefix[of ?u] by (auto simp: TrimSpace_def prefix_def)
  have "\<not> IsSpace (fst (decode_rune ?t))"
  proof
    assume sp: "IsSpace (fst (decode_rune ?t))"
    then have "fst (decode_rune ?t) \<noteq> RuneError" by (auto simp: IsSpace_def RuneError_def)
    then have "decode_rune ?u = decode_rune ?t" using decode_rune_append[OF False] u by simp
    then show False using sp trim_left_first[of s] u False by auto
  qed
  moreover have "\<not> IsSpace (fst (decode_last_rune ?t))"
    using trim_right_last[of ?u] False by (simp add: TrimSpace_def)
  ultimately show "?t = [] \<or> \<not> IsSpace (fst (decode_rune ?t)) \<and> \<not> IsSpace (fst (decode_last_rune ?t))" by blast
qed simp

definition is_graphic :: "char \<Rightarrow> bool" where
  "is_graphic c \<longleftrightarrow> (32::nat) < of_char c \<and> of_char c < (127::nat)"

lemma TrimSpace_graphic:
  assumes "s \<noteq> []" "is_graphic (hd s)" "is_graphic (last s)"
  shows "TrimSpace s = s"
proof (rule TrimSpace_id)
  obtain c cs where s: "s = c # cs" using assms(1) by (cases s) auto
  have "fst (decode_rune s) = of_char (hd s)" "fst (decode_last_rune s) = of_char (last s)"
    using assms by (simp_all add: s decode_rune_def decode_last_rune_def lead_size_def is_graphic_def)
  then show "s = [] \<or> \<not> IsSpace (fst (decode_rune s)) \<and> \<not> IsSpace (fst (decode_last_rune s))"
    using assms by (auto simp: is_graphic_def IsSpace_def)
qed

lemma TrimSpace_space: "TrimSpace '' '' = []"
proof -
  have "decode_rune '' '' = (32, 1)" by (simp add: decode_rune_def lead_size_def)
  then show ?thesis by (simp add: TrimSpace_def trim_left.simps[of "'' ''"] IsSpace_def)
qed

text \<open>Trimming on runes.\<close>

lemma trim_left_utf8: "list_all scalar rs \<Longrightarrow> trim_left (utf8 rs) = utf8 (dropWhile IsSpace rs)"
proof (induction rs)
  case (Cons r rs)
  then show ?case
    by (subst trim_left.simps) (simp add: decode_encode_rune)
qed simp

lemma trim_right_utf8: "list_all scalar rs \<Longrightarrow> trim_right (utf8 rs) = utf8 (rev (dropWhile IsSpace (rev rs)))"
proof (induction rs rule: rev_induct)
  case (snoc r rs)
  then show ?case
    by (subst trim_right.simps) (simp add: decode_last_encode_rune)
qed simp

lemma TrimSpace_utf8:
  assumes "list_all scalar rs"
  shows "TrimSpace (utf8 rs) = utf8 (rev (dropWhile IsSpace (rev (dropWhile IsSpace rs))))"
proof -
  have "list_all scalar (dropWhile IsSpace rs)" using assms by (auto simp: list_all_iff dest: set_dropWhileD)
  then show ?thesis using assms by (simp add: TrimSpace_def trim_left_utf8 trim_right_utf8)
qed

lemma utf8_inj: "list_all scalar rs \<Longrightarrow> list_all scalar rs' \<Longrightarrow> utf8 rs = utf8 rs' \<Longrightarrow> rs = rs'"
  by (metis runes_utf8)

lemma TrimSpace_last:
  assumes "list_all scalar ns" "ns \<noteq> []" "TrimSpace (utf8 ns) = utf8 ns"
  shows "\<not> IsSpace (last ns)"
proof -
  let ?d = "dropWhile IsSpace (rev (dropWhile IsSpace ns))"
  have "list_all scalar (rev ?d)" using assms(1) by (auto simp: list_all_iff dest!: set_dropWhileD)
  then have eq: "rev ?d = ns" using assms TrimSpace_utf8[of ns] utf8_inj by simp
  then have "?d \<noteq> []" using assms(2) by (metis rev.simps(1))
  then have "\<not> IsSpace (hd ?d)" by (rule hd_dropWhile)
  moreover have "hd ?d = last ns" using eq by (metis hd_rev rev_rev_ident)
  ultimately show ?thesis by simp
qed

section \<open>Searching, cutting, replacing\<close>

text \<open>\<open>strings.Contains\<close>.\<close>

fun contains :: "string \<Rightarrow> string \<Rightarrow> bool" where
  "contains [] w = (w = [])"
| "contains (c # cs) w = (prefix w (c # cs) \<or> contains cs w)"

lemma contains_iff_sublist: "contains s w \<longleftrightarrow> sublist w s"
  by (induction s) (auto simp: sublist_Cons_right)

lemma contains_iff: "contains s w \<longleftrightarrow> (\<exists>a b. s = a @ w @ b)"
  by (simp add: contains_iff_sublist sublist_def)

text \<open>\<open>strings.Cut\<close>: what is before and after the first occurrence of the separator,
  \<open>None\<close> when there is none.\<close>

fun strings_Cut :: "string \<Rightarrow> string \<Rightarrow> (string \<times> string) option" where
  "strings_Cut [] sep = (if sep = [] then Some ([], []) else None)"
| "strings_Cut (c # cs) sep =
     (if prefix sep (c # cs) then Some ([], drop (length sep) (c # cs))
      else map_option (\<lambda>(a, b). (c # a, b)) (strings_Cut cs sep))"

lemma strings_Cut_Some: "strings_Cut s sep = Some (a, b) \<Longrightarrow> s = a @ sep @ b"
  by (induction s arbitrary: a) (auto simp: prefix_def split: if_splits)

lemma strings_Cut_char: "c \<notin> set a \<Longrightarrow> strings_Cut (a @ c # b) [c] = Some (a, b)"
  by (induction a) (auto simp: prefix_def)

text \<open>\<open>strings.Split\<close> at a one-byte separator.\<close>

fun split_on :: "char \<Rightarrow> string \<Rightarrow> string list" where
  "split_on c [] = [[]]"
| "split_on c (x # xs) = (if x = c then [] # split_on c xs
     else (case split_on c xs of [] \<Rightarrow> [[x]] | p # ps \<Rightarrow> (x # p) # ps))"

lemma split_on_not_Nil [simp]: "split_on c s \<noteq> []"
  by (cases s) (auto split: list.splits)

lemma split_on_none: "c \<notin> set s \<Longrightarrow> split_on c s = [s]"
  by (induction s) auto

lemma split_on_sep: "c \<notin> set p \<Longrightarrow> split_on c (p @ c # s) = p # split_on c s"
  by (induction p) auto

text \<open>\<open>strings.LastIndex\<close> of a one-byte string.\<close>

definition last_index :: "char \<Rightarrow> string \<Rightarrow> nat option" where
  "last_index c s = (if c \<in> set s then Some (length s - 1 - length (takeWhile (\<lambda>x. x \<noteq> c) (rev s))) else None)"

lemma last_index_append: "c \<notin> set b \<Longrightarrow> last_index c (a @ c # b) = Some (length a)"
  by (simp add: last_index_def takeWhile_append)

text \<open>\<open>strings.LastIndexAny\<close>: the byte index of the last rune in the set.\<close>

function last_index_any :: "nat list \<Rightarrow> string \<Rightarrow> nat option" where
  "last_index_any chars s =
     (if s = [] then None
      else if fst (decode_last_rune s) \<in> set chars then Some (length s - snd (decode_last_rune s))
      else last_index_any chars (take (length s - snd (decode_last_rune s)) s))"
  by pat_completeness auto
termination
  by (relation "measure (\<lambda>(_, s). length s)") (auto simp: decode_last_rune_size)

declare last_index_any.simps [simp del]

lemma last_index_any_Nil [simp]: "last_index_any chars [] = None"
  by (simp add: last_index_any.simps)

lemma last_index_any_less: "last_index_any chars s = Some i \<Longrightarrow> i < length s"
proof (induction chars s rule: last_index_any.induct)
  case (1 chars s)
  then have ne: "s \<noteq> []" by auto
  have "s \<noteq> [] \<Longrightarrow> 0 < snd (decode_last_rune s)" by (rule decode_last_rune_size(1))
  with 1 ne show ?case
    by (auto simp: last_index_any.simps[of chars s] split: if_splits)
qed

text \<open>\<open>strings.ReplaceAll(s, `\n`, "\n")\<close>.\<close>

fun unescape_newlines :: "string \<Rightarrow> string" where
  "unescape_newlines (a # b # cs) =
     (if of_char a = (92::nat) \<and> b = CHR ''n'' then CHR 0x0A # unescape_newlines cs
      else a # unescape_newlines (b # cs))"
| "unescape_newlines cs = cs"

text \<open>\<open>strings.TrimRight(s, "/")\<close>.\<close>

definition trim_right_char :: "char \<Rightarrow> string \<Rightarrow> string" where
  "trim_right_char c s = rev (dropWhile (\<lambda>x. x = c) (rev s))"

text \<open>\<open>strings.ToLower\<close>, with the Unicode lower-case table of runes as a parameter; on an
  all-ASCII string only \<open>A\<close> to \<open>Z\<close> change.\<close>

definition ascii_lower :: "char \<Rightarrow> char" where
  "ascii_lower c = (if (65::nat) \<le> of_char c \<and> of_char c \<le> (90::nat) then char_of (of_char c + (32::nat)) else c)"

definition ToLower :: "(nat \<Rightarrow> nat) \<Rightarrow> string \<Rightarrow> string" where
  "ToLower lower s =
     (if list_all (\<lambda>c. of_char c < (128::nat)) s then map ascii_lower s
      else utf8 (map lower (runes s)))"

text \<open>\<open>strings.EqualFold\<close> against a string whose letters fold only within ASCII.\<close>

definition equal_fold :: "string \<Rightarrow> string \<Rightarrow> bool" where
  "equal_fold s t \<longleftrightarrow> map ascii_lower s = map ascii_lower t"

section \<open>Numbers in decimal\<close>

definition is_digit :: "char \<Rightarrow> bool" where
  "is_digit c \<longleftrightarrow> (48::nat) \<le> of_char c \<and> of_char c \<le> (57::nat)"

definition digits_value :: "string \<Rightarrow> nat" where
  "digits_value s = foldl (\<lambda>a c. 10 * a + (of_char c - 48)) 0 s"

text \<open>\<open>strconv.Atoi\<close> and \<open>strconv.ParseInt(s, 10, 64)\<close>; \<open>None\<close> is a syntax or range error.\<close>

definition ParseInt :: "string \<Rightarrow> int option" where
  "ParseInt s =
     (let (neg, ds) = (case s of [] \<Rightarrow> (False, [])
         | c # cs \<Rightarrow> if c = CHR ''-'' then (True, cs) else if c = CHR ''+'' then (False, cs) else (False, s));
          v = (if neg then - int (digits_value ds) else int (digits_value ds))
      in if ds \<noteq> [] \<and> list_all is_digit ds \<and> in_int64 v then Some v else None)"

lemma ParseInt_in_int64: "ParseInt s = Some v \<Longrightarrow> in_int64 v"
  by (auto simp: ParseInt_def Let_def split: if_splits prod.splits)

fun nat_str :: "nat \<Rightarrow> string" where
  "nat_str n = (if n < 10 then [char_of (48 + n)] else nat_str (n div 10) @ [char_of (48 + n mod 10)])"

declare nat_str.simps [simp del]

text \<open>\<open>strconv.FormatInt(v, 10)\<close> and \<open>FormatUint\<close>.\<close>

definition FormatInt :: "int \<Rightarrow> string" where
  "FormatInt v = (if v < 0 then CHR ''-'' # nat_str (nat (- v)) else nat_str (nat v))"

lemma nat_str_digits: "list_all is_digit (nat_str n)"
proof (induction n rule: nat_str.induct)
  case (1 n)
  then show ?case
    by (subst nat_str.simps) (auto simp: is_digit_def[of "char_of _"])
qed

lemma nat_str_not_Nil [simp]: "nat_str n \<noteq> []"
  by (subst nat_str.simps) auto

lemma digits_value_nat_str [simp]: "digits_value (nat_str n) = n"
proof (induction n rule: nat_str.induct)
  case (1 n)
  then show ?case
    by (subst nat_str.simps) (auto simp: digits_value_def)
qed

lemma nat_str_inj [simp]: "nat_str m = nat_str n \<longleftrightarrow> m = n"
  by (metis digits_value_nat_str)

lemma FormatInt_inj [simp]: "FormatInt a = FormatInt b \<longleftrightarrow> a = b"
proof -
  have hd: "hd (nat_str n) \<noteq> CHR ''-''" for n
    using nat_str_digits[of n] nat_str_not_Nil[of n] by (cases "nat_str n") (auto simp: is_digit_def)
  have "nat_str m \<noteq> CHR ''-'' # nat_str n" for m n using hd[of m] by auto
  then show ?thesis by (auto simp: FormatInt_def dest: sym)
qed

lemma nat_str_no_colon: "CHR '':'' \<notin> set (nat_str n)"
  using nat_str_digits[of n] by (auto simp: list_all_iff is_digit_def)

lemma ParseInt_FormatInt: "in_int64 v \<Longrightarrow> ParseInt (FormatInt v) = Some v"
proof -
  assume v: "in_int64 v"
  have hd: "\<exists>c cs. nat_str n = c # cs \<and> c \<noteq> CHR ''-'' \<and> c \<noteq> CHR ''+''" for n
    using nat_str_digits[of n] nat_str_not_Nil[of n]
    by (cases "nat_str n") (auto simp: is_digit_def)
  show ?thesis
  proof (cases "v < 0")
    case True
    then show ?thesis
      using v nat_str_digits[of "nat (- v)"] by (simp add: ParseInt_def FormatInt_def)
  next
    case False
    obtain c cs where n: "nat_str (nat v) = c # cs" "c \<noteq> CHR ''-''" "c \<noteq> CHR ''+''"
      using hd by blast
    then have "digits_value (c # cs) = nat v" using digits_value_nat_str by metis
    with False v n show ?thesis
      using nat_str_digits[of "nat v"] by (simp add: ParseInt_def FormatInt_def)
  qed
qed

text \<open>\<open>strconv.ParseBool\<close>.\<close>

definition ParseBool :: "string \<Rightarrow> bool option" where
  "ParseBool s =
     (if s \<in> {''1'', ''t'', ''T'', ''true'', ''TRUE'', ''True''} then Some True
      else if s \<in> {''0'', ''f'', ''F'', ''false'', ''FALSE'', ''False''} then Some False else None)"

section \<open>Words\<close>

text \<open>A word: valid UTF-8 with no space at either end.\<close>

definition word :: "string \<Rightarrow> bool" where
  "word w \<longleftrightarrow> (\<exists>rs. list_all scalar rs \<and> rs \<noteq> [] \<and> w = utf8 rs \<and> \<not> IsSpace (hd rs) \<and> \<not> IsSpace (last rs))"

lemma word_utf8: "list_all scalar rs \<Longrightarrow> rs \<noteq> [] \<Longrightarrow> \<not> IsSpace (hd rs) \<Longrightarrow> \<not> IsSpace (last rs) \<Longrightarrow> word (utf8 rs)"
  by (auto simp: word_def)

lemma word_trim: "word w \<Longrightarrow> TrimSpace w = w \<and> w \<noteq> []"
proof -
  assume "word w"
  then obtain rs where rs: "list_all scalar rs" "rs \<noteq> []" "w = utf8 rs" "\<not> IsSpace (hd rs)" "\<not> IsSpace (last rs)"
    by (auto simp: word_def)
  have "dropWhile IsSpace rs = rs" using rs(2,4) by (cases rs) auto
  moreover have "dropWhile IsSpace (rev rs) = rev rs" using rs(2,5) by (cases rs rule: rev_cases) auto
  ultimately show ?thesis using TrimSpace_utf8[OF rs(1)] rs(2,3) by simp
qed

lemma word_join: "word a \<Longrightarrow> word b \<Longrightarrow> of_char c < (128::nat) \<Longrightarrow> word (a @ c # b)"
proof -
  assume "word a" "word b" and c: "of_char c < (128::nat)"
  then obtain as bs where a: "list_all scalar as" "as \<noteq> []" "a = utf8 as" "\<not> IsSpace (hd as)"
    and b: "list_all scalar bs" "bs \<noteq> []" "b = utf8 bs" "\<not> IsSpace (last bs)" by (auto simp: word_def)
  have "encode_rune (of_char c) = [c]" using c by (simp add: encode_rune_def)
  then have "a @ c # b = utf8 (as @ of_char c # bs)" using a b by simp
  moreover have "scalar (of_char c)" using c by (simp add: scalar_def)
  ultimately show ?thesis
    unfolding word_def using a b by (intro exI[of _ "as @ of_char c # bs"]) auto
qed

lemma TrimSpace_space_word: "word w \<Longrightarrow> TrimSpace (CHR '' '' # w) = w"
proof -
  assume "word w"
  then obtain rs where rs: "list_all scalar rs" "rs \<noteq> []" "w = utf8 rs" "\<not> IsSpace (hd rs)" "\<not> IsSpace (last rs)"
    by (auto simp: word_def)
  have "utf8 [32] = '' ''" by code_simp
  then have sp: "CHR '' '' # w = utf8 (32 # rs)" "IsSpace 32" "scalar 32" using rs(3) by (simp_all add: IsSpace_def scalar_def)
  have "dropWhile IsSpace rs = rs" using rs(2,4) by (cases rs) auto
  moreover have "dropWhile IsSpace (rev rs) = rev rs" using rs(2,5) by (cases rs rule: rev_cases) auto
  ultimately have "TrimSpace (utf8 (32 # rs)) = utf8 rs" using TrimSpace_utf8[of "32 # rs"] rs(1) sp(2,3) by simp
  then show ?thesis by (simp only: sp(1) rs(3)[symmetric])
qed

end
