(* ===== verification/Redis.thy ===== *)
theory Redis
  imports Go_Strings "HOL-Library.AList"
begin

text \<open>
  The Redis service, a parameter of the model. The gateway reaches it through a client value
  (\<open>redis.UniversalClient\<close>); its Lua scripts, which are source of this repository, call
  server commands. Both are fields of the record \<open>redis\<close>, functions over an opaque server
  state. The locale \<open>redis_server\<close> states the documented behaviour the code relies on through
  two views of that state: what a key holds and its remaining time to live. A client call that
  fails may have been executed any number of times (the client retries), a call that succeeds
  was executed last and gave the reply; \<open>redis_once\<close> is the case without retries.

  \<open>mem_redis\<close> is an in-memory server that satisfies every law.
\<close>

section \<open>The client and the commands\<close>

text \<open>\<open>RedisDeadline\<close> is an error that wraps \<open>context.DeadlineExceeded\<close>.\<close>

datatype redis_error = RedisError string | RedisDeadline string

record 's redis =
  rGet :: "string \<Rightarrow> 's \<Rightarrow> (redis_error + string option) \<times> 's"
  rSet :: "string \<Rightarrow> string \<Rightarrow> int \<Rightarrow> 's \<Rightarrow> (redis_error + unit) \<times> 's"
  rSetNX :: "string \<Rightarrow> string \<Rightarrow> int \<Rightarrow> 's \<Rightarrow> (redis_error + bool) \<times> 's"
  rDel :: "string \<Rightarrow> 's \<Rightarrow> (redis_error + unit) \<times> 's"
  rRun :: "('s \<Rightarrow> int \<times> 's) \<Rightarrow> 's \<Rightarrow> (redis_error + int) \<times> 's"
  cGET :: "string \<Rightarrow> 's \<Rightarrow> string option"
  cDEL :: "string \<Rightarrow> 's \<Rightarrow> int \<times> 's"
  cINCRBY :: "string \<Rightarrow> int \<Rightarrow> 's \<Rightarrow> int \<times> 's"
  cPEXPIRE :: "string \<Rightarrow> int \<Rightarrow> 's \<Rightarrow> 's"
  cZADD :: "string \<Rightarrow> int \<Rightarrow> string \<Rightarrow> 's \<Rightarrow> 's"
  cZREM :: "string \<Rightarrow> string \<Rightarrow> 's \<Rightarrow> 's"
  cZREMRANGEBYSCORE :: "string \<Rightarrow> int \<Rightarrow> int \<Rightarrow> 's \<Rightarrow> 's"
  cZCARD :: "string \<Rightarrow> 's \<Rightarrow> int"
  cZRANGE_first :: "string \<Rightarrow> 's \<Rightarrow> string option"

text \<open>What a key holds: a string, or a sorted set as a map from members to scores.\<close>

datatype rval = RStr string | RZset "string \<rightharpoonup> int"

definition zval :: "(string \<rightharpoonup> int) \<Rightarrow> rval option" where
  "zval z = (if z = Map.empty then None else Some (RZset z))"

definition zset_of :: "rval option \<Rightarrow> (string \<rightharpoonup> int)" where
  "zset_of v = (case v of Some (RZset z) \<Rightarrow> z | _ \<Rightarrow> Map.empty)"

definition str_of :: "rval option \<Rightarrow> string option" where
  "str_of v = (case v of Some (RStr x) \<Rightarrow> Some x | _ \<Rightarrow> None)"

definition no_str :: "rval option \<Rightarrow> bool" where
  "no_str v \<longleftrightarrow> str_of v = None"

definition no_zset :: "rval option \<Rightarrow> bool" where
  "no_zset v \<longleftrightarrow> (\<forall>z. v \<noteq> Some (RZset z))"

text \<open>The members of a sorted set whose score lies outside a range.\<close>

definition outside :: "int \<Rightarrow> int \<Rightarrow> (string \<rightharpoonup> int) \<Rightarrow> (string \<rightharpoonup> int)" where
  "outside lo hi z = (\<lambda>m. case z m of None \<Rightarrow> None | Some sc \<Rightarrow> if lo \<le> sc \<and> sc \<le> hi then None else Some sc)"

lemma zset_of_zval [simp]: "zset_of (zval z) = z"
  by (simp add: zset_of_def zval_def)

lemma zset_of_RZset [simp]: "zset_of (Some (RZset z)) = z" "zset_of None = Map.empty"
  by (simp_all add: zset_of_def)

lemma str_of_simps [simp]: "str_of None = None" "str_of (Some (RStr x)) = Some x" "str_of (Some (RZset z)) = None"
  by (simp_all add: str_of_def)

lemma no_str_zval [simp]: "no_str (zval z)" "no_str (Some (RZset z))" "no_str None"
  by (simp_all add: no_str_def str_of_def zval_def)

lemma no_zset_simps [simp]: "no_zset None" "no_zset (Some (RStr x))"
  by (simp_all add: no_zset_def)

lemma finite_dom_outside: "finite (dom z) \<Longrightarrow> finite (dom (outside lo hi z))"
  by (rule finite_subset[of _ "dom z"]) (auto simp: outside_def split: option.splits if_splits)

lemma outside_Some_iff: "outside lo hi z m = Some sc \<longleftrightarrow> z m = Some sc \<and> \<not> (lo \<le> sc \<and> sc \<le> hi)"
  by (auto simp: outside_def split: option.splits)

lemma dom_outside: "dom (outside lo hi z) = {m. \<exists>sc. z m = Some sc \<and> \<not> (lo \<le> sc \<and> sc \<le> hi)}"
  by (auto simp: dom_def outside_Some_iff)

lemma card_dom_outside_le: "finite (dom z) \<Longrightarrow> card (dom (outside lo hi z)) \<le> card (dom z)"
  by (rule card_mono) (auto simp: dom_outside)

lemma outside_outside: "outside lo hi (outside lo' hi' z) = outside lo' hi' (outside lo hi z)"
  by (auto simp: outside_def fun_eq_iff split: option.splits)

section \<open>Documented behaviour\<close>

locale redis_server =
  fixes R :: "'s redis"
    and view :: "'s \<Rightarrow> string \<Rightarrow> rval option"
    and pttl :: "'s \<Rightarrow> string \<Rightarrow> int option"
  assumes zset_finite: "finite (dom (zset_of (view s k)))"
    and get_law: "no_zset (view s k) \<Longrightarrow> cGET R k s = str_of (view s k)"
    and del_law: "view (snd (cDEL R k s)) = (view s)(k := None)"
    and incrby_new: "view s k = None \<Longrightarrow> in_int64 n \<Longrightarrow>
       fst (cINCRBY R k n s) = n \<and> view (snd (cINCRBY R k n s)) = (view s)(k := Some (RStr (FormatInt n)))"
    and incrby_old: "view s k = Some (RStr v) \<Longrightarrow> ParseInt v = Some i \<Longrightarrow> in_int64 (i + n) \<Longrightarrow>
       fst (cINCRBY R k n s) = i + n \<and>
       view (snd (cINCRBY R k n s)) = (view s)(k := Some (RStr (FormatInt (i + n))))"
    and incrby_frame: "k' \<noteq> k \<Longrightarrow> view (snd (cINCRBY R k n s)) k' = view s k'"
    and zadd_frame: "k' \<noteq> k \<Longrightarrow> view (cZADD R k sc m s) k' = view s k'"
    and zrem_frame: "k' \<noteq> k \<Longrightarrow> view (cZREM R k m s) k' = view s k'"
    and zremrange_frame: "k' \<noteq> k \<Longrightarrow> view (cZREMRANGEBYSCORE R k lo hi s) k' = view s k'"
    and pexpire_view: "0 < ms \<Longrightarrow> view (cPEXPIRE R k ms s) = view s"
    and pexpire_ttl: "0 < ms \<Longrightarrow> view s k \<noteq> None \<Longrightarrow> pttl (cPEXPIRE R k ms s) k = Some ms"
    and zadd_law: "no_str (view s k) \<Longrightarrow>
       view (cZADD R k sc m s) = (view s)(k := zval ((zset_of (view s k))(m \<mapsto> sc)))"
    and zrem_law: "no_str (view s k) \<Longrightarrow>
       view (cZREM R k m s) = (view s)(k := zval ((zset_of (view s k))(m := None)))"
    and zremrange_law: "no_str (view s k) \<Longrightarrow>
       view (cZREMRANGEBYSCORE R k lo hi s) = (view s)(k := zval (outside lo hi (zset_of (view s k))))"
    and zcard_law: "no_str (view s k) \<Longrightarrow> cZCARD R k s = int (card (dom (zset_of (view s k))))"
    and zrange_none: "no_str (view s k) \<Longrightarrow>
       cZRANGE_first R k s = None \<longleftrightarrow> zset_of (view s k) = Map.empty"
    and zrange_some: "no_str (view s k) \<Longrightarrow> cZRANGE_first R k s = Some m \<Longrightarrow>
       \<exists>sc. zset_of (view s k) m = Some sc \<and>
         (\<forall>m' sc'. zset_of (view s k) m' = Some sc' \<longrightarrow> sc \<le> sc')"
    and run_err: "rRun R f s = (Inl e, s') \<Longrightarrow> \<exists>n. s' = ((snd \<circ> f) ^^ n) s"
    and run_ok: "rRun R f s = (Inr r, s') \<Longrightarrow> \<exists>n. f (((snd \<circ> f) ^^ n) s) = (r, s')"
    and get_call: "rGet R k s = (Inr x, s') \<Longrightarrow> no_zset (view s k) \<Longrightarrow> x = str_of (view s k)"
    and get_view: "rGet R k s = (y, s') \<Longrightarrow> view s' = view s"
    and set_ok: "rSet R k v ttl s = (Inr (), s') \<Longrightarrow> 0 < ttl \<Longrightarrow>
       view s' = (view s)(k := Some (RStr v)) \<and> (\<exists>ms > 0. pttl s' k = Some ms)"
    and set_err: "rSet R k v ttl s = (Inl e, s') \<Longrightarrow>
       view s' = view s \<or> view s' = (view s)(k := Some (RStr v))"
    and setnx_ok: "rSetNX R k v ttl s = (Inr b, s') \<Longrightarrow> 0 < ttl \<Longrightarrow>
       (if b then view s k = None \<and> view s' = (view s)(k := Some (RStr v)) \<and> (\<exists>ms > 0. pttl s' k = Some ms)
        else view s k \<noteq> None \<and> view s' = view s \<or> view s k = None \<and> view s' = (view s)(k := Some (RStr v)))"
    and setnx_err: "rSetNX R k v ttl s = (Inl e, s') \<Longrightarrow>
       view s' = view s \<or> (view s k = None \<and> view s' = (view s)(k := Some (RStr v)))"
    and del_ok: "rDel R k s = (Inr (), s') \<Longrightarrow> view s' = (view s)(k := None)"
    and del_err: "rDel R k s = (Inl e, s') \<Longrightarrow> view s' = view s \<or> view s' = (view s)(k := None)"
begin

text \<open>What every run of a script keeps, every client call of that script keeps.\<close>

lemma run_preserves:
  assumes step: "\<And>s. P s \<Longrightarrow> P (snd (f s))" and "P s"
  shows "P (snd (rRun R f s))"
proof -
  have iter: "P (((snd \<circ> f) ^^ n) s)" for n
    by (induction n) (auto simp: step assms(2))
  obtain r s' where r: "rRun R f s = (r, s')" by (cases "rRun R f s")
  show ?thesis
  proof (cases r)
    case (Inl e)
    with r iter show ?thesis by (auto dest: run_err)
  next
    case (Inr v)
    then obtain n where "f (((snd \<circ> f) ^^ n) s) = (v, s')" using r run_ok by blast
    with step[OF iter[of n]] r show ?thesis by simp
  qed
qed

end

locale redis_once = redis_server +
  assumes run_once: "rRun R f s = (Inr r, s') \<Longrightarrow> f s = (r, s')"

section \<open>An in-memory server\<close>

datatype mval = MStr string | MZset "(string \<times> int) list"

record mem =
  kv :: "string \<Rightarrow> mval option"
  ttls :: "string \<Rightarrow> int option"

definition mem_view :: "mem \<Rightarrow> string \<Rightarrow> rval option" where
  "mem_view s k = (case kv s k of None \<Rightarrow> None | Some (MStr v) \<Rightarrow> Some (RStr v) | Some (MZset l) \<Rightarrow> zval (map_of l))"

definition mem_pttl :: "mem \<Rightarrow> string \<Rightarrow> int option" where
  "mem_pttl s k = ttls s k"

definition mem_zset :: "mem \<Rightarrow> string \<Rightarrow> (string \<times> int) list" where
  "mem_zset s k = (case kv s k of Some (MZset l) \<Rightarrow> AList.clearjunk l | _ \<Rightarrow> [])"

definition mem_put :: "string \<Rightarrow> (string \<times> int) list \<Rightarrow> mem \<Rightarrow> mem" where
  "mem_put k l s = s\<lparr>kv := (kv s)(k := if l = [] then None else Some (MZset l))\<rparr>"

fun least_score :: "(string \<times> int) list \<Rightarrow> (string \<times> int) option" where
  "least_score [] = None"
| "least_score ((m, sc) # l) = (case least_score l of None \<Rightarrow> Some (m, sc)
     | Some (m', sc') \<Rightarrow> if sc \<le> sc' then Some (m, sc) else Some (m', sc'))"

definition mem_str :: "mem \<Rightarrow> string \<Rightarrow> string option" where
  "mem_str s k = (case kv s k of Some (MStr v) \<Rightarrow> Some v | _ \<Rightarrow> None)"

definition mem_incr :: "string \<Rightarrow> int \<Rightarrow> mem \<Rightarrow> int \<times> mem" where
  "mem_incr k n s =
     (let i = (case mem_str s k of None \<Rightarrow> 0 | Some v \<Rightarrow> (case ParseInt v of None \<Rightarrow> 0 | Some i \<Rightarrow> i))
      in (i + n, s\<lparr>kv := (kv s)(k \<mapsto> MStr (FormatInt (i + n)))\<rparr>))"

definition mem_set :: "string \<Rightarrow> string \<Rightarrow> int \<Rightarrow> mem \<Rightarrow> mem" where
  "mem_set k v ttl s = s\<lparr>kv := (kv s)(k \<mapsto> MStr v), ttls := (ttls s)(k \<mapsto> max 1 (ttl div millisecond))\<rparr>"

definition mem_redis :: "mem redis" where
  "mem_redis = \<lparr>
     rGet = (\<lambda>k s. (Inr (mem_str s k), s)),
     rSet = (\<lambda>k v ttl s. (Inr (), mem_set k v ttl s)),
     rSetNX = (\<lambda>k v ttl s. if mem_str s k = None \<and> mem_zset s k = [] then (Inr True, mem_set k v ttl s) else (Inr False, s)),
     rDel = (\<lambda>k s. (Inr (), s\<lparr>kv := (kv s)(k := None)\<rparr>)),
     rRun = (\<lambda>f s. case f s of (r, s') \<Rightarrow> (Inr r, s')),
     cGET = (\<lambda>k s. mem_str s k),
     cDEL = (\<lambda>k s. (if mem_str s k = None \<and> mem_zset s k = [] then 0 else 1, s\<lparr>kv := (kv s)(k := None)\<rparr>)),
     cINCRBY = mem_incr,
     cPEXPIRE = (\<lambda>k ms s. s\<lparr>ttls := (ttls s)(k \<mapsto> ms)\<rparr>),
     cZADD = (\<lambda>k sc m s. mem_put k ((m, sc) # filter (\<lambda>p. fst p \<noteq> m) (mem_zset s k)) s),
     cZREM = (\<lambda>k m s. mem_put k (filter (\<lambda>p. fst p \<noteq> m) (mem_zset s k)) s),
     cZREMRANGEBYSCORE = (\<lambda>k lo hi s. mem_put k (filter (\<lambda>p. \<not> (lo \<le> snd p \<and> snd p \<le> hi)) (mem_zset s k)) s),
     cZCARD = (\<lambda>k s. int (length (mem_zset s k))),
     cZRANGE_first = (\<lambda>k s. map_option fst (least_score (mem_zset s k)))\<rparr>"

lemma distinct_mem_zset [simp]: "distinct (map fst (mem_zset s k))"
  by (auto simp: mem_zset_def distinct_clearjunk split: option.splits mval.splits)

lemma mem_view_zset: "zset_of (mem_view s k) = map_of (mem_zset s k)"
  by (auto simp: mem_view_def mem_zset_def map_of_clearjunk zset_of_def zval_def split: option.splits mval.splits)

lemma mem_view_str: "str_of (mem_view s k) = mem_str s k"
  by (auto simp: mem_view_def mem_str_def zval_def split: option.splits mval.splits)

lemma mem_view_put: "mem_view (mem_put k l s) = (mem_view s)(k := zval (map_of l))"
  by (auto simp: mem_view_def mem_put_def fun_eq_iff zval_def)

lemma mem_view_kv:
  "mem_view (s\<lparr>kv := (kv s)(k \<mapsto> MStr v)\<rparr>) = (mem_view s)(k := Some (RStr v))"
  "mem_view (s\<lparr>kv := (kv s)(k := None)\<rparr>) = (mem_view s)(k := None)"
  "mem_view (s\<lparr>ttls := t\<rparr>) = mem_view s"
  "mem_view (mem_set k v ttl s) = (mem_view s)(k := Some (RStr v))"
  by (auto simp: mem_view_def mem_set_def fun_eq_iff)

lemma map_of_filter_ne: "map_of (filter (\<lambda>p. fst p \<noteq> m) l) = (map_of l)(m := None)"
  by (induction l) (auto simp: fun_eq_iff)

lemma map_of_filter_score:
  "distinct (map fst l) \<Longrightarrow> map_of (filter (\<lambda>p. \<not> (lo \<le> snd p \<and> snd p \<le> hi)) l) = outside lo hi (map_of l)"
proof (induction l)
  case (Cons p l)
  then have "map_of l (fst p) = None" by (simp add: map_of_eq_None_iff)
  with Cons show ?case by (cases p) (auto simp: outside_def fun_eq_iff)
qed (simp add: outside_def)

lemma least_score_None [simp]: "least_score l = None \<longleftrightarrow> l = []"
  by (cases l) (auto split: option.splits)

lemma least_score_Some:
  "least_score l = Some (m, sc) \<Longrightarrow> (m, sc) \<in> set l \<and> (\<forall>(m', sc') \<in> set l. sc \<le> sc')"
  by (induction l arbitrary: m sc) (fastforce split: option.splits if_splits)+

lemma card_dom_map_of: "distinct (map fst l) \<Longrightarrow> card (dom (map_of l)) = length l"
  using distinct_card[of "map fst l"] by (simp add: dom_map_of_conv_image_fst)

lemma mem_view_None_iff: "mem_view s k = None \<longleftrightarrow> mem_str s k = None \<and> mem_zset s k = []"
proof -
  have "AList.clearjunk l = [] \<longleftrightarrow> map_of l = Map.empty" for l :: "(string \<times> int) list"
    by (metis map_of_clearjunk map_of_eq_empty_iff)
  then show ?thesis
    by (auto simp: mem_view_def mem_str_def mem_zset_def zval_def split: option.splits mval.splits)
qed

lemma mem_incr_None: "mem_view s k = None \<Longrightarrow> mem_str s k = None"
  using mem_view_str[of s k] by simp

interpretation mr: redis_once mem_redis mem_view mem_pttl
proof (unfold_locales, goal_cases)
  case (1 s k) show ?case by (simp add: mem_view_zset finite_dom_map_of)
next
  case (2 s k) show ?case by (simp add: mem_redis_def mem_view_str)
next
  case (3 k s) show ?case by (simp add: mem_redis_def mem_view_kv)
next
  case (4 s k n) then show ?case by (simp add: mem_redis_def mem_incr_def mem_incr_None mem_view_kv)
next
  case (5 s k v i n)
  then have "mem_str s k = Some v" using mem_view_str[of s k] by simp
  with 5 show ?case by (simp add: mem_redis_def mem_incr_def mem_view_kv)
next
  case (6 k' k n s) then show ?case by (simp add: mem_redis_def mem_incr_def mem_view_kv Let_def)
next
  case (7 k' k sc m s) then show ?case by (simp add: mem_redis_def mem_view_put)
next
  case (8 k' k m s) then show ?case by (simp add: mem_redis_def mem_view_put)
next
  case (9 k' k lo hi s) then show ?case by (simp add: mem_redis_def mem_view_put)
next
  case (10 ms k s) show ?case by (simp add: mem_redis_def mem_view_kv)
next
  case (11 ms s k) show ?case by (simp add: mem_redis_def mem_pttl_def)
next
  case (12 s k sc m) show ?case by (simp add: mem_redis_def mem_view_put map_of_filter_ne mem_view_zset)
next
  case (13 s k m) show ?case by (simp add: mem_redis_def mem_view_put map_of_filter_ne mem_view_zset)
next
  case (14 s k lo hi) show ?case by (simp add: mem_redis_def mem_view_put map_of_filter_score[simplified] mem_view_zset)
next
  case (15 s k) show ?case by (simp add: mem_redis_def mem_view_zset card_dom_map_of)
next
  case (16 s k) show ?case by (auto simp: mem_redis_def mem_view_zset)
next
  case (17 s k m) then show ?case
    by (fastforce simp: mem_redis_def mem_view_zset dest: least_score_Some map_of_SomeD)
next
  case (18 f s e s') then show ?case by (auto simp: mem_redis_def split: prod.splits)
next
  case (19 f s r s') then show ?case by (auto simp: mem_redis_def intro: exI[of _ 0] split: prod.splits)
next
  case (20 k s x s') then show ?case by (auto simp: mem_redis_def mem_view_str)
next
  case (21 k s y s') then show ?case by (simp add: mem_redis_def)
next
  case (22 k v ttl s s') then show ?case by (auto simp: mem_redis_def mem_view_kv mem_pttl_def mem_set_def)
next
  case (23 k v ttl s e s') then show ?case by (simp add: mem_redis_def)
next
  case (24 k v ttl s b s')
  then show ?case
    by (auto simp: mem_redis_def mem_view_kv mem_view_None_iff split: if_splits)
      (auto simp: mem_pttl_def mem_set_def)
next
  case (25 k v ttl s e s') then show ?case by (auto simp: mem_redis_def split: if_splits)
next
  case (26 k s s') then show ?case by (auto simp: mem_redis_def mem_view_kv)
next
  case (27 k s e s') then show ?case by (simp add: mem_redis_def)
next
  case (28 f s r s') then show ?case by (auto simp: mem_redis_def split: prod.splits)
qed

end
