(* ===== verification/Circuit.thy ===== *)
theory Circuit
  imports Gateway_Prelude Complex_Main
begin

text \<open>
  \<^verbatim>\<open>internal/limiter/circuit.go\<close>: the circuit breaker in front of the upstream. Each method
  runs under the breaker's mutex, so one call is one step; \<open>now\<close> is the reading of the
  injected clock in that step. \<open>gauge\<close> is the value last stored in the telemetry gauge
  \<open>gateway_circuit_state\<close>. The failure ratio is a \<open>float64\<close> quotient: \<open>f64_quot\<close> is the
  quotient rounded to 53 significant bits, ties to even, as a rational.
\<close>

section \<open>Floating-point quotient of two counts\<close>

text \<open>The shift that brings \<open>a / b\<close> into the range of 53-bit significands.\<close>

function norm_shift :: "nat \<Rightarrow> nat \<Rightarrow> nat" where
  "norm_shift a b = (if a = 0 \<or> 2 ^ 52 * b \<le> a then 0 else Suc (norm_shift (2 * a) b))"
  by pat_completeness auto
termination
  by (relation "measure (\<lambda>(a, b). 2 ^ 52 * b - a)") auto

declare norm_shift.simps [simp del]

definition div_round_even :: "nat \<Rightarrow> nat \<Rightarrow> nat" where
  "div_round_even x b =
     (let q = x div b; r = x mod b in
      if 2 * r < b then q else if b < 2 * r then Suc q else if even q then q else Suc q)"

definition f64_quot :: "nat \<Rightarrow> nat \<Rightarrow> rat" where
  "f64_quot a b =
     (if a = 0 then 0
      else (let k = norm_shift a b in of_nat (div_round_even (a * 2 ^ k) b) / 2 ^ k))"

section \<open>State\<close>

datatype CircuitState = CircuitClosed | CircuitHalfOpen | CircuitOpen

primrec state_code :: "CircuitState \<Rightarrow> nat" where
  "state_code CircuitClosed = 0"
| "state_code CircuitHalfOpen = 1"
| "state_code CircuitOpen = 2"

record CircuitConfig =
  Window :: int
  MinSamples :: int
  FailureThreshold :: rat
  OpenDuration :: int

record circuitBreaker =
  cfg :: CircuitConfig
  state :: CircuitState
  openedAt :: int
  probeActive :: bool
  probeStartedAt :: int
  events :: "bool list"
  gauge :: nat

definition defaultCircuitWindow :: int where "defaultCircuitWindow = 20"
definition defaultCircuitMinSamples :: int where "defaultCircuitMinSamples = 5"
definition defaultCircuitFailureThreshold :: rat where "defaultCircuitFailureThreshold = 1 / 2"
definition defaultCircuitOpenDuration :: int where "defaultCircuitOpenDuration = 30 * second"

lemmas circuit_default_defs =
  defaultCircuitWindow_def defaultCircuitMinSamples_def
  defaultCircuitFailureThreshold_def defaultCircuitOpenDuration_def

section \<open>Operations\<close>

definition circuit_defaults :: "CircuitConfig \<Rightarrow> CircuitConfig" where
  "circuit_defaults c =
     \<lparr>Window = (if Window c = 0 then defaultCircuitWindow else Window c),
      MinSamples = (if MinSamples c = 0 then defaultCircuitMinSamples else MinSamples c),
      FailureThreshold =
        (if FailureThreshold c = 0 then defaultCircuitFailureThreshold else FailureThreshold c),
      OpenDuration = (if OpenDuration c = 0 then defaultCircuitOpenDuration else OpenDuration c)\<rparr>"

definition newCircuitBreaker :: "CircuitConfig \<Rightarrow> string + circuitBreaker" where
  "newCircuitBreaker c0 =
     (let c = circuit_defaults c0 in
      if Window c \<le> 0 then Inl ''limiter: circuit window must be positive''
      else if MinSamples c \<le> 0 then Inl ''limiter: circuit min samples must be positive''
      else if Window c < MinSamples c then Inl ''limiter: circuit min samples cannot exceed window''
      else if FailureThreshold c \<le> 0 \<or> 1 < FailureThreshold c
        then Inl ''limiter: circuit failure threshold must be in (0,1]''
      else if OpenDuration c \<le> 0 then Inl ''limiter: circuit open duration must be positive''
      else Inr \<lparr>cfg = c, state = CircuitClosed, openedAt = 0, probeActive = False,
                probeStartedAt = 0, events = [], gauge = state_code CircuitClosed\<rparr>)"

definition circuit_ready :: "int \<Rightarrow> circuitBreaker \<Rightarrow> bool" where
  "circuit_ready now c =
     (case state c of
        CircuitClosed \<Rightarrow> True
      | CircuitOpen \<Rightarrow> OpenDuration (cfg c) \<le> time_sub now (openedAt c)
      | CircuitHalfOpen \<Rightarrow>
          \<not> probeActive c \<or> OpenDuration (cfg c) \<le> time_sub now (probeStartedAt c))"

text \<open>The tail of \<open>allow\<close>, reached in the half-open state: admit one probe.\<close>

definition admit_probe :: "int \<Rightarrow> circuitBreaker \<Rightarrow> bool \<times> circuitBreaker" where
  "admit_probe now c =
     (if probeActive c \<and> time_sub now (probeStartedAt c) < OpenDuration (cfg c) then (False, c)
      else (True, c\<lparr>probeActive := True, probeStartedAt := now\<rparr>))"

definition circuit_allow :: "int \<Rightarrow> circuitBreaker \<Rightarrow> bool \<times> circuitBreaker" where
  "circuit_allow now c =
     (case state c of
        CircuitClosed \<Rightarrow> (True, c)
      | CircuitOpen \<Rightarrow>
          if time_sub now (openedAt c) < OpenDuration (cfg c) then (False, c)
          else admit_probe now (c\<lparr>state := CircuitHalfOpen, probeActive := False,
                                  gauge := state_code CircuitHalfOpen\<rparr>)
      | CircuitHalfOpen \<Rightarrow> admit_probe now c)"

definition cancelProbe :: "circuitBreaker \<Rightarrow> circuitBreaker" where
  "cancelProbe c = (if state c = CircuitHalfOpen then c\<lparr>probeActive := False\<rparr> else c)"

definition openLocked :: "int \<Rightarrow> circuitBreaker \<Rightarrow> circuitBreaker" where
  "openLocked now c = c\<lparr>state := CircuitOpen, openedAt := now, probeActive := False,
                        events := [], gauge := state_code CircuitOpen\<rparr>"

definition closeLocked :: "circuitBreaker \<Rightarrow> circuitBreaker" where
  "closeLocked c = c\<lparr>state := CircuitClosed, probeActive := False, events := [],
                     gauge := state_code CircuitClosed\<rparr>"

definition failures :: "bool list \<Rightarrow> nat" where
  "failures es = length (filter Not es)"

definition last_n :: "nat \<Rightarrow> 'a list \<Rightarrow> 'a list" where
  "last_n n xs = drop (length xs - n) xs"

definition circuit_record :: "int \<Rightarrow> bool \<Rightarrow> circuitBreaker \<Rightarrow> circuitBreaker" where
  "circuit_record now success c =
     (case state c of
        CircuitHalfOpen \<Rightarrow>
          (let c' = c\<lparr>probeActive := False\<rparr> in if success then closeLocked c' else openLocked now c')
      | CircuitClosed \<Rightarrow>
          (let es = events c @ [success];
               es' = (if Window (cfg c) < int (length es) then last_n (nat (Window (cfg c))) es else es);
               c' = c\<lparr>events := es'\<rparr>
           in if int (length es') < MinSamples (cfg c) then c'
              else if FailureThreshold (cfg c) \<le> f64_quot (failures es') (length es')
              then openLocked now c' else c')
      | CircuitOpen \<Rightarrow> c)"

lemmas circuit_op_defs =
  circuit_allow_def admit_probe_def cancelProbe_def openLocked_def closeLocked_def
  circuit_record_def

section \<open>The breaker as a machine\<close>

text \<open>A call of one of the methods, with the clock reading it sees.\<close>

datatype circuit_call = CReady | CAllow | CCancelProbe | CRecord bool

fun circuit_step :: "int \<times> circuit_call \<Rightarrow> circuitBreaker \<Rightarrow> circuitBreaker" where
  "circuit_step (now, CReady) c = c"
| "circuit_step (now, CAllow) c = snd (circuit_allow now c)"
| "circuit_step (now, CCancelProbe) c = cancelProbe c"
| "circuit_step (now, CRecord b) c = circuit_record now b c"

definition circuit_run :: "(int \<times> circuit_call) list \<Rightarrow> circuitBreaker \<Rightarrow> circuitBreaker" where
  "circuit_run calls c = fold circuit_step calls c"

lemma circuit_run_simps [simp]:
  "circuit_run [] c = c"
  "circuit_run (x # xs) c = circuit_run xs (circuit_step x c)"
  "circuit_run (xs @ ys) c = circuit_run ys (circuit_run xs c)"
  by (simp_all add: circuit_run_def)

subsection \<open>The invariant\<close>

definition config_ok :: "CircuitConfig \<Rightarrow> bool" where
  "config_ok c \<longleftrightarrow> 0 < Window c \<and> 0 < MinSamples c \<and> MinSamples c \<le> Window c \<and>
     0 < FailureThreshold c \<and> FailureThreshold c \<le> 1 \<and>
     0 < OpenDuration c \<and> OpenDuration c \<le> max_int64"

definition circuit_inv :: "circuitBreaker \<Rightarrow> bool" where
  "circuit_inv c \<longleftrightarrow> config_ok (cfg c) \<and>
     int (length (events c)) \<le> Window (cfg c) \<and>
     (state c \<noteq> CircuitClosed \<longrightarrow> events c = []) \<and>
     (probeActive c \<longrightarrow> state c = CircuitHalfOpen) \<and>
     gauge c = state_code (state c) \<and>
     (MinSamples (cfg c) \<le> int (length (events c)) \<longrightarrow>
        f64_quot (failures (events c)) (length (events c)) < FailureThreshold (cfg c))"

lemma length_last_n [simp]: "length (last_n n xs) = min n (length xs)"
  by (simp add: last_n_def)

lemma last_n_all: "length xs \<le> n \<Longrightarrow> last_n n xs = xs"
  by (simp add: last_n_def)

text \<open>The two branches of the window update are one: the last \<open>Window\<close> outcomes.\<close>

lemma window_update:
  "0 < w \<Longrightarrow> (if w < int (length es) then last_n (nat w) es else es) = last_n (nat w) es"
  by (simp add: last_n_all)

lemma last_n_snoc: "0 < n \<Longrightarrow> last_n n (last_n n xs @ [x]) = last_n n (xs @ [x])"
  by (cases "length xs < n") (auto simp: last_n_def not_less Suc_diff_le)

lemma cfg_simps [simp]:
  "cfg (snd (circuit_allow now c)) = cfg c" "cfg (cancelProbe c) = cfg c"
  "cfg (circuit_record now b c) = cfg c"
  by (auto simp: circuit_op_defs Let_def split: CircuitState.splits)

lemma cfg_circuit_step [simp]: "cfg (circuit_step x c) = cfg c"
  by (cases "(x, c)" rule: circuit_step.cases) auto

lemma cfg_circuit_run [simp]: "cfg (circuit_run xs c) = cfg c"
  by (induction xs arbitrary: c) auto

lemma circuit_allow_inv: "circuit_inv c \<Longrightarrow> circuit_inv (snd (circuit_allow now c))"
  by (auto simp: circuit_inv_def circuit_op_defs split: CircuitState.splits)

lemma cancelProbe_inv: "circuit_inv c \<Longrightarrow> circuit_inv (cancelProbe c)"
  by (auto simp: circuit_inv_def circuit_op_defs)

lemma circuit_record_inv: "circuit_inv c \<Longrightarrow> circuit_inv (circuit_record now b c)"
  by (auto simp: circuit_inv_def config_ok_def circuit_op_defs Let_def window_update not_le
      split: CircuitState.splits)

lemma circuit_step_inv: "circuit_inv c \<Longrightarrow> circuit_inv (circuit_step x c)"
  by (cases "(x, c)" rule: circuit_step.cases)
    (auto simp: circuit_allow_inv cancelProbe_inv circuit_record_inv)

lemma circuit_run_inv: "circuit_inv c \<Longrightarrow> circuit_inv (circuit_run xs c)"
  by (induction xs arbitrary: c) (auto simp: circuit_step_inv)

lemma newCircuitBreaker_inv:
  assumes "newCircuitBreaker c0 = Inr c" and "in_int64 (OpenDuration c0)"
  shows "circuit_inv c" "state c = CircuitClosed" "cfg c = circuit_defaults c0"
  using assms
  by (auto simp: newCircuitBreaker_def Let_def circuit_inv_def config_ok_def in_int64_def max_int64_def
      circuit_defaults_def defaultCircuitOpenDuration_def split: if_splits)

subsection \<open>The allowed transitions\<close>

inductive circuit_trans :: "CircuitState \<Rightarrow> CircuitState \<Rightarrow> bool" where
  stay: "circuit_trans s s"
| trip: "circuit_trans CircuitClosed CircuitOpen"
| probe: "circuit_trans CircuitOpen CircuitHalfOpen"
| heal: "circuit_trans CircuitHalfOpen CircuitClosed"
| relapse: "circuit_trans CircuitHalfOpen CircuitOpen"

inductive_simps circuit_trans_simps [simp]:
  "circuit_trans CircuitClosed s" "circuit_trans CircuitOpen s" "circuit_trans CircuitHalfOpen s"

code_pred circuit_trans .

lemma circuit_step_trans: "circuit_trans (state c) (state (circuit_step x c))"
  by (cases "(x, c)" rule: circuit_step.cases)
    (auto simp: circuit_op_defs Let_def intro: circuit_trans.stay split: CircuitState.splits)


subsection \<open>The rounded quotient against one half\<close>

lemma norm_shift_ge: "0 < a \<Longrightarrow> 2 ^ 52 * b \<le> a * 2 ^ norm_shift a b"
proof (induction a b rule: norm_shift.induct)
  case (1 a b)
  then show ?case
    by (subst norm_shift.simps) (auto simp: mult.assoc mult.left_commute)
qed

lemma div_round_even_ge: "0 < b \<Longrightarrow> n * b \<le> x \<Longrightarrow> n \<le> div_round_even x b"
  by (auto simp: div_round_even_def Let_def less_eq_div_iff_mult_less_eq intro: le_SucI)

lemma div_round_even_less:
  assumes "0 < b" and "2 * x + b < 2 * n * b"
  shows "div_round_even x b < n"
proof -
  have x: "x = x div b * b + x mod b" by simp
  have q: "x div b < n"
    using assms by (simp add: div_less_iff_less_mult mult.commute)
  show ?thesis
  proof (cases "b \<le> 2 * (x mod b)")
    case True
    have "2 * (x div b * b) + 2 * b \<le> 2 * x + b" using True x by linarith
    with assms(2) have "Suc (x div b) * b < n * b" by (simp add: algebra_simps)
    then have "Suc (x div b) < n" by (simp only: mult_less_cancel2)
    then show ?thesis by (simp add: div_round_even_def Let_def)
  next
    case False
    with q show ?thesis by (simp add: div_round_even_def Let_def)
  qed
qed

lemma f64_quot_half_iff:
  assumes "0 < b" "b < 2 ^ 53" "a \<le> b"
  shows "1 / 2 \<le> f64_quot a b \<longleftrightarrow> b \<le> 2 * a"
proof (cases "a = 0")
  case True
  then show ?thesis using assms by (simp add: f64_quot_def)
next
  case False
  define k where "k = norm_shift a b"
  define x where "x = a * 2 ^ k"
  have ge: "2 ^ 52 * b \<le> x" using norm_shift_ge[of a b] False by (simp add: x_def k_def)
  have k: "2 ^ 52 \<le> (2 ^ k :: nat)"
  proof -
    have "2 ^ 52 * b \<le> b * 2 ^ k" using ge assms(3) unfolding x_def by (meson le_trans mult_le_mono1)
    then show ?thesis using assms(1) by (simp add: mult.commute)
  qed
  then obtain j where j: "k = Suc j" by (cases k) auto
  have half: "1 / 2 \<le> f64_quot a b \<longleftrightarrow> 2 ^ j \<le> div_round_even x b"
  proof -
    have "1 / 2 \<le> f64_quot a b \<longleftrightarrow> (2 ^ j :: rat) \<le> of_nat (div_round_even x b)"
      using False by (simp add: f64_quot_def Let_def k_def[symmetric] x_def j field_simps)
    also have "\<dots> \<longleftrightarrow> 2 ^ j \<le> div_round_even x b"
      by (metis of_nat_le_iff of_nat_numeral of_nat_power)
    finally show ?thesis .
  qed
  show ?thesis
  proof (cases "b \<le> 2 * a")
    case True
    then have "2 ^ j * b \<le> x" by (simp add: x_def j mult.commute mult.left_commute)
    with True half show ?thesis using div_round_even_ge[OF assms(1)] by simp
  next
    case False
    then have le: "2 * a + 1 \<le> b" by simp
    then have "2 ^ 52 * (2 * a) \<le> x" using ge by (meson add_leD1 le_trans mult_le_mono2)
    then have "2 ^ 53 \<le> (2 ^ k :: nat)" using \<open>a \<noteq> 0\<close> by (simp add: x_def)
    then have bk: "b < 2 ^ k" using assms(2) by linarith
    have "2 ^ k * (2 * a + 1) \<le> 2 ^ k * b" using le by (rule mult_le_mono2)
    then have "2 * x + b < 2 * 2 ^ j * b" using bk by (simp add: x_def j algebra_simps)
    then have "div_round_even x b < 2 ^ j" by (rule div_round_even_less[OF assms(1)])
    with False half show ?thesis by simp
  qed
qed

lemma failures_le: "failures es \<le> length es"
  by (simp add: failures_def)

subsection \<open>Behaviour of the operations\<close>

lemma allow_eq_ready: "fst (circuit_allow now c) = circuit_ready now c"
  by (auto simp: circuit_allow_def admit_probe_def circuit_ready_def not_less split: CircuitState.splits)

lemma time_sub_less_open:
  "circuit_inv c \<Longrightarrow> u < t + OpenDuration (cfg c) \<Longrightarrow> time_sub u t < OpenDuration (cfg c)"
  using time_sub_ge_iff[of "OpenDuration (cfg c)" u t]
  by (auto simp: circuit_inv_def config_ok_def min_int64_def not_le[symmetric])

lemma half_open_refuses:
  "state c = CircuitHalfOpen \<Longrightarrow> probeActive c \<Longrightarrow>
   time_sub u (probeStartedAt c) < OpenDuration (cfg c) \<Longrightarrow> circuit_allow u c = (False, c)"
  by (simp add: circuit_allow_def admit_probe_def)

lemma open_unchanged:
  assumes "state c = CircuitOpen" and "time_sub (fst x) (openedAt c) < OpenDuration (cfg c)"
  shows "circuit_step x c = c"
  using assms
  by (cases "(x, c)" rule: circuit_step.cases) (auto simp: circuit_op_defs)

lemma open_run_unchanged:
  assumes "state c = CircuitOpen"
    and "\<forall>x \<in> set xs. time_sub (fst x) (openedAt c) < OpenDuration (cfg c)"
  shows "circuit_run xs c = c"
  using assms(2) by (induction xs) (auto simp: open_unchanged[OF assms(1)])

lemma half_open_success_closes: "state c = CircuitHalfOpen \<Longrightarrow> state (circuit_record now True c) = CircuitClosed"
  by (simp add: circuit_op_defs)

lemma record_open [simp]: "state c = CircuitOpen \<Longrightarrow> circuit_record now b c = c"
  by (simp add: circuit_record_def)

lemma record_closed:
  assumes "state c = CircuitClosed" "0 < Window (cfg c)"
  shows "circuit_record now b c =
     (let es = last_n (nat (Window (cfg c))) (events c @ [b]); c' = c\<lparr>events := es\<rparr>
      in if MinSamples (cfg c) \<le> int (length es) \<and>
            FailureThreshold (cfg c) \<le> f64_quot (failures es) (length es)
         then openLocked now c' else c')"
  using assms by (auto simp: circuit_record_def window_update Let_def)

text \<open>The abstract specification of tripping: some prefix of the outcomes since the breaker
  closed has, in its last \<open>w\<close> outcomes, at least \<open>m\<close> samples and at least half failures.\<close>

definition must_trip :: "nat \<Rightarrow> nat \<Rightarrow> bool list \<Rightarrow> bool" where
  "must_trip w m es \<longleftrightarrow> m \<le> length (last_n w es) \<and> length (last_n w es) \<le> 2 * failures (last_n w es)"

definition default_breaker :: circuitBreaker where
  "default_breaker = \<lparr>cfg = \<lparr>Window = 20, MinSamples = 5, FailureThreshold = 1 / 2, OpenDuration = 30 * second\<rparr>,
     state = CircuitClosed, openedAt = 0, probeActive = False, probeStartedAt = 0, events = [], gauge = 0\<rparr>"

lemma newCircuitBreaker_default:
  "newCircuitBreaker \<lparr>Window = 0, MinSamples = 0, FailureThreshold = 0, OpenDuration = 0\<rparr> = Inr default_breaker"
  by (simp add: newCircuitBreaker_def circuit_defaults_def circuit_default_defs default_breaker_def Let_def)

lemma default_record_step:
  assumes "state c = CircuitClosed" "cfg c = cfg default_breaker" "events c = last_n 20 h"
  shows "state (circuit_record now b c) = (if must_trip 20 5 (h @ [b]) then CircuitOpen else CircuitClosed)"
    and "\<not> must_trip 20 5 (h @ [b]) \<Longrightarrow> events (circuit_record now b c) = last_n 20 (h @ [b])"
proof -
  let ?es = "last_n 20 (h @ [b])"
  have es: "last_n 20 (events c @ [b]) = ?es" using assms(3) by (simp add: last_n_snoc)
  have "(1 / 2 \<le> f64_quot (failures ?es) (length ?es)) = (length ?es \<le> 2 * failures ?es)"
    using failures_le[of ?es] by (intro f64_quot_half_iff) auto
  then show "state (circuit_record now b c) = (if must_trip 20 5 (h @ [b]) then CircuitOpen else CircuitClosed)"
    and "\<not> must_trip 20 5 (h @ [b]) \<Longrightarrow> events (circuit_record now b c) = ?es"
    using assms(1,2) es
    by (auto simp: record_closed Let_def default_breaker_def must_trip_def openLocked_def)
qed

abbreviation records :: "(int \<times> bool) list \<Rightarrow> (int \<times> circuit_call) list" where
  "records tbs \<equiv> map (\<lambda>(t, b). (t, CRecord b)) tbs"

definition trips_within :: "bool list \<Rightarrow> bool list \<Rightarrow> bool" where
  "trips_within h bs \<longleftrightarrow> (\<exists>n. 0 < n \<and> n \<le> length bs \<and> must_trip 20 5 (h @ take n bs))"

lemma trips_within_Cons:
  "trips_within h (b # bs) \<longleftrightarrow> must_trip 20 5 (h @ [b]) \<or> trips_within (h @ [b]) bs"
proof
  assume "trips_within h (b # bs)"
  then obtain n where n: "0 < n" "n \<le> length (b # bs)" "must_trip 20 5 (h @ take n (b # bs))"
    unfolding trips_within_def by blast
  then show "must_trip 20 5 (h @ [b]) \<or> trips_within (h @ [b]) bs"
    by (cases n; cases "n - 1") (auto simp: trips_within_def)
next
  assume "must_trip 20 5 (h @ [b]) \<or> trips_within (h @ [b]) bs"
  then show "trips_within h (b # bs)"
    by (auto simp: trips_within_def intro: exI[of _ "Suc 0"] exI[of _ "Suc n" for n])
qed

lemma records_open: "state c = CircuitOpen \<Longrightarrow> circuit_run (records tbs) c = c"
  by (induction tbs) auto

lemma default_run_records:
  assumes "state c = CircuitClosed" "cfg c = cfg default_breaker" "events c = last_n 20 h"
  shows "state (circuit_run (records tbs) c) =
     (if trips_within h (map snd tbs) then CircuitOpen else CircuitClosed)"
  using assms
proof (induction tbs arbitrary: c h)
  case Nil
  then show ?case by (simp add: trips_within_def)
next
  case (Cons tb tbs)
  obtain t b where tb: "tb = (t, b)" by (cases tb)
  note step = default_record_step[OF Cons.prems, where now = t and b = b]
  show ?case
  proof (cases "must_trip 20 5 (h @ [b])")
    case True
    with step show ?thesis by (simp add: tb records_open trips_within_Cons)
  next
    case False
    with step have "state (circuit_record t b c) = CircuitClosed"
      "events (circuit_record t b c) = last_n 20 (h @ [b])" by simp_all
    then show ?thesis
      using Cons.IH[of "circuit_record t b c" "h @ [b]"] Cons.prems(2) False
      by (simp add: tb trips_within_Cons)
  qed
qed

section \<open>Claims\<close>

text \<open>C22: the breaker invariant holds in every reachable state: from a breaker
  \<open>newCircuitBreaker\<close> accepts, after any sequence of method calls at any clock readings, the
  outcome window never exceeds its configured size, outcomes are kept only while closed, a probe
  is active only while half-open, the telemetry gauge equals the state, and a closed breaker
  with enough samples is below its failure threshold.\<close>

theorem circuit_reachable_inv:
  assumes "newCircuitBreaker c0 = Inr c" and "in_int64 (OpenDuration c0)"
  shows "circuit_inv (circuit_run calls c)"
  using newCircuitBreaker_inv(1)[OF assms] by (rule circuit_run_inv)

theorem circuit_reachable_inv_witness:
  "circuit_inv (circuit_run [(0, CRecord False), (1, CAllow), (2, CCancelProbe)] default_breaker)"
  by (rule circuit_reachable_inv[OF newCircuitBreaker_default]) (simp add: in_int64_def min_int64_def max_int64_def)

text \<open>A call moves the breaker only along closed to open, open to half-open, half-open to
  closed and half-open to open. A breaker never closes straight from open, and never becomes
  half-open except from open.\<close>

theorem circuit_legal_transition:
  "circuit_trans (state (circuit_run calls c)) (state (circuit_run (calls @ [x]) c))"
  by (simp add: circuit_step_trans)

text \<open>C23: while the open window lasts, nothing gets through and nothing moves: any sequence of
  calls at times before \<open>openedAt + OpenDuration\<close>, late results of earlier requests included,
  leaves the breaker exactly as it was, and \<open>allow\<close> refuses.\<close>

theorem open_window_closed_to_all:
  assumes "circuit_inv c" and "state c = CircuitOpen"
    and "\<forall>x \<in> set calls. fst x < openedAt c + OpenDuration (cfg c)"
    and "t < openedAt c + OpenDuration (cfg c)"
  shows "circuit_run calls c = c \<and> \<not> fst (circuit_allow t (circuit_run calls c))"
proof -
  note lt = time_sub_less_open[OF assms(1)]
  have "circuit_run calls c = c"
    using assms lt by (intro open_run_unchanged) auto
  then show ?thesis
    using assms lt[OF assms(4)] by (simp add: allow_eq_ready circuit_ready_def)
qed

theorem open_window_closed_to_all_witness:
  defines "c \<equiv> openLocked 0 default_breaker"
  shows "circuit_run [(5, CRecord True), (7, CAllow), (9, CRecord False)] c = c \<and>
     \<not> fst (circuit_allow 10 (circuit_run [(5, CRecord True), (7, CAllow), (9, CRecord False)] c))"
  by (rule open_window_closed_to_all)
    (simp_all add: c_def openLocked_def default_breaker_def circuit_inv_def config_ok_def max_int64_def)

text \<open>C24: the breaker never wedges. In every state that satisfies the invariant, once
  \<open>OpenDuration\<close> has passed since it opened and since its last probe started, \<open>allow\<close> admits a
  request, also when the previous probe was never resolved.\<close>

theorem circuit_recovers:
  assumes "circuit_inv c"
    and "openedAt c + OpenDuration (cfg c) \<le> t" and "probeStartedAt c + OpenDuration (cfg c) \<le> t"
  shows "fst (circuit_allow t c)"
  using assms
  by (auto simp: allow_eq_ready circuit_ready_def time_sub_ge_iff circuit_inv_def config_ok_def
      min_int64_def split: CircuitState.splits)

theorem circuit_recovers_witness:
  defines "c \<equiv> default_breaker\<lparr>state := CircuitHalfOpen, probeActive := True, gauge := 1\<rparr>"
  shows "fst (circuit_allow (30 * second) c)"
  by (rule circuit_recovers)
    (simp_all add: c_def default_breaker_def circuit_inv_def config_ok_def max_int64_def)

text \<open>One probe at a time. After \<open>allow\<close> has admitted a probe at time \<open>t0\<close> in a breaker that
  was not closed, every further \<open>allow\<close> before \<open>t0 + OpenDuration\<close> is refused, however many are
  tried, until a result is recorded or the probe is cancelled.\<close>

theorem single_probe:
  assumes "circuit_inv c" and "state c \<noteq> CircuitClosed" and "fst (circuit_allow t0 c)"
    and "\<forall>x \<in> set calls. snd x \<in> {CReady, CAllow} \<and> fst x < t0 + OpenDuration (cfg c)"
    and "t < t0 + OpenDuration (cfg c)"
  shows "\<not> fst (circuit_allow t (circuit_run ((t0, CAllow) # calls) c))"
proof -
  let ?c = "snd (circuit_allow t0 c)"
  have c': "state ?c = CircuitHalfOpen" "probeActive ?c" "probeStartedAt ?c = t0"
    using assms(2,3) by (auto simp: circuit_allow_def admit_probe_def split: CircuitState.splits if_splits)
  have refuse: "circuit_allow u ?c = (False, ?c)" if "u < t0 + OpenDuration (cfg c)" for u
    using c' time_sub_less_open[OF assms(1) that] by (intro half_open_refuses) simp_all
  have "circuit_run calls ?c = ?c"
    using assms(4)
  proof (induction calls)
    case (Cons x xs)
    then show ?case by (cases x) (auto simp: refuse)
  qed simp
  then show ?thesis using refuse[OF assms(5)] by simp
qed

theorem single_probe_witness:
  defines "c \<equiv> default_breaker\<lparr>state := CircuitHalfOpen, gauge := 1\<rparr>"
  shows "\<not> fst (circuit_allow 9 (circuit_run ((3, CAllow) # [(5, CReady), (7, CAllow)]) c))"
  by (rule single_probe)
    (simp_all add: c_def default_breaker_def circuit_inv_def config_ok_def max_int64_def
      circuit_allow_def admit_probe_def)

text \<open>C25: when the default breaker trips. Fed any sequence of outcomes, the breaker with the
  default configuration is open afterwards exactly when at some point the last 20 outcomes held
  at least 5 samples of which at least half were failures; the \<open>float64\<close> division of the code
  decides exactly this.\<close>

theorem default_trip_iff:
  "state (circuit_run (map (\<lambda>(t, b). (t, CRecord b)) tbs) default_breaker) = CircuitOpen \<longleftrightarrow>
     (\<exists>n \<le> length tbs. must_trip 20 5 (take n (map snd tbs)))"
proof -
  have "\<not> must_trip 20 5 []" by (simp add: must_trip_def last_n_def)
  then have "trips_within [] (map snd tbs) \<longleftrightarrow> (\<exists>n \<le> length tbs. must_trip 20 5 (take n (map snd tbs)))"
    unfolding trips_within_def by (auto, metis gr0I take_0)
  moreover have "state (circuit_run (records tbs) default_breaker) =
     (if trips_within [] (map snd tbs) then CircuitOpen else CircuitClosed)"
    by (rule default_run_records) (simp_all add: default_breaker_def last_n_def)
  ultimately show ?thesis by simp
qed

end
