(* ===== verification/Limiter.thy ===== *)
theory Limiter
  imports Redis Circuit
begin

text \<open>
  \<^verbatim>\<open>internal/limiter/limiter.go\<close>: per-player sliding-window rate limit, daily token budget,
  the cross-process in-flight semaphore and the circuit breaker in front of them. The four Lua
  scripts are definitions over the server commands of \<open>redis\<close>; a method of \<open>RedisLimiter\<close>
  takes and returns the process state \<open>redisLimiter\<close> (breaker, member serial, the counters it
  publishes) and the server state. The clock \<open>now\<close> is the injected \<open>Config.Now\<close>, read in the
  state in which the code calls it. \<open>time.ParseDuration\<close> and the source of random bytes are
  parameters of the constructors.
\<close>

section \<open>Lua scripts\<close>

definition rateLimitScript ::
  "'s redis \<Rightarrow> string \<Rightarrow> int \<Rightarrow> int \<Rightarrow> int \<Rightarrow> string \<Rightarrow> int \<Rightarrow> 's \<Rightarrow> int \<times> 's" where
  "rateLimitScript R key nowMs cutoff limit member windowMs s =
     (let s1 = cZREMRANGEBYSCORE R key 0 cutoff s; count = cZCARD R key s1 in
      if limit \<le> count then (0, s1)
      else (1, cPEXPIRE R key windowMs (cZADD R key nowMs member s1)))"

definition acquireInflightScript ::
  "'s redis \<Rightarrow> string \<Rightarrow> int \<Rightarrow> int \<Rightarrow> int \<Rightarrow> string \<Rightarrow> int \<Rightarrow> 's \<Rightarrow> int \<times> 's" where
  "acquireInflightScript R key nowMs maxN expiryMs token leaseMs s =
     (let s1 = cZREMRANGEBYSCORE R key 0 nowMs s; count = cZCARD R key s1 in
      if maxN \<le> count then (- 1, s1)
      else (count + 1, cPEXPIRE R key leaseMs (cZADD R key expiryMs token s1)))"

definition releaseInflightScript :: "'s redis \<Rightarrow> string \<Rightarrow> int \<Rightarrow> 's \<Rightarrow> int \<times> 's" where
  "releaseInflightScript R key nowMs s =
     (let s1 = cZREMRANGEBYSCORE R key 0 nowMs s;
          s2 = (case cZRANGE_first R key s1 of Some oldest \<Rightarrow> cZREM R key oldest s1 | None \<Rightarrow> s1);
          count = cZCARD R key s2
      in if count \<le> 0 then (0, snd (cDEL R key s2)) else (count, s2))"

definition recordBudgetScript :: "'s redis \<Rightarrow> string \<Rightarrow> int \<Rightarrow> int \<Rightarrow> 's \<Rightarrow> int \<times> 's" where
  "recordBudgetScript R key tokens ttlMs s =
     (case cINCRBY R key tokens s of (total', s1) \<Rightarrow> (total', cPEXPIRE R key ttlMs s1))"

section \<open>Keys\<close>

definition rateKey :: "string \<Rightarrow> string" where
  "rateKey playerID = ''rate:'' @ playerID"

definition inflightKey :: string where
  "inflightKey = ''inflight:upstream''"

text \<open>UTC calendar dates from nanoseconds since the epoch (\<open>time.Time.UTC\<close>).\<close>

definition day_ns :: int where
  "day_ns = 86400 * second"

definition civil_from_days :: "int \<Rightarrow> int \<times> int \<times> int" where
  "civil_from_days days =
     (let z = days + 719468; era = z div 146097; doe = z - era * 146097;
          yoe = (doe - doe div 1460 + doe div 36524 - doe div 146096) div 365;
          doy = doe - (365 * yoe + yoe div 4 - yoe div 100);
          mp = (5 * doy + 2) div 153;
          d = doy - (153 * mp + 2) div 5 + 1;
          m = (if mp < 10 then mp + 3 else mp - 9);
          y = yoe + era * 400 + (if m \<le> 2 then 1 else 0)
      in (y, m, d))"

definition zero_pad :: "nat \<Rightarrow> int \<Rightarrow> string" where
  "zero_pad n v = (let s = nat_str (nat \<bar>v\<bar>) in
     (if v < 0 then ''-'' else []) @ replicate (n - length s) (CHR ''0'') @ s)"

text \<open>\<open>now.UTC().Format("20060102")\<close>.\<close>

definition format_date :: "int \<Rightarrow> string" where
  "format_date now = (case civil_from_days (now div day_ns) of (y, m, d) \<Rightarrow>
     zero_pad 4 y @ zero_pad 2 m @ zero_pad 2 d)"

definition budgetKey :: "string \<Rightarrow> int \<Rightarrow> string" where
  "budgetKey playerID now = ''budget:'' @ playerID @ '':'' @ format_date now"

text \<open>\<open>time.Date(y, m, d + 1, 0, 0, 0, 0, UTC)\<close> normalises to the next midnight.\<close>

definition durationUntilNextUTCDay :: "int \<Rightarrow> int" where
  "durationUntilNextUTCDay now =
     (let next = (now div day_ns + 1) * day_ns; d = time_sub next now
      in if d \<le> 0 then 24 * 3600 * second else d)"

section \<open>State and construction\<close>

datatype limiter_error =
    ErrRateLimited | ErrBudgetExceeded | ErrInflightFull | ErrCircuitOpen
  | LimiterErr string | LimiterRedis string redis_error

record rateLimit =
  rl_limit :: int
  rl_window :: int

record redisLimiter =
  lim_rate :: rateLimit
  tokenBudget :: int
  maxInflight :: int
  inflightTTL :: int
  circuit :: circuitBreaker
  instanceID :: string
  memberSerial :: "64 word"
  rateLimitedTotal :: nat
  inflightGauge :: int

record limiterConfig =
  RatePerPlayer :: string
  TokenBudgetDaily :: int
  MaxInflightUpstream :: int
  InflightLease :: int
  CircuitCfg :: CircuitConfig

definition defaultInflightLease :: int where
  "defaultInflightLease = 120 * second"

definition parseRate :: "(string \<Rightarrow> int option) \<Rightarrow> string \<Rightarrow> limiter_error + rateLimit" where
  "parseRate parseDuration raw0 =
     (let raw1 = TrimSpace raw0; raw = (if raw1 = [] then ''1r/2s'' else raw1) in
      case strings_Cut raw ''r/'' of
        None \<Rightarrow> Inl (LimiterErr ''limiter: RATE_PER_PLAYER must look like 1r/2s'')
      | Some (countRaw, windowRaw) \<Rightarrow>
          (case ParseInt (TrimSpace countRaw) of
             None \<Rightarrow> Inl (LimiterErr ''limiter: rate count must be positive'')
           | Some count \<Rightarrow>
               if count \<le> 0 then Inl (LimiterErr ''limiter: rate count must be positive'')
               else (case parseDuration (TrimSpace windowRaw) of
                       None \<Rightarrow> Inl (LimiterErr ''limiter: rate window must be a positive duration'')
                     | Some window \<Rightarrow>
                         if window \<le> 0
                         then Inl (LimiterErr ''limiter: rate window must be a positive duration'')
                         else Inr \<lparr>rl_limit = count, rl_window = window\<rparr>)))"

fun nat_str_base :: "nat \<Rightarrow> nat \<Rightarrow> string" where
  "nat_str_base b n =
     (let dig = (\<lambda>d. char_of (if d < 10 then 48 + d else 87 + d)) in
      if b < 2 \<or> n < b then [dig n] else nat_str_base b (n div b) @ [dig (n mod b)])"

declare nat_str_base.simps [simp del]

definition hex_byte :: "byte \<Rightarrow> string" where
  "hex_byte b = (let dig = (\<lambda>d. char_of (if d < 10 then 48 + d else (87::nat) + d))
     in [dig (unat b div 16), dig (unat b mod 16)])"

definition newInstanceID :: "byte list option \<Rightarrow> int \<Rightarrow> string" where
  "newInstanceID rand unixNano =
     (case rand of
        None \<Rightarrow> (if unixNano < 0 then ''-'' else []) @ nat_str_base 36 (nat \<bar>unixNano\<bar>)
      | Some b \<Rightarrow> concat (map hex_byte b))"

definition limiter_New ::
  "(string \<Rightarrow> int option) \<Rightarrow> byte list option \<Rightarrow> int \<Rightarrow> bool \<Rightarrow> limiterConfig \<Rightarrow>
   limiter_error + redisLimiter" where
  "limiter_New parseDuration rand unixNano hasClient c =
     (if \<not> hasClient then Inl (LimiterErr ''limiter: redis client is required'')
      else case parseRate parseDuration (RatePerPlayer c) of
        Inl e \<Rightarrow> Inl e
      | Inr rate \<Rightarrow>
          if TokenBudgetDaily c \<le> 0 then Inl (LimiterErr ''limiter: token budget must be positive'')
          else if MaxInflightUpstream c \<le> 0
            then Inl (LimiterErr ''limiter: max inflight upstream must be positive'')
          else (let lease = (if InflightLease c = 0 then defaultInflightLease else InflightLease c) in
            if lease \<le> 0 then Inl (LimiterErr ''limiter: inflight lease must be positive'')
            else (case newCircuitBreaker (CircuitCfg c) of
                    Inl e \<Rightarrow> Inl (LimiterErr e)
                  | Inr cb \<Rightarrow> Inr \<lparr>lim_rate = rate, tokenBudget = TokenBudgetDaily c,
                      maxInflight = MaxInflightUpstream c, inflightTTL = lease, circuit = cb,
                      instanceID = newInstanceID rand unixNano, memberSerial = 0,
                      rateLimitedTotal = 0, inflightGauge = 0\<rparr>)))"

section \<open>Operations\<close>

definition unix_milli :: "int \<Rightarrow> int" where
  "unix_milli t = t div millisecond"

text \<open>\<open>Duration.Milliseconds\<close> truncates; the code raises anything below 1 to 1.\<close>

definition millis_at_least_1 :: "int \<Rightarrow> int" where
  "millis_at_least_1 d = max 1 (d div millisecond)"

definition member_token :: "string \<Rightarrow> int \<Rightarrow> 64 word \<Rightarrow> string" where
  "member_token inst nowMs n = inst @ '':'' @ FormatInt nowMs @ '':'' @ nat_str (unat n)"

definition next_serial :: "redisLimiter \<Rightarrow> redisLimiter" where
  "next_serial l = l\<lparr>memberSerial := memberSerial l + 1\<rparr>"

definition countLimited :: "redisLimiter \<Rightarrow> redisLimiter" where
  "countLimited l = l\<lparr>rateLimitedTotal := Suc (rateLimitedTotal l)\<rparr>"

definition onCircuit :: "(circuitBreaker \<Rightarrow> circuitBreaker) \<Rightarrow> redisLimiter \<Rightarrow> redisLimiter" where
  "onCircuit f l = l\<lparr>circuit := f (circuit l)\<rparr>"

definition allowRate ::
  "'s redis \<Rightarrow> ('s \<Rightarrow> int) \<Rightarrow> string \<Rightarrow> redisLimiter \<Rightarrow> 's \<Rightarrow>
   limiter_error option \<times> redisLimiter \<times> 's" where
  "allowRate R now playerID l s =
     (let nowMs = unix_milli (now s);
          windowMs = millis_at_least_1 (rl_window (lim_rate l));
          l1 = next_serial l;
          member = member_token (instanceID l1) nowMs (memberSerial l1)
      in case rRun R (rateLimitScript R (rateKey playerID) nowMs (nowMs - windowMs)
                        (rl_limit (lim_rate l)) member windowMs) s of
           (Inl e, s') \<Rightarrow> (Some (LimiterRedis ''limiter: check rate window'' e), l1, s')
         | (Inr result, s') \<Rightarrow> (if result = 0 then Some ErrRateLimited else None, l1, s'))"

definition currentBudget ::
  "'s redis \<Rightarrow> ('s \<Rightarrow> int) \<Rightarrow> string \<Rightarrow> 's \<Rightarrow> (limiter_error + int) \<times> 's" where
  "currentBudget R now playerID s =
     (case rGet R (budgetKey playerID (now s)) s of
        (Inl e, s') \<Rightarrow> (Inl (LimiterRedis ''limiter: read token budget'' e), s')
      | (Inr None, s') \<Rightarrow> (Inr 0, s')
      | (Inr (Some value), s') \<Rightarrow>
          (case ParseInt value of
             None \<Rightarrow> (Inl (LimiterErr ''limiter: parse token budget''), s')
           | Some current \<Rightarrow> (Inr current, s')))"

definition checkBudget ::
  "'s redis \<Rightarrow> ('s \<Rightarrow> int) \<Rightarrow> string \<Rightarrow> int \<Rightarrow> redisLimiter \<Rightarrow> 's \<Rightarrow> limiter_error option \<times> 's" where
  "checkBudget R now playerID estTokens l s =
     (case currentBudget R now playerID s of
        (Inl e, s') \<Rightarrow> (Some e, s')
      | (Inr current, s') \<Rightarrow>
          (if tokenBudget l < wrap64 (current + estTokens) then Some ErrBudgetExceeded else None, s'))"

definition recordTokens ::
  "'s redis \<Rightarrow> ('s \<Rightarrow> int) \<Rightarrow> string \<Rightarrow> int \<Rightarrow> 's \<Rightarrow> limiter_error option \<times> 's" where
  "recordTokens R now playerID usedTokens s =
     (if usedTokens = 0 then (None, s)
      else case rRun R (recordBudgetScript R (budgetKey playerID (now s)) usedTokens
                          (millis_at_least_1 (durationUntilNextUTCDay (now s)))) s of
             (Inl e, s') \<Rightarrow> (Some (LimiterRedis ''limiter: record token budget'' e), s')
           | (Inr _, s') \<Rightarrow> (None, s'))"

definition acquireInflight ::
  "'s redis \<Rightarrow> ('s \<Rightarrow> int) \<Rightarrow> redisLimiter \<Rightarrow> 's \<Rightarrow> limiter_error option \<times> redisLimiter \<times> 's" where
  "acquireInflight R now l s =
     (let nowMs = unix_milli (now s);
          leaseMs = millis_at_least_1 (inflightTTL l);
          l1 = next_serial l;
          token = member_token (instanceID l1) nowMs (memberSerial l1)
      in case rRun R (acquireInflightScript R inflightKey nowMs (maxInflight l) (nowMs + leaseMs)
                        token leaseMs) s of
           (Inl e, s') \<Rightarrow> (Some (LimiterRedis ''limiter: acquire inflight slot'' e), l1, s')
         | (Inr result, s') \<Rightarrow>
             if result < 0 then (Some ErrInflightFull, l1, s')
             else (None, l1\<lparr>inflightGauge := result\<rparr>, s'))"

definition releaseInflight ::
  "'s redis \<Rightarrow> ('s \<Rightarrow> int) \<Rightarrow> redisLimiter \<Rightarrow> 's \<Rightarrow> limiter_error option \<times> redisLimiter \<times> 's" where
  "releaseInflight R now l s =
     (case rRun R (releaseInflightScript R inflightKey (unix_milli (now s))) s of
        (Inl e, s') \<Rightarrow> (Some (LimiterRedis ''limiter: release inflight slot'' e), l, s')
      | (Inr result, s') \<Rightarrow> (None, l\<lparr>inflightGauge := result\<rparr>, s'))"

definition limiter_Allow ::
  "'s redis \<Rightarrow> ('s \<Rightarrow> int) \<Rightarrow> string \<Rightarrow> int \<Rightarrow> redisLimiter \<Rightarrow> 's \<Rightarrow>
   (bool \<times> limiter_error option) \<times> redisLimiter \<times> 's" where
  "limiter_Allow R now playerID0 estTokens l s =
     (let playerID = TrimSpace playerID0 in
      if playerID = [] then ((False, Some (LimiterErr ''limiter: player ID is required'')), l, s)
      else if estTokens < 0
        then ((False, Some (LimiterErr ''limiter: estimated tokens cannot be negative'')), l, s)
      else if \<not> circuit_ready (now s) (circuit l) then ((False, Some ErrCircuitOpen), countLimited l, s)
      else case checkBudget R now playerID estTokens l s of
        (Some e, s1) \<Rightarrow>
          ((False, Some e), if e = ErrBudgetExceeded then countLimited l else l, s1)
      | (None, s1) \<Rightarrow>
          (case circuit_allow (now s1) (circuit l) of
             (False, c) \<Rightarrow> ((False, Some ErrCircuitOpen), countLimited (l\<lparr>circuit := c\<rparr>), s1)
           | (True, c) \<Rightarrow>
               (case acquireInflight R now (l\<lparr>circuit := c\<rparr>) s1 of
                  (Some e, l2, s2) \<Rightarrow>
                    (let l3 = onCircuit cancelProbe l2 in
                     ((False, Some e), if e = ErrInflightFull then countLimited l3 else l3, s2))
                | (None, l2, s2) \<Rightarrow>
                    (case allowRate R now playerID l2 s2 of
                       (Some e, l3, s3) \<Rightarrow>
                         (case releaseInflight R now l3 s3 of
                            (_, l4, s4) \<Rightarrow>
                              (let l5 = onCircuit cancelProbe l4 in
                               ((False, Some e), if e = ErrRateLimited then countLimited l5 else l5, s4)))
                     | (None, l3, s3) \<Rightarrow> ((True, None), l3, s3)))))"

definition limiter_Record ::
  "'s redis \<Rightarrow> ('s \<Rightarrow> int) \<Rightarrow> string \<Rightarrow> int \<Rightarrow> redisLimiter \<Rightarrow> 's \<Rightarrow>
   limiter_error option \<times> redisLimiter \<times> 's" where
  "limiter_Record R now playerID0 usedTokens l s =
     (let playerID = TrimSpace playerID0 in
      if playerID = [] then (Some (LimiterErr ''limiter: player ID is required''), l, s)
      else case releaseInflight R now l s of
        (releaseErr, l1, s1) \<Rightarrow>
          (let l2 = onCircuit (circuit_record (now s1) True) l1 in
           if usedTokens < 0
           then (case releaseErr of
                   Some e \<Rightarrow> (Some e, l2, s1)
                 | None \<Rightarrow> (Some (LimiterErr ''limiter: used tokens cannot be negative''), l2, s1))
           else (case recordTokens R now playerID usedTokens s1 of
                   (recordErr, s2) \<Rightarrow>
                     ((case releaseErr of Some e \<Rightarrow> Some e | None \<Rightarrow> recordErr), l2, s2))))"

definition limiter_RecordFailure ::
  "'s redis \<Rightarrow> ('s \<Rightarrow> int) \<Rightarrow> redisLimiter \<Rightarrow> 's \<Rightarrow> limiter_error option \<times> redisLimiter \<times> 's" where
  "limiter_RecordFailure R now l s =
     (case releaseInflight R now l s of
        (releaseErr, l1, s1) \<Rightarrow> (releaseErr, onCircuit (circuit_record (now s1) False) l1, s1))"

definition limiter_Release ::
  "'s redis \<Rightarrow> ('s \<Rightarrow> int) \<Rightarrow> redisLimiter \<Rightarrow> 's \<Rightarrow> limiter_error option \<times> redisLimiter \<times> 's" where
  "limiter_Release R now l s = releaseInflight R now (onCircuit cancelProbe l) s"

section \<open>Keys are disjoint\<close>

lemma key_neqs [simp]:
  "rateKey p \<noteq> inflightKey" "inflightKey \<noteq> rateKey p"
  "budgetKey p t \<noteq> inflightKey" "inflightKey \<noteq> budgetKey p t"
  "rateKey p \<noteq> budgetKey q t" "budgetKey q t \<noteq> rateKey p"
  by (simp_all add: rateKey_def inflightKey_def budgetKey_def)

lemma millis_pos [simp]: "0 < millis_at_least_1 d" "1 \<le> millis_at_least_1 d"
  by (simp_all add: millis_at_least_1_def)

lemma next_day_pos: "0 < durationUntilNextUTCDay now" "durationUntilNextUTCDay now \<le> day_ns"
proof -
  have "now div day_ns * day_ns + now mod day_ns = now" by (rule div_mult_mod_eq)
  moreover have "0 \<le> now mod day_ns" "now mod day_ns < day_ns" by (simp_all add: day_ns_def)
  moreover have "(now div day_ns + 1) * day_ns = now div day_ns * day_ns + day_ns"
    by (simp add: algebra_simps)
  ultimately have "0 < (now div day_ns + 1) * day_ns - now" "(now div day_ns + 1) * day_ns - now \<le> day_ns"
    by linarith+
  then show "0 < durationUntilNextUTCDay now" "durationUntilNextUTCDay now \<le> day_ns"
    by (auto simp: durationUntilNextUTCDay_def time_sub_def Let_def day_ns_def min_int64_def max_int64_def)
qed

section \<open>The scripts on the server's laws\<close>

text \<open>The member the next script call of a limiter adds.\<close>

definition fresh_token :: "redisLimiter \<Rightarrow> int \<Rightarrow> string" where
  "fresh_token l t = member_token (instanceID (next_serial l)) (unix_milli t) (memberSerial (next_serial l))"

text \<open>At most \<open>M\<close> slots are taken.\<close>

definition inflight_ok :: "('s \<Rightarrow> string \<Rightarrow> rval option) \<Rightarrow> int \<Rightarrow> 's \<Rightarrow> bool" where
  "inflight_ok view M s \<longleftrightarrow>
     no_str (view s inflightKey) \<and> int (card (dom (zset_of (view s inflightKey)))) \<le> M"

lemma card_dom_upd_le: "finite (dom z) \<Longrightarrow> card (dom (z(m \<mapsto> v))) \<le> Suc (card (dom z))"
  by (simp add: card_insert_if)

lemma card_dom_upd_fresh: "finite (dom z) \<Longrightarrow> m \<notin> dom z \<Longrightarrow> card (dom (z(m \<mapsto> v))) = Suc (card (dom z))"
  by (simp add: card_insert_if)

context redis_server
begin

lemma acquire_script:
  fixes nowMs :: int
  assumes "no_str (view s k)" and "0 < leaseMs"
  defines "z \<equiv> outside 0 nowMs (zset_of (view s k))"
  shows "fst (acquireInflightScript R k nowMs M expiryMs token leaseMs s) =
      (if M \<le> int (card (dom z)) then - 1 else int (card (dom z)) + 1)"
    and "view (snd (acquireInflightScript R k nowMs M expiryMs token leaseMs s)) =
      (view s)(k := (if M \<le> int (card (dom z)) then zval z else zval (z(token \<mapsto> expiryMs))))"
  using assms
  by (simp_all add: acquireInflightScript_def Let_def zremrange_law zcard_law zadd_law pexpire_view)

lemma release_script_view:
  fixes nowMs :: int
  assumes "no_str (view s k)"
  defines "z \<equiv> outside 0 nowMs (zset_of (view s k))"
  shows "\<exists>z'. view (snd (releaseInflightScript R k nowMs s)) = (view s)(k := zval z') \<and>
     fst (releaseInflightScript R k nowMs s) = int (card (dom z')) \<and>
     (if z = Map.empty then z' = Map.empty
      else \<exists>m sc. z m = Some sc \<and> (\<forall>m' sc'. z m' = Some sc' \<longrightarrow> sc \<le> sc') \<and> z' = z(m := None))"
proof -
  let ?s1 = "cZREMRANGEBYSCORE R k 0 nowMs s"
  have v1: "view ?s1 = (view s)(k := zval z)" using assms by (simp add: zremrange_law)
  have fin: "finite (dom z)" using zset_finite by (simp add: z_def finite_dom_outside)
  show ?thesis
  proof (cases "cZRANGE_first R k ?s1")
    case None
    then have "z = Map.empty" using zrange_none[of ?s1 k] v1 by simp
    with None v1 show ?thesis
      by (intro exI[of _ Map.empty])
        (simp add: releaseInflightScript_def Let_def zcard_law del_law zval_def)
  next
    case (Some m)
    then obtain sc where m: "z m = Some sc" "\<forall>m' sc'. z m' = Some sc' \<longrightarrow> sc \<le> sc'"
      using zrange_some[of ?s1 k m] v1 by auto
    let ?z = "z(m := None)"
    have v2: "view (cZREM R k m ?s1) = (view s)(k := zval ?z)" using v1 by (simp add: zrem_law)
    have "finite (dom ?z)" using fin by simp
    then have empty: "card (dom ?z) = 0 \<longleftrightarrow> ?z = Map.empty" by (metis card_0_eq dom_eq_empty_conv)
    have "view (snd (releaseInflightScript R k nowMs s)) = (view s)(k := zval ?z)"
      using Some v2 empty by (auto simp: releaseInflightScript_def Let_def zcard_law del_law zval_def)
    moreover have "fst (releaseInflightScript R k nowMs s) = int (card (dom ?z))"
      using Some v2 by (simp add: releaseInflightScript_def Let_def zcard_law)
    ultimately show ?thesis using m by (intro exI[of _ ?z]) auto
  qed
qed

lemma rate_script:
  fixes cutoff :: int
  assumes "no_str (view s k)" and "0 < windowMs"
  defines "z \<equiv> outside 0 cutoff (zset_of (view s k))"
  shows "fst (rateLimitScript R k nowMs cutoff limit m windowMs s) =
      (if limit \<le> int (card (dom z)) then 0 else 1)"
    and "view (snd (rateLimitScript R k nowMs cutoff limit m windowMs s)) =
      (view s)(k := (if limit \<le> int (card (dom z)) then zval z else zval (z(m \<mapsto> nowMs))))"
  using assms
  by (simp_all add: rateLimitScript_def Let_def zremrange_law zcard_law zadd_law pexpire_view)

lemma script_frames:
  "k' \<noteq> k \<Longrightarrow> 0 < ms \<Longrightarrow> view (snd (rateLimitScript R k nowMs cutoff limit m ms s)) k' = view s k'"
  "k' \<noteq> k \<Longrightarrow> 0 < ms \<Longrightarrow> view (snd (recordBudgetScript R k tokens ms s)) k' = view s k'"
  by (auto simp: rateLimitScript_def recordBudgetScript_def Let_def zremrange_frame zadd_frame
      pexpire_view incrby_frame split: prod.splits)
    (metis incrby_frame snd_conv)

subsection \<open>Every method keeps the semaphore within its bound\<close>

lemma acquire_ok:
  assumes "inflight_ok view M s" and "0 < leaseMs"
  shows "inflight_ok view M (snd (acquireInflightScript R inflightKey nowMs M expiryMs token leaseMs s))"
proof -
  let ?z = "outside 0 nowMs (zset_of (view s inflightKey))"
  have "finite (dom ?z)" "card (dom ?z) \<le> card (dom (zset_of (view s inflightKey)))"
    using zset_finite by (simp_all add: finite_dom_outside card_dom_outside_le)
  then show ?thesis
    using assms acquire_script(2)[of s inflightKey leaseMs nowMs M expiryMs token]
      card_dom_upd_le[of ?z token expiryMs]
    by (auto simp: inflight_ok_def)
qed

lemma release_ok:
  assumes "inflight_ok view M s"
  shows "inflight_ok view M (snd (releaseInflightScript R inflightKey nowMs s))"
proof -
  let ?z = "outside 0 nowMs (zset_of (view s inflightKey))"
  obtain z' where z': "view (snd (releaseInflightScript R inflightKey nowMs s)) = (view s)(inflightKey := zval z')"
      "z' = Map.empty \<or> (\<exists>m. z' = ?z(m := None))"
    using release_script_view[of s inflightKey nowMs] assms by (auto simp: inflight_ok_def split: if_splits)
  have fin: "finite (dom ?z)" "card (dom ?z) \<le> card (dom (zset_of (view s inflightKey)))"
    using zset_finite by (simp_all add: finite_dom_outside card_dom_outside_le)
  have "dom z' \<subseteq> dom ?z" using z'(2) by (auto simp: dom_def split: if_splits)
  then have "card (dom z') \<le> card (dom ?z)" using fin by (simp add: card_mono)
  with fin assms z'(1) show ?thesis by (auto simp: inflight_ok_def)
qed

lemma inflight_ok_frame:
  "inflight_ok view M s \<Longrightarrow> view s' inflightKey = view s inflightKey \<Longrightarrow> inflight_ok view M s'"
  by (simp add: inflight_ok_def)

lemma acquireInflight_world:
  "snd (snd (acquireInflight R now l s)) =
     snd (rRun R (acquireInflightScript R inflightKey (unix_milli (now s)) (maxInflight l)
       (unix_milli (now s) + millis_at_least_1 (inflightTTL l)) (fresh_token l (now s))
       (millis_at_least_1 (inflightTTL l))) s)"
  by (auto simp: acquireInflight_def Let_def fresh_token_def split: prod.splits sum.splits)

lemma releaseInflight_world:
  "snd (snd (releaseInflight R now l s)) =
     snd (rRun R (releaseInflightScript R inflightKey (unix_milli (now s))) s)"
  by (auto simp: releaseInflight_def split: prod.splits sum.splits)

lemma allowRate_world:
  "snd (snd (allowRate R now p l s)) =
     snd (rRun R (rateLimitScript R (rateKey p) (unix_milli (now s))
       (unix_milli (now s) - millis_at_least_1 (rl_window (lim_rate l))) (rl_limit (lim_rate l))
       (fresh_token l (now s)) (millis_at_least_1 (rl_window (lim_rate l)))) s)"
  by (auto simp: allowRate_def Let_def fresh_token_def split: prod.splits sum.splits)

lemma recordTokens_world:
  "snd (recordTokens R now p n s) = (if n = 0 then s else
     snd (rRun R (recordBudgetScript R (budgetKey p (now s)) n
       (millis_at_least_1 (durationUntilNextUTCDay (now s)))) s))"
  by (auto simp: recordTokens_def split: prod.splits sum.splits)

lemma checkBudget_world: "view (snd (checkBudget R now p n l s)) = view s"
  by (auto simp: checkBudget_def currentBudget_def split: prod.splits sum.splits option.splits
      dest: get_view)

lemma inflight_ok_methods:
  "inflight_ok view (maxInflight l) s \<Longrightarrow> inflight_ok view (maxInflight l) (snd (snd (acquireInflight R now l s)))"
  "inflight_ok view M s \<Longrightarrow> inflight_ok view M (snd (snd (releaseInflight R now l s)))"
  "inflight_ok view M s \<Longrightarrow> inflight_ok view M (snd (snd (allowRate R now p l s)))"
  "inflight_ok view M s \<Longrightarrow> inflight_ok view M (snd (recordTokens R now p n s))"
  "inflight_ok view M s \<Longrightarrow> inflight_ok view M (snd (checkBudget R now p n l s))"
proof -
  show "inflight_ok view (maxInflight l) s \<Longrightarrow> inflight_ok view (maxInflight l) (snd (snd (acquireInflight R now l s)))"
    unfolding acquireInflight_world
    by (rule run_preserves[where P = "inflight_ok view (maxInflight l)"]) (auto intro: acquire_ok)
  show "inflight_ok view M s \<Longrightarrow> inflight_ok view M (snd (snd (releaseInflight R now l s)))"
    unfolding releaseInflight_world by (rule run_preserves[where P = "inflight_ok view M"]) (rule release_ok)
  show "inflight_ok view M s \<Longrightarrow> inflight_ok view M (snd (snd (allowRate R now p l s)))"
    unfolding allowRate_world
    by (auto intro!: run_preserves[where P = "inflight_ok view M"] elim: inflight_ok_frame simp: script_frames)
  show "inflight_ok view M s \<Longrightarrow> inflight_ok view M (snd (recordTokens R now p n s))"
    unfolding recordTokens_world
    by (auto intro!: run_preserves[where P = "inflight_ok view M"] elim: inflight_ok_frame simp: script_frames)
  show "inflight_ok view M s \<Longrightarrow> inflight_ok view M (snd (checkBudget R now p n l s))"
    by (erule inflight_ok_frame) (simp add: checkBudget_world)
qed

lemma maxInflight_simps [simp]:
  "maxInflight (onCircuit f l) = maxInflight l" "maxInflight (countLimited l) = maxInflight l"
  "maxInflight (next_serial l) = maxInflight l"
  "maxInflight (fst (snd (acquireInflight R now l s))) = maxInflight l"
  by (auto simp: onCircuit_def countLimited_def next_serial_def acquireInflight_def Let_def
      split: prod.splits sum.splits)

lemma limiter_methods_inflight_ok:
  assumes ok: "inflight_ok view M s"
  shows "maxInflight l = M \<Longrightarrow> inflight_ok view M (snd (snd (limiter_Allow R now p est l s)))"
    and "inflight_ok view M (snd (snd (limiter_Record R now p used l s)))"
    and "inflight_ok view M (snd (snd (limiter_RecordFailure R now l s)))"
    and "inflight_ok view M (snd (snd (limiter_Release R now l s)))"
proof -
  note m = inflight_ok_methods
  note m1 = m(1)[where l = "l\<lparr>circuit := c\<rparr>" for c, simplified]
  show "maxInflight l = M \<Longrightarrow> inflight_ok view M (snd (snd (limiter_Allow R now p est l s)))"
    using ok m(5)[of M s now "TrimSpace p" est l] m(2,3) m1
    by (auto simp: limiter_Allow_def Let_def split: prod.splits option.splits bool.splits)
      (metis snd_conv)+
  show "inflight_ok view M (snd (snd (limiter_Record R now p used l s)))"
    using ok m(2)[of M s now l] m(4)
    by (auto simp: limiter_Record_def Let_def split: prod.splits option.splits) (metis snd_conv)+
  show "inflight_ok view M (snd (snd (limiter_RecordFailure R now l s)))"
    using ok m(2)[of M s now l] by (auto simp: limiter_RecordFailure_def split: prod.splits)
  show "inflight_ok view M (snd (snd (limiter_Release R now l s)))"
    using ok m(2) by (simp add: limiter_Release_def)
qed

end

end
