(* ===== verification/Store.thy ===== *)
theory Store
  imports Redis Limiter
begin

text \<open>
  \<^verbatim>\<open>internal/store/store.go\<close>: the mapping from (player, npc) to a Dify conversation and the lock
  that serialises the first request of a conversation. The wait between two attempts on a held
  lock (a timer raced against the request context) is the parameter \<open>wait\<close>: it returns the
  context's error when the context ended first. The function \<open>unlock\<close> that \<open>Acquire\<close> returns is
  the record \<open>unlocker\<close>, whose flag is the \<open>sync.Once\<close>.
\<close>

section \<open>Definitions\<close>

datatype store_error = StoreErr string | StoreRedis string redis_error | StoreCtx string

definition conversationKey :: "string \<Rightarrow> string \<Rightarrow> string" where
  "conversationKey playerID npcID = ''conv:'' @ playerID @ '':'' @ npcID"

definition lockKey :: "string \<Rightarrow> string \<Rightarrow> string" where
  "lockKey playerID npcID = ''lock:conv:'' @ playerID @ '':'' @ npcID"

definition releaseScript :: "'s redis \<Rightarrow> string \<Rightarrow> string \<Rightarrow> 's \<Rightarrow> int \<times> 's" where
  "releaseScript R key token s = (if cGET R key s = Some token then cDEL R key s else (0, s))"

definition GetConversation :: "'s redis \<Rightarrow> string \<Rightarrow> string \<Rightarrow> 's \<Rightarrow> (store_error + string) \<times> 's" where
  "GetConversation R playerID npcID s =
     (case rGet R (conversationKey playerID npcID) s of
        (Inr None, s') \<Rightarrow> (Inr [], s')
      | (Inl e, s') \<Rightarrow> (Inl (StoreRedis ''store: get conversation'' e), s')
      | (Inr (Some val), s') \<Rightarrow> (Inr val, s'))"

definition SetConversation ::
  "'s redis \<Rightarrow> string \<Rightarrow> string \<Rightarrow> string \<Rightarrow> int \<Rightarrow> 's \<Rightarrow> store_error option \<times> 's" where
  "SetConversation R playerID npcID convID ttl s =
     (if ttl \<le> 0 then (Some (StoreErr ''store: set conversation: ttl must be positive''), s)
      else case rSet R (conversationKey playerID npcID) convID ttl s of
        (Inl e, s') \<Rightarrow> (Some (StoreRedis ''store: set conversation'' e), s')
      | (Inr _, s') \<Rightarrow> (None, s'))"

definition DeleteConversation :: "'s redis \<Rightarrow> string \<Rightarrow> string \<Rightarrow> 's \<Rightarrow> store_error option \<times> 's" where
  "DeleteConversation R playerID npcID s =
     (case rDel R (conversationKey playerID npcID) s of
        (Inl e, s') \<Rightarrow> (Some (StoreRedis ''store: delete conversation'' e), s')
      | (Inr _, s') \<Rightarrow> (None, s'))"

record unlocker =
  ul_key :: string
  ul_token :: string
  ul_done :: bool

definition releaser :: "string \<Rightarrow> string \<Rightarrow> unlocker" where
  "releaser key token = \<lparr>ul_key = key, ul_token = token, ul_done = False\<rparr>"

definition call_unlock :: "'s redis \<Rightarrow> unlocker \<Rightarrow> 's \<Rightarrow> unlocker \<times> 's" where
  "call_unlock R u s =
     (if ul_done u then (u, s)
      else (u\<lparr>ul_done := True\<rparr>, snd (rRun R (releaseScript R (ul_key u) (ul_token u)) s)))"

definition newToken :: "byte list option \<Rightarrow> store_error + string" where
  "newToken rand = (case rand of None \<Rightarrow> Inl (StoreErr ''store: generate lock token'') | Some b \<Rightarrow> Inr (concat (map hex_byte b)))"

definition try_lock ::
  "'s redis \<Rightarrow> string \<Rightarrow> string \<Rightarrow> int \<Rightarrow> 's \<Rightarrow> (store_error + bool) \<times> 's" where
  "try_lock R key token ttl s =
     (case rSetNX R key token ttl s of
        (Inl e, s') \<Rightarrow> (Inl (StoreRedis ''store: acquire lock'' e), s')
      | (Inr ok, s') \<Rightarrow> (Inr ok, s'))"

partial_function (option) acquire_loop ::
  "'s redis \<Rightarrow> ('s \<Rightarrow> string option \<times> 's) \<Rightarrow> string \<Rightarrow> string \<Rightarrow> int \<Rightarrow> 's \<Rightarrow>
   ((store_error + unlocker) \<times> 's) option" where
  "acquire_loop R wait key token ttl s =
     (case try_lock R key token ttl s of
        (Inl e, s1) \<Rightarrow> Some (Inl e, s1)
      | (Inr ok, s1) \<Rightarrow>
          if ok then Some (Inr (releaser key token), s1)
          else (case wait s1 of
                  (Some e, s2) \<Rightarrow> Some (Inl (StoreCtx e), s2)
                | (None, s2) \<Rightarrow> acquire_loop R wait key token ttl s2))"

declare acquire_loop.simps [code]

definition AcquireConversationLock ::
  "'s redis \<Rightarrow> ('s \<Rightarrow> string option \<times> 's) \<Rightarrow> byte list option \<Rightarrow> string \<Rightarrow> string \<Rightarrow> int \<Rightarrow> 's \<Rightarrow>
   ((store_error + unlocker) \<times> 's) option" where
  "AcquireConversationLock R wait rand playerID npcID ttl s =
     (case newToken rand of
        Inl e \<Rightarrow> Some (Inl e, s)
      | Inr token \<Rightarrow> acquire_loop R wait (lockKey playerID npcID) token ttl s)"

section \<open>The contract of a session store\<close>

text \<open>\<open>conv\<close> reads the conversation of a player and an npc from the state (empty when there is
  none). Keys decide which pairs share an entry.\<close>

locale session_store =
  fixes get :: "string \<Rightarrow> string \<Rightarrow> 's \<Rightarrow> (store_error + string) \<times> 's"
    and put :: "string \<Rightarrow> string \<Rightarrow> string \<Rightarrow> int \<Rightarrow> 's \<Rightarrow> store_error option \<times> 's"
    and del :: "string \<Rightarrow> string \<Rightarrow> 's \<Rightarrow> store_error option \<times> 's"
    and conv :: "'s \<Rightarrow> string \<Rightarrow> string \<Rightarrow> string"
    and typed :: "'s \<Rightarrow> bool"
  assumes get_reads: "typed s \<Longrightarrow> get p n s = (Inr c, s') \<Longrightarrow> c = conv s p n"
    and get_keeps: "typed s \<Longrightarrow> get p n s = (r, s') \<Longrightarrow> typed s' \<and> conv s' = conv s"
    and put_writes: "typed s \<Longrightarrow> put p n c ttl s = (None, s') \<Longrightarrow>
      typed s' \<and> conv s' p n = c \<and>
      (\<forall>p' n'. conversationKey p' n' \<noteq> conversationKey p n \<longrightarrow> conv s' p' n' = conv s p' n')"
    and del_clears: "typed s \<Longrightarrow> del p n s = (None, s') \<Longrightarrow>
      typed s' \<and> conv s' p n = [] \<and>
      (\<forall>p' n'. conversationKey p' n' \<noteq> conversationKey p n \<longrightarrow> conv s' p' n' = conv s p' n')"
begin

lemma get_after_put:
  "typed s \<Longrightarrow> put p n c ttl s = (None, s1) \<Longrightarrow> get p n s1 = (Inr c', s2) \<Longrightarrow> c' = c"
  using put_writes get_reads by blast

lemma get_after_del:
  "typed s \<Longrightarrow> del p n s = (None, s1) \<Longrightarrow> get p n s1 = (Inr c', s2) \<Longrightarrow> c' = []"
  using del_clears get_reads by blast

lemma get_after_other_put:
  "typed s \<Longrightarrow> conversationKey p' n' \<noteq> conversationKey p n \<Longrightarrow> put p n c ttl s = (None, s1) \<Longrightarrow>
   get p' n' s1 = (Inr c', s2) \<Longrightarrow> c' = conv s p' n'"
  using put_writes get_reads by metis

end

section \<open>The Redis store meets the contract\<close>

definition conv_of :: "('s \<Rightarrow> string \<Rightarrow> rval option) \<Rightarrow> 's \<Rightarrow> string \<Rightarrow> string \<Rightarrow> string" where
  "conv_of view s p n = (case str_of (view s (conversationKey p n)) of None \<Rightarrow> [] | Some c \<Rightarrow> c)"

definition conv_typed :: "('s \<Rightarrow> string \<Rightarrow> rval option) \<Rightarrow> 's \<Rightarrow> bool" where
  "conv_typed view s \<longleftrightarrow> (\<forall>p n. no_zset (view s (conversationKey p n)))"

sublocale redis_server \<subseteq> redis_store: session_store "GetConversation R" "SetConversation R" "DeleteConversation R" "conv_of view" "conv_typed view"
proof (unfold_locales, goal_cases)
  case (1 s p n c s')
  then show ?case
    by (auto simp: GetConversation_def conv_of_def conv_typed_def split: prod.splits sum.splits option.splits
        dest: get_call)
next
  case (2 s p n r s')
  then have "view s' = view s"
    by (auto simp: GetConversation_def split: prod.splits sum.splits option.splits dest: get_view)
  with 2 show ?case by (simp add: conv_of_def conv_typed_def fun_eq_iff)
next
  case (3 s p n c ttl s')
  then have "view s' = (view s)(conversationKey p n := Some (RStr c))"
    by (auto simp: SetConversation_def split: if_splits prod.splits sum.splits dest: set_ok)
  with 3 show ?case by (simp add: conv_of_def conv_typed_def)
next
  case (4 s p n s')
  then have "view s' = (view s)(conversationKey p n := None)"
    by (auto simp: DeleteConversation_def split: prod.splits sum.splits dest: del_ok)
  with 4 show ?case by (simp add: conv_of_def conv_typed_def)
qed

context redis_server
begin

lemmas store_contract = redis_store.session_store_axioms

end

definition empty_store :: mem where
  "empty_store = \<lparr>kv = Map.empty, ttls = Map.empty\<rparr>"

section \<open>Keys\<close>

lemma split_at_first:
  "c \<notin> set xs \<Longrightarrow> c \<notin> set xs' \<Longrightarrow> xs @ c # ys = xs' @ c # ys' \<longleftrightarrow> xs = xs' \<and> ys = ys'"
proof (induction xs arbitrary: xs')
  case Nil
  then show ?case by (cases xs') auto
next
  case (Cons x xs)
  then show ?case by (cases xs') auto
qed

lemma conversationKey_inj:
  assumes "CHR '':'' \<notin> set p" "CHR '':'' \<notin> set p'"
  shows "conversationKey p n = conversationKey p' n' \<longleftrightarrow> p = p' \<and> n = n'"
  using split_at_first[OF assms] by (simp add: conversationKey_def)

text \<open>With a colon in a player id the key does not determine the pair.\<close>

lemma conversationKey_ambiguous: "conversationKey ''a:b'' ''c'' = conversationKey ''a'' ''b:c''" "lockKey ''a:b'' ''c'' = lockKey ''a'' ''b:c''"
  by (simp_all add: conversationKey_def lockKey_def)

lemma lock_conv_keys [simp]: "lockKey p n \<noteq> conversationKey p' n'" "conversationKey p' n' \<noteq> lockKey p n"
  by (simp_all add: lockKey_def conversationKey_def)



section \<open>The conversation lock\<close>

text \<open>What other holders of tokens can do to a lock key: try to take it, or release it.\<close>

datatype lock_op = TryLock string int | Unlock string

fun foreign_op :: "string \<Rightarrow> lock_op \<Rightarrow> bool" where
  "foreign_op token (TryLock t ttl) = (t \<noteq> token \<and> 0 < ttl)"
| "foreign_op token (Unlock t) = (t \<noteq> token)"

fun lock_step :: "'s redis \<Rightarrow> string \<Rightarrow> lock_op \<Rightarrow> 's \<Rightarrow> bool \<times> 's" where
  "lock_step R key (TryLock token ttl) s =
     (case try_lock R key token ttl s of (r, s') \<Rightarrow> (r = Inr True, s'))"
| "lock_step R key (Unlock token) s = (False, snd (call_unlock R (releaser key token) s))"

fun lock_run :: "'s redis \<Rightarrow> string \<Rightarrow> lock_op list \<Rightarrow> 's \<Rightarrow> bool list \<times> 's" where
  "lock_run R key [] s = ([], s)"
| "lock_run R key (op # ops) s =
     (case lock_step R key op s of (b, s1) \<Rightarrow> (case lock_run R key ops s1 of (bs, s2) \<Rightarrow> (b # bs, s2)))"

context redis_server
begin

lemma release_script_guard:
  assumes "no_zset (view s key)"
  shows "view (snd (releaseScript R key token s)) = (if view s key = Some (RStr token) then (view s)(key := None) else view s)"
proof -
  have "cGET R key s = str_of (view s key)" using assms by (rule get_law)
  moreover have "str_of v = Some x \<longleftrightarrow> v = Some (RStr x)" for v x
    by (auto simp: str_of_def split: option.splits rval.splits)
  ultimately show ?thesis by (simp add: releaseScript_def del_law)
qed

lemma unlock_view:
  assumes "no_zset (view s key)"
  shows "view (snd (call_unlock R (releaser key token) s)) = view s \<or>
     view s key = Some (RStr token) \<and> view (snd (call_unlock R (releaser key token) s)) = (view s)(key := None)"
proof -
  define P where "P s' \<longleftrightarrow> view s' = view s \<or> view s key = Some (RStr token) \<and> view s' = (view s)(key := None)" for s'
  have "P (snd (rRun R (releaseScript R key token) s))"
  proof (rule run_preserves[where P = P])
    show "P (snd (releaseScript R key token s'))" if "P s'" for s'
      using that assms release_script_guard[of s' key token] by (auto simp: P_def)
  qed (simp add: P_def)
  then show ?thesis by (simp add: P_def call_unlock_def releaser_def)
qed

text \<open>Locking and unlocking leave every other key as it is.\<close>

lemma unlock_frame:
  assumes "k \<noteq> key"
  shows "view (snd (call_unlock R (releaser key token) s)) k = view s k"
proof -
  have "view (snd (rRun R (releaseScript R key token) s)) k = view s k"
    by (rule run_preserves[where P = "\<lambda>s'. view s' k = view s k"]) (simp_all add: releaseScript_def del_law assms)
  then show ?thesis by (simp add: call_unlock_def releaser_def)
qed

lemma acquire_loop_frame:
  "acquire_loop R' wait key token ttl s = Some y \<Longrightarrow> R' = R \<longrightarrow> 0 < ttl \<longrightarrow> k \<noteq> key \<longrightarrow>
   (\<forall>s. view (snd (wait s)) k = view s k) \<longrightarrow> view (snd y) k = view s k"
proof (induction rule: acquire_loop.raw_induct[rotated, consumes 1, case_names step])
  case (step loop R' wait key token ttl s y)
  show ?case
  proof (intro impI)
    assume R: "R' = R" and ttl: "0 < ttl" and k: "k \<noteq> key" and wait: "\<forall>s. view (snd (wait s)) k = view s k"
    obtain r s1 where r: "rSetNX R key token ttl s = (r, s1)" by (cases "rSetNX R key token ttl s")
    have s1: "view s1 k = view s k"
      using setnx_ok[of key token ttl s _ s1] setnx_err[of key token ttl s _ s1] r ttl k by (cases r) (auto split: if_splits)
    obtain e s2 where w: "wait s1 = (e, s2)" by (cases "wait s1")
    then have s2: "view s2 k = view s k" using wait[rule_format, of s1] s1 by simp
    note body = step(2)[unfolded R try_lock_def r prod.case]
    show "view (snd y) k = view s k"
    proof (cases "r = Inr False \<and> e = None")
      case True
      then have "loop R wait key token ttl s2 = Some y" using body w by simp
      from step(1)[OF this] show ?thesis using ttl k wait s2 by auto
    next
      case False
      then show ?thesis using body w s1 s2 by (auto split: sum.splits option.splits if_splits)
    qed
  qed
qed

lemma lock_step_excluded:
  assumes "view s key = Some (RStr token)" "foreign_op token op" "lock_step R key op s = (b, s')"
  shows "\<not> b" "view s' key = Some (RStr token)"
proof -
  have "\<not> b \<and> view s' key = Some (RStr token)"
  proof (cases op)
    case (TryLock t ttl)
    obtain r where r: "rSetNX R key t ttl s = (r, s')"
      using assms(3) TryLock by (auto simp: try_lock_def split: prod.splits sum.splits)
    show ?thesis
    proof (cases r)
      case (Inl e)
      then show ?thesis using setnx_err[of key t ttl s e s'] r assms TryLock by (auto simp: try_lock_def)
    next
      case (Inr ok)
      then show ?thesis using setnx_ok[of key t ttl s ok s'] r assms TryLock by (auto simp: try_lock_def split: if_splits)
    qed
  next
    case (Unlock t)
    then show ?thesis using unlock_view[of s key t] assms by (auto simp: no_zset_def)
  qed
  then show "\<not> b" "view s' key = Some (RStr token)" by simp_all
qed

lemma lock_run_excluded:
  "view s key = Some (RStr token) \<Longrightarrow> \<forall>op \<in> set ops. foreign_op token op \<Longrightarrow> lock_run R key ops s = (bs, s') \<Longrightarrow>
     True \<notin> set bs \<and> view s' key = Some (RStr token)"
proof (induction ops arbitrary: s bs)
  case (Cons op ops)
  obtain b s1 where b: "lock_step R key op s = (b, s1)" by (cases "lock_step R key op s")
  have tok: "foreign_op token op" using Cons.prems(2) by simp
  note e = lock_step_excluded[OF Cons.prems(1) tok b]
  obtain bs' where bs': "lock_run R key ops s1 = (bs', s')" "bs = b # bs'"
    using Cons.prems(3) b by (auto split: prod.splits)
  then show ?case using Cons.IH[OF e(2) _ bs'(1)] Cons.prems(2) e(1) by auto
qed simp

lemma acquire_loop_result:
  "acquire_loop R' wait key token ttl s = Some y \<Longrightarrow> R' = R \<longrightarrow> 0 < ttl \<longrightarrow>
     (case y of (r, s') \<Rightarrow> \<forall>u. r = Inr u \<longrightarrow> u = releaser key token \<and>
        view s' key = Some (RStr token) \<and> (\<exists>ms > 0. pttl s' key = Some ms))"
proof (induction rule: acquire_loop.raw_induct[rotated, consumes 1, case_names step])
  case (step loop R' wait key token ttl s y)
  show ?case
  proof (intro impI)
    assume R: "R' = R" and ttl: "0 < ttl"
    obtain r s1 where r: "rSetNX R key token ttl s = (r, s1)" by (cases "rSetNX R key token ttl s")
    obtain e s2 where w: "wait s1 = (e, s2)" by (cases "wait s1")
    note body = step(2)[unfolded R try_lock_def r prod.case]
    show "case y of (r, s') \<Rightarrow> \<forall>u. r = Inr u \<longrightarrow> u = releaser key token \<and>
        view s' key = Some (RStr token) \<and> (\<exists>ms > 0. pttl s' key = Some ms)"
    proof (cases r)
      case (Inl err)
      then show ?thesis using body by auto
    next
      case (Inr ok)
      show ?thesis
      proof (cases ok)
        case True
        then show ?thesis using body Inr setnx_ok[of key token ttl s True s1] r ttl by auto
      next
        case False
        show ?thesis
        proof (cases e)
          case None
          then have "loop R wait key token ttl s2 = Some y" using body Inr False w by simp
          then show ?thesis using step(1) R ttl by blast
        next
          case (Some err)
          then show ?thesis using body Inr False w by auto
        qed
      qed
    qed
  qed
qed

lemma acquire_loop_holds:
  "0 < ttl \<Longrightarrow> acquire_loop R wait key token ttl s = Some (Inr u, s') \<Longrightarrow>
     u = releaser key token \<and> view s' key = Some (RStr token) \<and> (\<exists>ms > 0. pttl s' key = Some ms)"
  using acquire_loop_result[of R wait key token ttl s "(Inr u, s')"] by simp

lemma acquire_loop_returns:
  fixes remaining :: "'s \<Rightarrow> nat"
  assumes try_m: "\<And>s r s1. try_lock R key token ttl s = (r, s1) \<Longrightarrow> remaining s1 \<le> remaining s"
    and wait_m: "\<And>s s1. wait s = (None, s1) \<Longrightarrow> remaining s1 < remaining s"
  shows "\<exists>y. acquire_loop R wait key token ttl s = Some y"
proof (induction "remaining s" arbitrary: s rule: less_induct)
  case less
  obtain r s1 where r: "try_lock R key token ttl s = (r, s1)" by (cases "try_lock R key token ttl s")
  obtain e s2 where w: "wait s1 = (e, s2)" by (cases "wait s1")
  show ?case
  proof (cases "r = Inr False \<and> e = None")
    case True
    then have "remaining s2 < remaining s" using try_m[OF r] wait_m[of s1 s2] w by simp
    from less[OF this] show ?thesis
      using True r w by (subst acquire_loop.simps) simp
  next
    case False
    then show ?thesis
      using r w by (subst acquire_loop.simps) (auto split: sum.splits option.splits if_splits)
  qed
qed

end

text \<open>C30: the lock excludes. While a lock key holds a caller's token, no sequence of attempts and
  releases by holders of other tokens (failed and retried calls included) acquires the lock or
  takes the key away: nobody enters the critical section and nobody can release someone else's
  lock.\<close>

theorem lock_exclusive:
  assumes "redis_server R view pttl" and "view s key = Some (RStr token)"
    and "\<forall>op \<in> set ops. foreign_op token op" and "lock_run R key ops s = (acquired, s')"
  shows "True \<notin> set acquired \<and> view s' key = Some (RStr token)"
  using redis_server.lock_run_excluded[OF assms] .

theorem lock_exclusive_witness:
  defines "s \<equiv> mem_set ''k'' ''me'' 1000 empty_store"
  shows "True \<notin> set (fst (lock_run mem_redis ''k'' [TryLock ''you'' 5, Unlock ''you''] s)) \<and>
     mem_view (snd (lock_run mem_redis ''k'' [TryLock ''you'' 5, Unlock ''you''] s)) ''k'' = Some (RStr ''me'')"
  by (rule lock_exclusive[OF mr.redis_server_axioms, where ops = "[TryLock ''you'' 5, Unlock ''you'']" and s = s])
    (simp_all add: s_def mem_view_kv)

text \<open>Releasing is guarded by the token and happens once. Calling the returned \<open>unlock\<close> leaves
  every key as it is, or deletes the lock key in the case that it still holds this caller's token;
  calling it again does nothing.\<close>

theorem unlock_guarded:
  assumes "redis_server R view pttl" and "no_zset (view s key)"
    and "call_unlock R (releaser key token) s = (u', s')"
  shows "(view s' = view s \<or> view s key = Some (RStr token) \<and> view s' = (view s)(key := None)) \<and>
     call_unlock R u' s2 = (u', s2)"
  using redis_server.unlock_view[OF assms(1,2), of token] assms(3)
  by (auto simp: call_unlock_def releaser_def)

theorem unlock_guarded_witness:
  defines "r \<equiv> call_unlock mem_redis (releaser ''k'' ''mine'') (mem_set ''k'' ''other'' 1000 empty_store)"
  shows "mem_view (snd r) ''k'' = Some (RStr ''other'') \<and> call_unlock mem_redis (fst r) empty_store = (fst r, empty_store)"
  using unlock_guarded[OF mr.redis_server_axioms, of "mem_set ''k'' ''other'' 1000 empty_store" "''k''" "''mine''" "fst r" "snd r" empty_store]
  by (auto simp: r_def mem_view_kv)

text \<open>C31: acquiring ends and delivers. When the context ends after finitely many retry intervals
  (\<open>remaining\<close> counts them down), \<open>AcquireConversationLock\<close> returns; and whenever it returns an
  \<open>unlock\<close>, the lock key holds the caller's token with a running time to live.\<close>

theorem acquire_total:
  fixes remaining :: "'s \<Rightarrow> nat"
  assumes "redis_server R view pttl" and "0 < ttl"
    and "\<forall>key token s r s1. try_lock R key token ttl s = (r, s1) \<longrightarrow> remaining s1 \<le> remaining s"
    and "\<forall>s s1. wait s = (None, s1) \<longrightarrow> remaining s1 < remaining s"
  shows "\<exists>r s'. AcquireConversationLock R wait rand p n ttl s = Some (r, s') \<and>
     (case r of Inl e \<Rightarrow> True
      | Inr u \<Rightarrow> view s' (ul_key u) = Some (RStr (ul_token u)) \<and> ul_key u = lockKey p n \<and>
          (\<exists>ms > 0. pttl s' (ul_key u) = Some ms))"
proof (cases "newToken rand")
  case (Inl e)
  then show ?thesis by (simp add: AcquireConversationLock_def)
next
  case (Inr token)
  obtain r s' where y: "acquire_loop R wait (lockKey p n) token ttl s = Some (r, s')"
    using redis_server.acquire_loop_returns[OF assms(1), of "lockKey p n" token ttl remaining wait s] assms(3,4) by auto
  then show ?thesis
    using redis_server.acquire_loop_holds[OF assms(1,2)] Inr
    by (fastforce simp: AcquireConversationLock_def releaser_def split: sum.splits)
qed

theorem acquire_total_witness:
  "\<exists>r s'. AcquireConversationLock mem_redis (\<lambda>s. (Some ''cancelled'', s)) (Some [1, 2]) ''p'' ''n'' 1000 empty_store = Some (r, s') \<and>
     (case r of Inl e \<Rightarrow> True | Inr u \<Rightarrow> ul_key u = lockKey ''p'' ''n'')"
  using acquire_total[OF mr.redis_server_axioms, of 1000 "\<lambda>_. 0" "\<lambda>s. (Some ''cancelled'', s)" "Some [1, 2]" "''p''" "''n''" empty_store]
  by (fastforce split: sum.splits)

end
