(* ===== verification/Assembler.thy ===== *)
theory Assembler
  imports Gateway_Prelude
begin

text \<open>
  \<^verbatim>\<open>internal/context/context.go\<close>: assembly of the Dify \<open>inputs\<close> from trusted providers under the
  variable contract. Providers are parameters (records of a name and a fetch over the world
  state); a map of variables is a partial function, so the unordered iteration over a provider's
  map is one override. Log lines are not modelled. \<open>ctxErr\<close> is \<open>ctx.Err()\<close>.
\<close>

section \<open>Definitions\<close>

definition VarPlayerLevel :: string where "VarPlayerLevel = ''player_level''"
definition VarCurrentQuest :: string where "VarCurrentQuest = ''current_quest''"
definition VarAffinity :: string where "VarAffinity = ''affinity''"
definition VarScene :: string where "VarScene = ''scene''"
definition VarRecentEvents :: string where "VarRecentEvents = ''recent_events''"

lemmas contract_var_defs =
  VarPlayerLevel_def VarCurrentQuest_def VarAffinity_def VarScene_def VarRecentEvents_def

definition DefaultContract :: "string list" where
  "DefaultContract = [VarPlayerLevel, VarCurrentQuest, VarAffinity, VarScene, VarRecentEvents]"

type_synonym vars = "string \<rightharpoonup> string"

record 'w provider =
  prov_Name :: string
  prov_Fetch :: "string \<Rightarrow> string \<Rightarrow> 'w \<Rightarrow> (string + vars) \<times> 'w"

text \<open>\<open>ProviderFunc\<close> adapts a named function.\<close>

definition ProviderFunc :: "string \<Rightarrow> (string \<Rightarrow> string \<Rightarrow> 'w \<Rightarrow> (string + vars) \<times> 'w) \<Rightarrow> 'w provider" where
  "ProviderFunc name fn = \<lparr>prov_Name = name, prov_Fetch = fn\<rparr>"

record 'w assembler =
  providers :: "'w provider list"
  allowed :: "string list"

definition assembler_New :: "string list \<Rightarrow> 'w provider list \<Rightarrow> 'w assembler" where
  "assembler_New contract ps = \<lparr>providers = ps, allowed = contract\<rparr>"

text \<open>The loop over one provider's variables: contract keys are stored, others dropped.\<close>

definition admit :: "string list \<Rightarrow> vars \<Rightarrow> vars \<Rightarrow> vars" where
  "admit keys vals inputs = (\<lambda>k. if k \<in> set keys then (case vals k of Some v \<Rightarrow> Some v | None \<Rightarrow> inputs k) else inputs k)"

fun build_loop ::
  "('w \<Rightarrow> string option) \<Rightarrow> string list \<Rightarrow> string \<Rightarrow> string \<Rightarrow> 'w provider list \<Rightarrow> vars \<Rightarrow> 'w \<Rightarrow>
   (vars \<times> string option) \<times> 'w" where
  "build_loop ctxErr keys playerID npcID [] inputs w = ((inputs, None), w)"
| "build_loop ctxErr keys playerID npcID (p # ps) inputs w =
     (case ctxErr w of
        Some e \<Rightarrow> ((inputs, Some e), w)
      | None \<Rightarrow>
          (case prov_Fetch p playerID npcID w of
             (Inl e, w1) \<Rightarrow> build_loop ctxErr keys playerID npcID ps inputs w1
           | (Inr vals, w1) \<Rightarrow> build_loop ctxErr keys playerID npcID ps (admit keys vals inputs) w1))"

definition assembler_Build ::
  "('w \<Rightarrow> string option) \<Rightarrow> 'w assembler \<Rightarrow> string \<Rightarrow> string \<Rightarrow> 'w \<Rightarrow> (vars \<times> string option) \<times> 'w" where
  "assembler_Build ctxErr a playerID npcID w =
     build_loop ctxErr (allowed a) playerID npcID (providers a) Map.empty w"

section \<open>Properties\<close>

lemma dom_admit: "dom (admit keys vals inputs) \<subseteq> set keys \<union> dom inputs"
  by (auto simp: admit_def split: if_splits option.splits)

lemma build_loop_keys:
  "dom (fst (fst (build_loop ctxErr keys p n ps inputs w))) \<subseteq> set keys \<union> dom inputs"
proof (induction ctxErr keys p n ps inputs w rule: build_loop.induct)
  case (2 ctxErr keys p n q ps inputs w)
  then show ?case
    using dom_admit[of keys _ inputs] by (auto split: option.splits prod.splits sum.splits) blast+
qed simp

text \<open>The answers of the providers that were asked, in order, as an ordinary recursion.\<close>

fun answers ::
  "('w \<Rightarrow> string option) \<Rightarrow> string \<Rightarrow> string \<Rightarrow> 'w provider list \<Rightarrow> 'w \<Rightarrow> vars list" where
  "answers ctxErr p n [] w = []"
| "answers ctxErr p n (q # qs) w =
     (case ctxErr w of Some _ \<Rightarrow> []
      | None \<Rightarrow> (case prov_Fetch q p n w of
                  (Inl _, w1) \<Rightarrow> answers ctxErr p n qs w1
                | (Inr vals, w1) \<Rightarrow> vals # answers ctxErr p n qs w1))"

text \<open>Later answers override earlier ones, and only contract keys count.\<close>

definition last_answer :: "string list \<Rightarrow> vars list \<Rightarrow> vars" where
  "last_answer keys vs k = (if k \<in> set keys then foldl (++) Map.empty vs k else None)"

lemma map_add_at: "(m ++ v) k = (case v k of None \<Rightarrow> m k | Some y \<Rightarrow> Some y)"
  by (simp add: map_add_def)

lemma admit_at: "k \<in> set keys \<Longrightarrow> admit keys vals inputs k = (inputs ++ vals) k" "k \<notin> set keys \<Longrightarrow> admit keys vals inputs k = inputs k"
  by (auto simp: admit_def map_add_at split: option.splits)

lemma foldl_map_add: "foldl (++) m vs = m ++ foldl (++) Map.empty vs"
proof (induction vs rule: rev_induct)
  case (snoc v vs)
  have "foldl (++) m (vs @ [v]) = (m ++ foldl (++) Map.empty vs) ++ v" using snoc by simp
  then show ?case by simp
qed simp

lemma build_loop_answers:
  "fst (fst (build_loop ctxErr keys p n ps inputs w)) k =
     (if k \<in> set keys then foldl (++) inputs (answers ctxErr p n ps w) k else inputs k)"
proof (induction ctxErr keys p n ps inputs w rule: build_loop.induct)
  case (2 ctxErr keys p n q ps inputs w)
  have over: "(admit keys vals inputs ++ X) k = ((inputs ++ vals) ++ X) k" if "k \<in> set keys" for vals X :: vars
    using that by (simp add: map_add_at admit_at split: option.splits)
  have "foldl (++) (admit keys vals inputs) vs k = foldl (++) (inputs ++ vals) vs k" if "k \<in> set keys" for vals vs
    using over[OF that, of vals "foldl (++) Map.empty vs"]
      foldl_map_add[of "admit keys vals inputs" vs] foldl_map_add[of "inputs ++ vals" vs] by metis
  with 2 show ?case by (auto simp: admit_at split: option.splits prod.splits sum.splits)
qed simp

text \<open>C33: the assembled inputs. \<open>Build\<close> returns, for every key of the contract, the value of the last
  provider that answered with that key, and nothing for any other key: a failing provider is
  skipped, a provider cannot introduce a key outside the contract, and the only arguments are the
  player and the npc, so no text of the player reaches the inputs.\<close>

theorem Build_inputs:
  "fst (fst (assembler_Build ctxErr a p n w)) = last_answer (allowed a) (answers ctxErr p n (providers a) w) \<and>
   dom (fst (fst (assembler_Build ctxErr a p n w))) \<subseteq> set (allowed a)"
  using build_loop_answers[of ctxErr "allowed a" p n "providers a" Map.empty w]
    build_loop_keys[of ctxErr "allowed a" p n "providers a" Map.empty w]
  by (auto simp: assembler_Build_def last_answer_def fun_eq_iff)

end
