(* ===== verification/Moderation.thy ===== *)
theory Moderation
  imports Go_Strings
begin

text \<open>
  \<^verbatim>\<open>internal/moderation/moderation.go\<close>: keyword policy, moderator, and the streaming output filter.
  A \<open>Policy\<close> is a predicate on text, a \<open>Moderator\<close> a record of its two checks; strings are byte
  sequences in UTF-8. The table of \<open>unicode.ToLower\<close> is the parameter \<open>lower\<close>.

  The theorems: the filter never invents, reorders or loses text, and with the keyword policy no
  banned word of at most 33 runes ever appears in what was emitted, however the upstream splits
  its deltas.
\<close>

section \<open>Policies and moderators\<close>

type_synonym policy = "string \<Rightarrow> bool"

record moderator =
  mCheckInput :: "string \<Rightarrow> bool \<times> string"
  mCheckOutput :: "string \<Rightarrow> bool \<times> string"

definition DefaultInputFallback :: string where
  "DefaultInputFallback =
     utf8 [25265, 27465, 65292, 25105, 26080, 27861, 22238, 24212, 36825, 20010, 35831, 27714, 12290]"

definition DefaultOutputFallback :: string where
  "DefaultOutputFallback =
     utf8 [65288, 36825, 27573, 22238, 22797, 24050, 34987, 20869, 23481, 23457, 26680, 25318, 25130, 12290, 65289]"

definition NewKeywordPolicy :: "(nat \<Rightarrow> nat) \<Rightarrow> string list \<Rightarrow> string list" where
  "NewKeywordPolicy lower words = filter (\<lambda>w. w \<noteq> []) (map (\<lambda>w. ToLower lower (TrimSpace w)) words)"

definition KeywordPolicy_Allowed :: "(nat \<Rightarrow> nat) \<Rightarrow> string list \<Rightarrow> policy" where
  "KeywordPolicy_Allowed lower banned text =
     (let low = ToLower lower text in \<not> list_ex (\<lambda>w. contains low w) banned)"

record policyModerator =
  pm_policy :: policy
  inputFallback :: string
  outputFallback :: string

definition NewPolicyModerator :: "policy \<Rightarrow> policyModerator" where
  "NewPolicyModerator p = \<lparr>pm_policy = p, inputFallback = DefaultInputFallback, outputFallback = DefaultOutputFallback\<rparr>"

definition WithFallbacks :: "string \<Rightarrow> string \<Rightarrow> policyModerator \<Rightarrow> policyModerator" where
  "WithFallbacks inp out m = m\<lparr>inputFallback := inp, outputFallback := out\<rparr>"

definition PolicyModerator_CheckInput :: "policyModerator \<Rightarrow> string \<Rightarrow> bool \<times> string" where
  "PolicyModerator_CheckInput m text = (if pm_policy m text then (True, []) else (False, inputFallback m))"

definition PolicyModerator_CheckOutput :: "policyModerator \<Rightarrow> string \<Rightarrow> bool \<times> string" where
  "PolicyModerator_CheckOutput m text = (if pm_policy m text then (True, []) else (False, outputFallback m))"

definition policy_moderator :: "policyModerator \<Rightarrow> moderator" where
  "policy_moderator m = \<lparr>mCheckInput = PolicyModerator_CheckInput m, mCheckOutput = PolicyModerator_CheckOutput m\<rparr>"

definition AllowAll :: moderator where
  "AllowAll = \<lparr>mCheckInput = (\<lambda>_. (True, [])), mCheckOutput = (\<lambda>_. (True, []))\<rparr>"

section \<open>The output filter\<close>

definition sentenceTerminators :: "nat list" where
  "sentenceTerminators = [12290, 65281, 65311, 46, 33, 63, 10]"

definition DefaultMaxSegmentBytes :: int where "DefaultMaxSegmentBytes = 512"
definition DefaultOverlapRunes :: int where "DefaultOverlapRunes = 32"

record outputFilter =
  f_mod :: moderator
  f_buf :: string
  maxSegmentBytes :: int
  overlapRunes :: int
  overlap :: string
  f_blocked :: bool

definition NewOutputFilter :: "moderator \<Rightarrow> outputFilter" where
  "NewOutputFilter m = \<lparr>f_mod = m, f_buf = [], maxSegmentBytes = DefaultMaxSegmentBytes,
     overlapRunes = DefaultOverlapRunes, overlap = [], f_blocked = False\<rparr>"

definition cutAtLastTerminator :: "string \<Rightarrow> int" where
  "cutAtLastTerminator text =
     (case last_index_any sentenceTerminators text of
        None \<Rightarrow> - 1
      | Some idx \<Rightarrow> int (idx + snd (decode_rune (drop idx text))))"

definition lastRunes :: "string \<Rightarrow> int \<Rightarrow> string" where
  "lastRunes s n =
     (if n \<le> 0 \<or> s = [] then []
      else (let rs = runes s in if int (length rs) \<le> n then s else utf8 (drop (length rs - nat n) rs)))"

definition splitKeepingLastToken :: "string \<Rightarrow> string \<times> string" where
  "splitKeepingLastToken text =
     (case last_index_any [32, 9] text of
        None \<Rightarrow> (text, [])
      | Some i \<Rightarrow> if 0 < i \<and> i < length text - 1 then (take (i + 1) text, drop (i + 1) text) else (text, []))"

text \<open>The part of \<open>drain\<close> that picks the segment to check and the text to keep.\<close>

definition next_segment :: "bool \<Rightarrow> int \<Rightarrow> string \<Rightarrow> (string \<times> string) option" where
  "next_segment final maxBytes text =
     (let cut = cutAtLastTerminator text in
      if final then Some (text, [])
      else if 0 \<le> cut then Some (take (nat cut) text, drop (nat cut) text)
      else if maxBytes \<le> int (length text) then Some (splitKeepingLastToken text)
      else None)"

definition drain :: "bool \<Rightarrow> outputFilter \<Rightarrow> (string \<times> bool \<times> string) \<times> outputFilter" where
  "drain final f =
     (let text = f_buf f in
      if text = [] then (([], False, []), f)
      else case next_segment final (maxSegmentBytes f) text of
        None \<Rightarrow> (([], False, []), f)
      | Some (segment, remainder) \<Rightarrow>
          (case mCheckOutput (f_mod f) (overlap f @ segment) of
             (False, fb) \<Rightarrow> (([], True, fb), f\<lparr>f_blocked := True, f_buf := [], overlap := []\<rparr>)
           | (True, _) \<Rightarrow>
               ((segment, False, []),
                f\<lparr>overlap := lastRunes (overlap f @ segment) (overlapRunes f), f_buf := remainder\<rparr>)))"

definition filter_Push :: "string \<Rightarrow> outputFilter \<Rightarrow> (string \<times> bool \<times> string) \<times> outputFilter" where
  "filter_Push delta f =
     (if f_blocked f then (([], True, []), f) else drain False (f\<lparr>f_buf := f_buf f @ delta\<rparr>))"

definition filter_Flush :: "outputFilter \<Rightarrow> (string \<times> bool \<times> string) \<times> outputFilter" where
  "filter_Flush f = (if f_blocked f then (([], True, []), f) else drain True f)"

text \<open>A stream: deltas pushed in order, the emitted texts collected.\<close>

fun push_all :: "string list \<Rightarrow> outputFilter \<Rightarrow> string \<times> outputFilter" where
  "push_all [] f = ([], f)"
| "push_all (d # ds) f =
     (case filter_Push d f of ((emit, _, _), f1) \<Rightarrow>
        (case push_all ds f1 of (rest, f2) \<Rightarrow> (emit @ rest, f2)))"

definition stream_all :: "string list \<Rightarrow> outputFilter \<Rightarrow> string \<times> outputFilter" where
  "stream_all ds f =
     (case push_all ds f of (a, f1) \<Rightarrow> (case filter_Flush f1 of ((b, _, _), f2) \<Rightarrow> (a @ b, f2)))"

section \<open>Text is neither lost nor invented\<close>

lemma next_segment_concat: "next_segment final n text = Some (a, b) \<Longrightarrow> a @ b = text"
  by (auto simp: next_segment_def Let_def splitKeepingLastToken_def split: if_splits option.splits)

lemma next_segment_final: "next_segment True n text = Some (a, b) \<Longrightarrow> b = []"
  by (simp add: next_segment_def)

lemma drain_cases:
  assumes "drain final f = ((e, b, fb), f')" and "\<not> f_blocked f"
  shows "f_blocked f' = b"
    and "b \<Longrightarrow> e = []"
    and "\<not> b \<Longrightarrow> e @ f_buf f' = f_buf f"
    and "\<not> b \<Longrightarrow> final \<Longrightarrow> f_buf f' = []"
  using assms
  by (auto simp: drain_def Let_def dest: next_segment_concat next_segment_final
      split: if_splits option.splits prod.splits bool.splits)
    (simp add: next_segment_def)

lemma drain_result:
  "drain final f = ((e, b, fb), f') \<Longrightarrow>
     f' = f \<and> e = [] \<or> f_blocked f' \<and> e = [] \<or>
     (\<exists>rem. next_segment final (maxSegmentBytes f) (f_buf f) = Some (e, rem) \<and>
        fst (mCheckOutput (f_mod f) (overlap f @ e)) \<and>
        f' = f\<lparr>overlap := lastRunes (overlap f @ e) (overlapRunes f), f_buf := rem\<rparr>)"
  by (auto simp: drain_def Let_def split: if_splits option.splits prod.splits bool.splits)

lemma push_all_blocked: "f_blocked f \<Longrightarrow> push_all ds f = ([], f)"
  by (induction ds) (auto simp: filter_Push_def)

lemma push_all_snoc:
  "push_all ds f0 = (a, f) \<Longrightarrow> filter_Push d f = ((e, b, fb), f') \<Longrightarrow> push_all (ds @ [d]) f0 = (a @ e, f')"
  by (induction ds arbitrary: f0 a) (auto split: prod.splits)

lemma filter_Push_blocked: "filter_Push d f = ((e, b, fb), f') \<Longrightarrow> f_blocked f' = b \<and> (b \<longrightarrow> e = [])"
  using drain_cases[of False "f\<lparr>f_buf := f_buf f @ d\<rparr>" e b fb f'] by (auto simp: filter_Push_def split: if_splits)

lemma push_all_conserves:
  "push_all ds f = (out, f') \<Longrightarrow> \<not> f_blocked f \<Longrightarrow>
     prefix out (f_buf f @ concat ds) \<and> (\<not> f_blocked f' \<longrightarrow> out @ f_buf f' = f_buf f @ concat ds)"
proof (induction ds arbitrary: f out)
  case (Cons d ds)
  obtain e b fb f1 where p: "filter_Push d f = ((e, b, fb), f1)" by (metis prod_cases3 surj_pair)
  obtain rest where r: "push_all ds f1 = (rest, f')" "out = e @ rest"
    using Cons.prems(1) p by (auto split: prod.splits)
  have d: "drain False (f\<lparr>f_buf := f_buf f @ d\<rparr>) = ((e, b, fb), f1)"
    using p Cons.prems(2) by (simp add: filter_Push_def)
  note c = drain_cases[OF d]
  show ?case
  proof (cases b)
    case True
    then show ?thesis using c r Cons.prems(2) push_all_blocked[of f1 ds] by auto
  next
    case False
    then have eb: "e @ f_buf f1 = f_buf f @ d" and nb: "\<not> f_blocked f1" using c Cons.prems(2) by simp_all
    have eq: "f_buf f @ concat (d # ds) = e @ f_buf f1 @ concat ds" using eb by simp
    show ?thesis unfolding eq r(2) using Cons.IH[OF r(1) nb] by simp
  qed
qed simp

text \<open>The output filter neither loses, reorders nor invents text. Whatever the moderator says,
  the text emitted over a stream of deltas and the final flush is a prefix of the concatenated
  deltas, and it is the whole concatenation when nothing was blocked.\<close>

theorem filter_lossless:
  assumes "stream_all ds (NewOutputFilter m) = (out, f')"
  shows "prefix out (concat ds) \<and> (\<not> f_blocked f' \<longrightarrow> out = concat ds)"
proof -
  obtain a f1 e b fb where p: "push_all ds (NewOutputFilter m) = (a, f1)"
      "filter_Flush f1 = ((e, b, fb), f')" "out = a @ e"
    using assms by (auto simp: stream_all_def split: prod.splits)
  have c: "prefix a (concat ds)" "\<not> f_blocked f1 \<longrightarrow> a @ f_buf f1 = concat ds"
    using push_all_conserves[OF p(1)] by (auto simp: NewOutputFilter_def)
  show ?thesis
  proof (cases "f_blocked f1")
    case True
    then show ?thesis using p c by (auto simp: filter_Flush_def)
  next
    case False
    then have d: "drain True f1 = ((e, b, fb), f')" using p by (simp add: filter_Flush_def)
    show ?thesis
      using drain_cases[OF d False] c p(3) False by (cases b) (auto simp flip: append_assoc)
  qed
qed

theorem filter_lossless_witness:
  "let r = stream_all [''ab.'', ''c''] (NewOutputFilter AllowAll)
   in prefix (fst r) ''ab.c'' \<and> (\<not> f_blocked (snd r) \<longrightarrow> fst r = ''ab.c'')"
  using filter_lossless[of "[''ab.'', ''c'']" AllowAll] by (simp add: Let_def prod_eq_iff)

text \<open>A moderation hit latches. Once the filter is blocked, every further delta and the final
  flush emit nothing and report it blocked, and the filter no longer changes.\<close>

theorem filter_latched:
  assumes "f_blocked f"
  shows "stream_all ds f = ([], f) \<and> filter_Push d f = (([], True, []), f) \<and> filter_Flush f = (([], True, []), f)"
  using assms by (simp add: stream_all_def push_all_blocked filter_Push_def filter_Flush_def)

theorem filter_latched_witness:
  "stream_all [''a'', ''b''] ((NewOutputFilter AllowAll)\<lparr>f_blocked := True\<rparr>) =
     ([], (NewOutputFilter AllowAll)\<lparr>f_blocked := True\<rparr>)"
  using filter_latched[of "(NewOutputFilter AllowAll)\<lparr>f_blocked := True\<rparr>" "[''a'', ''b'']"] by simp

section \<open>The filter on runes\<close>

text \<open>UTF-8 synchronises itself: an encoded word occurs in an encoded text only where its runes do.\<close>

lemma utf8_split_at_start:
  "list_all scalar xs \<Longrightarrow> utf8 xs = p @ c # q \<Longrightarrow> rune_start c \<Longrightarrow> \<exists>a b. xs = a @ b \<and> p = utf8 a"
proof (induction xs arbitrary: p)
  case (Cons x xs)
  show ?case
  proof (cases "p = []")
    case True
    then show ?thesis by (intro exI[of _ "[]"] exI[of _ "x # xs"]) simp
  next
    case False
    let ?e = "encode_rune x"
    have sx: "scalar x" using Cons.prems(1) by simp
    have eq: "?e @ utf8 xs = p @ c # q" using Cons.prems(2) by simp
    have "length ?e \<le> length p"
    proof (rule ccontr)
      assume "\<not> ?thesis"
      then have "c = ?e ! length p" using eq by (metis not_le_imp_less nth_append nth_append_length)
      moreover have "0 < length p" using False by simp
      ultimately have "c \<in> set (tl ?e)"
        using \<open>\<not> length ?e \<le> length p\<close> by (cases ?e; cases "length p") auto
      then show False using encode_rune_shape(2)[OF sx] Cons.prems(3) by blast
    qed
    then obtain p' where p': "p = ?e @ p'" using eq by (metis append_eq_append_conv_if append_take_drop_id)
    then have "utf8 xs = p' @ c # q" using eq by simp
    then obtain a b where "xs = a @ b" "p' = utf8 a" using Cons.IH Cons.prems by auto
    then show ?thesis using p' by (intro exI[of _ "x # a"] exI[of _ b]) simp
  qed
qed simp

lemma utf8_prefix: "list_all scalar ws \<Longrightarrow> list_all scalar xs \<Longrightarrow> utf8 xs = utf8 ws @ q \<Longrightarrow> prefix ws xs"
proof (induction ws arbitrary: xs)
  case (Cons w ws)
  then obtain x xs' where xs: "xs = x # xs'" by (cases xs) auto
  have "(x, length (encode_rune x)) = (w, length (encode_rune w))"
    using Cons.prems decode_encode_rune[of x "utf8 xs'"] decode_encode_rune[of w "utf8 ws @ q"]
    by (simp add: xs)
  with Cons xs show ?case by simp
qed simp

lemma contains_utf8_iff:
  assumes "list_all scalar ws" "list_all scalar xs"
  shows "contains (utf8 xs) (utf8 ws) \<longleftrightarrow> sublist ws xs"
proof
  assume "contains (utf8 xs) (utf8 ws)"
  then obtain p q where pq: "utf8 xs = p @ utf8 ws @ q" by (auto simp: contains_iff)
  show "sublist ws xs"
  proof (cases ws)
    case (Cons w ws')
    have "utf8 xs = p @ hd (encode_rune w) # (tl (encode_rune w) @ utf8 ws' @ q)" using pq Cons by simp
    moreover have "rune_start (hd (encode_rune w))" using encode_rune_shape(1)[of w] assms(1) Cons by simp
    ultimately obtain a b where "xs = a @ b" "p = utf8 a"
      using utf8_split_at_start[OF assms(2)] by metis
    moreover then have "prefix ws b" using utf8_prefix[OF assms(1), of b q] pq assms(2) by simp
    ultimately show ?thesis by (auto simp: prefix_def sublist_def)
  qed simp
next
  assume "sublist ws xs"
  then show "contains (utf8 xs) (utf8 ws)" unfolding sublist_def contains_iff by (metis utf8_simps(3))
qed

lemma last_index_any_utf8:
  "list_all scalar rs \<Longrightarrow> last_index_any chars (utf8 rs) = Some i \<Longrightarrow>
     \<exists>a r b. rs = a @ r # b \<and> r \<in> set chars \<and> i = length (utf8 a)"
proof (induction rs rule: rev_induct)
  case (snoc r rs)
  have d: "decode_last_rune (utf8 rs @ encode_rune r) = (r, length (encode_rune r))"
    using snoc.prems by (intro decode_last_encode_rune) simp
  show ?case
  proof (cases "r \<in> set chars")
    case True
    then show ?thesis using snoc.prems d
      by (auto simp: last_index_any.simps[of chars "utf8 rs @ encode_rune r"])
  next
    case False
    then have "last_index_any chars (utf8 rs) = Some i" using snoc.prems d
      by (simp add: last_index_any.simps[of chars "utf8 rs @ encode_rune r"])
    then show ?thesis using snoc by fastforce
  qed
qed simp

lemma next_segment_utf8:
  assumes "list_all scalar rs" "next_segment final n (utf8 rs) = Some (a, b)"
  shows "\<exists>x y. rs = x @ y \<and> a = utf8 x \<and> b = utf8 y"
proof -
  have split: "\<exists>x y. rs = x @ y \<and> take k (utf8 rs) = utf8 x \<and> drop k (utf8 rs) = utf8 y"
    if "rs = x @ r # y" "k = length (utf8 x) + length (encode_rune r)" for k x r y
    using that by (intro exI[of _ "x @ [r]"] exI[of _ y]) simp
  have cut: "\<exists>x y. rs = x @ y \<and> take (nat (cutAtLastTerminator (utf8 rs))) (utf8 rs) = utf8 x \<and>
      drop (nat (cutAtLastTerminator (utf8 rs))) (utf8 rs) = utf8 y" if nn: "0 \<le> cutAtLastTerminator (utf8 rs)"
  proof -
    obtain i where i: "last_index_any sentenceTerminators (utf8 rs) = Some i"
      using nn by (auto simp: cutAtLastTerminator_def split: option.splits)
    then obtain x r y where r: "rs = x @ r # y" "i = length (utf8 x)"
      using last_index_any_utf8[OF assms(1)] by blast
    then have "decode_rune (drop i (utf8 rs)) = (r, length (encode_rune r))"
      using assms(1) by (simp add: decode_encode_rune)
    with i r show ?thesis by (intro split[of x r y]) (simp_all add: cutAtLastTerminator_def)
  qed
  have tok: "\<exists>x y. rs = x @ y \<and> fst (splitKeepingLastToken (utf8 rs)) = utf8 x \<and>
      snd (splitKeepingLastToken (utf8 rs)) = utf8 y"
  proof (cases "last_index_any [32, 9] (utf8 rs)")
    case None
    then show ?thesis by (intro exI[of _ rs] exI[of _ "[]"]) (simp add: splitKeepingLastToken_def)
  next
    case (Some i)
    then obtain x r y where r: "rs = x @ r # y" "r \<in> {32, 9}" "i = length (utf8 x)"
      using last_index_any_utf8[OF assms(1)] by fastforce
    then have "\<exists>x y. rs = x @ y \<and> take (i + 1) (utf8 rs) = utf8 x \<and> drop (i + 1) (utf8 rs) = utf8 y"
      by (intro split[of x r y]) (auto simp: encode_rune_def)
    moreover have "\<exists>x y. rs = x @ y \<and> utf8 rs = utf8 x \<and> [] = utf8 y"
      by (intro exI[of _ rs] exI[of _ "[]"]) simp
    ultimately show ?thesis using Some
      by (cases "0 < i \<and> i < length (utf8 rs) - 1") (simp_all add: splitKeepingLastToken_def)
  qed
  have whole: "\<exists>x y. rs = x @ y \<and> utf8 rs = utf8 x \<and> [] = utf8 y"
    by (intro exI[of _ rs] exI[of _ "[]"]) simp
  show ?thesis
  proof (cases final)
    case True
    then have "a = utf8 rs" "b = []" using assms(2) by (simp_all add: next_segment_def)
    then show ?thesis using whole by (simp only:)
  next
    case notfinal: False
    show ?thesis
    proof (cases "0 \<le> cutAtLastTerminator (utf8 rs)")
      case True
      then have "a = take (nat (cutAtLastTerminator (utf8 rs))) (utf8 rs)"
          "b = drop (nat (cutAtLastTerminator (utf8 rs))) (utf8 rs)"
        using assms(2) notfinal by (simp_all add: next_segment_def Let_def)
      then show ?thesis using cut[OF True] by (simp only:)
    next
      case False
      then have "splitKeepingLastToken (utf8 rs) = (a, b)"
        using assms(2) notfinal by (simp add: next_segment_def split: if_splits)
      then show ?thesis using tok by (simp only: fst_conv snd_conv)
    qed
  qed
qed

definition last_runes :: "nat \<Rightarrow> nat list \<Rightarrow> nat list" where
  "last_runes n rs = drop (length rs - n) rs"

lemma lastRunes_utf8: "list_all scalar rs \<Longrightarrow> lastRunes (utf8 rs) (int n) = utf8 (last_runes n rs)"
  by (auto simp: lastRunes_def last_runes_def runes_utf8 Let_def)

lemma last_runes_step: "last_runes n (last_runes n es @ seg) = last_runes n (es @ seg)"
proof (cases "length es \<le> n")
  case False
  then show ?thesis by (cases "length seg \<le> n") (auto simp: last_runes_def add.commute)
qed (simp add: last_runes_def)

text \<open>The contract of a moderator towards the filter: an accepted text is free of every phrase of
  a set of bad phrases, read through a fixed rewriting of runes.\<close>

locale phrase_moderator =
  fixes m :: moderator and fold_rune :: "nat \<Rightarrow> nat" and bad :: "nat list set"
  assumes accepted: "fst (mCheckOutput m (utf8 rs)) \<Longrightarrow> list_all scalar rs \<Longrightarrow> ws \<in> bad \<Longrightarrow>
    \<not> sublist ws (map fold_rune rs)"
begin

definition clean :: "nat \<Rightarrow> nat list \<Rightarrow> bool" where
  "clean n es \<longleftrightarrow> (\<forall>ws \<in> bad. length ws \<le> Suc n \<longrightarrow> ws \<noteq> [] \<longrightarrow> \<not> sublist ws (map fold_rune es))"

lemma clean_extend:
  assumes "clean n es" and "clean n (last_runes n es @ seg)"
  shows "clean n (es @ seg)"
  unfolding clean_def
proof (intro ballI impI)
  fix ws assume ws: "ws \<in> bad" "length ws \<le> Suc n" "ws \<noteq> []"
  show "\<not> sublist ws (map fold_rune (es @ seg))"
  proof
    assume "sublist ws (map fold_rune (es @ seg))"
    then obtain a b where ab: "map fold_rune (es @ seg) = a @ ws @ b" by (auto simp: sublist_def)
    then have len: "length es + length seg = length a + length ws + length b"
      by (metis add.assoc length_append length_map)
    show False
    proof (cases "length a + length ws \<le> length es")
      case True
      have "map fold_rune es = take (length es) (a @ ws @ b)" using ab by (metis length_map map_append append_eq_conv_conj)
      also have "\<dots> = a @ ws @ take (length es - (length a + length ws)) b" using True by simp
      finally have "sublist ws (map fold_rune es)" by (auto simp: sublist_def)
      then show False using assms(1) ws by (auto simp: clean_def)
    next
      case False
      define k where "k = length es - n"
      have k: "k \<le> length a" using False ws(2) by (simp add: k_def)
      have "map fold_rune (last_runes n es @ seg) = drop k (map fold_rune (es @ seg))"
        by (simp add: last_runes_def k_def drop_map)
      also have "\<dots> = drop k a @ ws @ b" unfolding ab using k by simp
      finally have "sublist ws (map fold_rune (last_runes n es @ seg))" by (auto simp: sublist_def)
      then show False using assms(2) ws by (auto simp: clean_def)
    qed
  qed
qed

definition filter_inv :: "nat \<Rightarrow> outputFilter \<Rightarrow> nat list \<Rightarrow> bool" where
  "filter_inv n f es \<longleftrightarrow> clean n es \<and> list_all scalar es \<and> (f_blocked f \<or>
     (f_mod f = m \<and> overlapRunes f = int n \<and> overlap f = utf8 (last_runes n es) \<and>
      (\<exists>b. f_buf f = utf8 b \<and> list_all scalar b)))"

lemma drain_inv:
  assumes "filter_inv n f es" "\<not> f_blocked f" "drain final f = ((e, b, fb), f')"
  shows "\<exists>seg. e = utf8 seg \<and> filter_inv n f' (es @ seg)"
proof -
  obtain buf where buf: "f_buf f = utf8 buf" "list_all scalar buf"
    and f: "f_mod f = m" "overlapRunes f = int n" "overlap f = utf8 (last_runes n es)"
    and es: "clean n es" "list_all scalar es"
    using assms(1,2) by (auto simp: filter_inv_def)
  have lr: "list_all scalar (last_runes n es)" using es(2) by (auto simp: last_runes_def list_all_iff dest: in_set_dropD)
  consider (wait) "f' = f" "e = []"
    | (block) "f_blocked f'" "e = []"
    | (pass) rem where "next_segment final (maxSegmentBytes f) (f_buf f) = Some (e, rem)"
        "fst (mCheckOutput m (overlap f @ e))" "\<not> f_blocked f'"
        "f' = f\<lparr>overlap := lastRunes (overlap f @ e) (overlapRunes f), f_buf := rem\<rparr>"
    using drain_result[OF assms(3)] assms(2) f(1) by auto
  then show ?thesis
  proof cases
    case wait
    then show ?thesis using assms(1) by (intro exI[of _ "[]"]) simp
  next
    case block
    then show ?thesis using es by (intro exI[of _ "[]"]) (simp add: filter_inv_def)
  next
    case (pass rem)
    obtain seg rest where seg: "buf = seg @ rest" "e = utf8 seg" "rem = utf8 rest"
      using next_segment_utf8[OF buf(2)] pass(1) buf(1) by metis
    have sc: "list_all scalar seg" "list_all scalar rest" using buf(2) seg(1) by simp_all
    have "fst (mCheckOutput m (utf8 (last_runes n es @ seg)))" using pass(2) seg f by simp
    then have "clean n (last_runes n es @ seg)"
      using accepted[of "last_runes n es @ seg"] lr sc by (auto simp: clean_def)
    then have "clean n (es @ seg)" by (rule clean_extend[OF es(1)])
    moreover have "lastRunes (overlap f @ e) (overlapRunes f) = utf8 (last_runes n (es @ seg))"
      using lastRunes_utf8[of "last_runes n es @ seg" n] lr sc by (simp add: f seg last_runes_step)
    ultimately show ?thesis
      using pass seg sc es f by (intro exI[of _ seg]) (auto simp: filter_inv_def)
  qed
qed

lemma push_all_inv:
  assumes "push_all ds f = (out, f')" "filter_inv n f es" "\<forall>d \<in> set ds. \<exists>rs. list_all scalar rs \<and> d = utf8 rs"
  shows "\<exists>seg. out = utf8 seg \<and> filter_inv n f' (es @ seg)"
  using assms
proof (induction ds arbitrary: f es out)
  case Nil
  then show ?case by (intro exI[of _ "[]"]) simp
next
  case (Cons d ds)
  obtain e b fb f1 where p: "filter_Push d f = ((e, b, fb), f1)" by (metis prod_cases3 surj_pair)
  obtain rest where r: "push_all ds f1 = (rest, f')" "out = e @ rest"
    using Cons.prems(1) p by (auto split: prod.splits)
  have "\<exists>seg. e = utf8 seg \<and> filter_inv n f1 (es @ seg)"
  proof (cases "f_blocked f")
    case True
    then show ?thesis using p Cons.prems(2) by (intro exI[of _ "[]"]) (simp add: filter_Push_def)
  next
    case False
    obtain rs where "list_all scalar rs" "d = utf8 rs" using Cons.prems(3) by auto
    moreover obtain ba where "f_buf f = utf8 ba" "list_all scalar ba"
      using Cons.prems(2) False by (auto simp: filter_inv_def)
    ultimately have "f_buf f @ d = utf8 (ba @ rs)" "list_all scalar (ba @ rs)" by simp_all
    then have "filter_inv n (f\<lparr>f_buf := f_buf f @ d\<rparr>) es"
      using Cons.prems(2) False unfolding filter_inv_def by (auto intro!: exI[of _ "ba @ rs"])
    then show ?thesis
      using p False by (intro drain_inv[where f = "f\<lparr>f_buf := f_buf f @ d\<rparr>"]) (simp_all add: filter_Push_def)
  qed
  then obtain seg where seg: "e = utf8 seg" "filter_inv n f1 (es @ seg)" by blast
  then obtain seg' where "rest = utf8 seg'" "filter_inv n f' ((es @ seg) @ seg')"
    using Cons.IH[OF r(1) seg(2)] Cons.prems(3) by auto
  then show ?case using r(2) seg(1) by (intro exI[of _ "seg @ seg'"]) simp
qed

lemma filter_inv_new: "filter_inv 32 (NewOutputFilter m) []"
  by (auto simp: filter_inv_def clean_def NewOutputFilter_def DefaultOverlapRunes_def last_runes_def
      intro: exI[of _ "[]"])

lemma push_all_clean:
  assumes "push_all ds (NewOutputFilter m) = (out, f')" "\<forall>d \<in> set ds. \<exists>rs. list_all scalar rs \<and> d = utf8 rs"
  shows "\<exists>es. out = utf8 es \<and> list_all scalar es \<and> clean 32 es"
  using push_all_inv[OF assms(1) filter_inv_new assms(2)] by (auto simp: filter_inv_def)

lemma stream_all_clean:
  assumes "stream_all ds (NewOutputFilter m) = (out, f')" "\<forall>d \<in> set ds. \<exists>rs. list_all scalar rs \<and> d = utf8 rs"
  shows "\<exists>es. out = utf8 es \<and> list_all scalar es \<and> clean 32 es"
proof -
  obtain a f1 e b fb where p: "push_all ds (NewOutputFilter m) = (a, f1)"
      "filter_Flush f1 = ((e, b, fb), f')" "out = a @ e"
    using assms(1) by (auto simp: stream_all_def split: prod.splits)
  obtain seg where s: "a = utf8 seg" "filter_inv 32 f1 seg"
    using push_all_inv[OF p(1) filter_inv_new assms(2)] by fastforce
  have "\<exists>seg'. e = utf8 seg' \<and> filter_inv 32 f' (seg @ seg')"
  proof (cases "f_blocked f1")
    case True
    then show ?thesis using p(2) s(2) by (intro exI[of _ "[]"]) (simp add: filter_Flush_def)
  next
    case False
    then show ?thesis using p(2) s(2) drain_inv by (simp add: filter_Flush_def)
  qed
  then obtain seg' where "e = utf8 seg'" "filter_inv 32 f' (seg @ seg')" by blast
  then show ?thesis using p(3) s(1) by (intro exI[of _ "seg @ seg'"]) (auto simp: filter_inv_def)
qed

end

section \<open>The keyword policy\<close>

text \<open>What the code relies on from the Unicode table: letters of ASCII map as in ASCII, and
  characters map to characters.\<close>

locale unicode_lower =
  fixes lower :: "nat \<Rightarrow> nat"
  assumes lower_ascii: "r < 128 \<Longrightarrow> lower r = of_char (ascii_lower (char_of r))"
    and lower_scalar: "scalar r \<Longrightarrow> scalar (lower r)"
begin

lemma ascii_lower_less: "of_char c < (128::nat) \<Longrightarrow> of_char (ascii_lower c) < (128::nat)"
  by (simp add: ascii_lower_def)

lemma ToLower_utf8:
  assumes "list_all scalar rs"
  shows "ToLower lower (utf8 rs) = utf8 (map lower rs)"
proof (cases "list_all (\<lambda>c. of_char c < (128::nat)) (utf8 rs)")
  case True
  have "map ascii_lower (utf8 rs) = utf8 (map lower rs)"
    using True
  proof (induction rs)
    case (Cons r rs)
    have "r < 128"
    proof (rule ccontr)
      assume "\<not> r < 128"
      then have "\<exists>c \<in> set (encode_rune r). (128::nat) \<le> of_char c"
        by (auto simp: encode_rune_def)
      then show False using Cons.prems unfolding list_all_iff utf8_simps set_append by (metis UnI1 leD)
    qed
    then show ?case
      using Cons ascii_lower_less[of "char_of r"] by (simp add: encode_rune_def lower_ascii)
  qed simp
  then show ?thesis using True by (simp add: ToLower_def)
next
  case False
  then show ?thesis by (simp add: ToLower_def runes_utf8[OF assms])
qed

end

locale keyword_moderator = unicode_lower +
  fixes pm :: policyModerator and banned :: "string list"
  assumes policy: "pm_policy pm = KeywordPolicy_Allowed lower banned"
begin

definition bad_phrases :: "nat list set" where
  "bad_phrases = {ws. list_all scalar ws \<and> utf8 ws \<in> set banned}"

end

sublocale keyword_moderator \<subseteq> phrase_moderator "policy_moderator pm" lower bad_phrases
proof
  fix rs ws
  assume a: "fst (mCheckOutput (policy_moderator pm) (utf8 rs))" and rs: "list_all scalar rs" and ws: "ws \<in> bad_phrases"
  have "KeywordPolicy_Allowed lower banned (utf8 rs)"
    using a policy by (simp add: policy_moderator_def PolicyModerator_CheckOutput_def split: if_splits)
  then have "\<not> contains (utf8 (map lower rs)) (utf8 ws)"
    using ws ToLower_utf8[OF rs] by (auto simp: KeywordPolicy_Allowed_def list_ex_iff bad_phrases_def)
  moreover have "list_all scalar (map lower rs)" using rs lower_scalar by (auto simp: list_all_iff)
  ultimately show "\<not> sublist ws (map lower rs)"
    using contains_utf8_iff[of ws "map lower rs"] ws by (simp add: bad_phrases_def)
qed

context keyword_moderator
begin

lemma clean_banned_free:
  assumes "list_all scalar es" "clean 32 es" "utf8 ws \<in> set banned" "list_all scalar ws" "length ws \<le> 33" "ws \<noteq> []"
  shows "\<not> contains (ToLower lower (utf8 es)) (utf8 ws)"
proof -
  have "ws \<in> bad_phrases" using assms(3,4) by (simp add: bad_phrases_def)
  then have "\<not> sublist ws (map lower es)" using assms(2,5,6) unfolding clean_def by auto
  moreover have "list_all scalar (map lower es)" using assms(1) lower_scalar by (auto simp: list_all_iff)
  ultimately show ?thesis
    using contains_utf8_iff[of ws "map lower es"] assms(4) by (simp add: ToLower_utf8[OF assms(1)])
qed

text \<open>Whether or not the stream got as far as the flush.\<close>

lemma banned_free:
  assumes "out = fst (push_all ds (NewOutputFilter (policy_moderator pm))) \<or>
      out = fst (stream_all ds (NewOutputFilter (policy_moderator pm)))"
    "\<forall>d \<in> set ds. \<exists>rs. list_all scalar rs \<and> d = utf8 rs"
    "utf8 ws \<in> set banned" "list_all scalar ws" "length ws \<le> 33" "ws \<noteq> []"
  shows "\<not> contains (ToLower lower out) (utf8 ws)"
proof -
  obtain es where "out = utf8 es" "list_all scalar es" "clean 32 es"
    using assms(1) push_all_clean[OF prod.collapse[symmetric] assms(2)] stream_all_clean[OF prod.collapse[symmetric] assms(2)] by blast
  then show ?thesis using clean_banned_free[OF _ _ assms(3-6)] by blast
qed

end

text \<open>The table restricted to ASCII meets the contract.\<close>

definition ascii_table :: "nat \<Rightarrow> nat" where
  "ascii_table r = (if r < 128 then of_char (ascii_lower (char_of r)) else r)"

definition ascii_keywords :: "string list \<Rightarrow> policyModerator" where
  "ascii_keywords words = NewPolicyModerator (KeywordPolicy_Allowed ascii_table (NewKeywordPolicy ascii_table words))"

lemma ascii_table_lower: "unicode_lower ascii_table"
proof
  fix r assume "scalar r"
  moreover have "of_char (ascii_lower (char_of r)) < (128::nat)" if "r < 128"
    using that by (simp add: ascii_lower_def)
  ultimately show "scalar (ascii_table r)" by (auto simp: ascii_table_def scalar_def)
qed (simp add: ascii_table_def)

interpretation ascii_keyword: keyword_moderator ascii_table "ascii_keywords words" "NewKeywordPolicy ascii_table words"
  for words
  using ascii_table_lower
  by (simp add: keyword_moderator_def keyword_moderator_axioms_def ascii_keywords_def NewPolicyModerator_def)

text \<open>No banned word gets out. With the keyword policy over any list of words, whatever way the
  upstream splits its text into deltas (each valid UTF-8), the text the filter emits over the whole
  stream does not contain, in any letter case, a banned word of at most 33 runes: not inside a
  segment, not across the boundary of two segments, not across deltas. 33 is the 32 runes of
  overlap plus one.\<close>

theorem no_banned_word_emitted:
  assumes "unicode_lower lower"
    and "pm_policy pm = KeywordPolicy_Allowed lower (NewKeywordPolicy lower words)"
    and "\<forall>d \<in> set ds. \<exists>rs. list_all scalar rs \<and> d = utf8 rs"
    and "stream_all ds (NewOutputFilter (policy_moderator pm)) = (out, f')"
    and "utf8 ws \<in> set (NewKeywordPolicy lower words)" and "list_all scalar ws" and "length ws \<le> 33"
  shows "\<not> contains (ToLower lower out) (utf8 ws)"
proof -
  have k: "keyword_moderator lower pm (NewKeywordPolicy lower words)"
    using assms(1,2) by (simp add: keyword_moderator_def keyword_moderator_axioms_def)
  moreover have "ws \<noteq> []" using assms(5) by (auto simp: NewKeywordPolicy_def)
  ultimately show ?thesis
    using keyword_moderator.banned_free[OF k _ assms(3,5,6,7)] assms(4) by (metis fst_conv)
qed

theorem no_banned_word_emitted_witness:
  "\<not> contains (ToLower ascii_table (fst (stream_all [''a BA'', ''d. x''] (NewOutputFilter (policy_moderator (ascii_keywords [''bad'']))))))
     (utf8 [98, 97, 100])"
proof -
  let ?out = "stream_all [''a BA'', ''d. x''] (NewOutputFilter (policy_moderator (ascii_keywords [''bad''])))"
  have "TrimSpace ''bad'' = ''bad''" by (simp add: TrimSpace_graphic is_graphic_def)
  moreover have u: "utf8 [98, 97, 100] = ''bad''" by code_simp
  ultimately have w: "utf8 [98, 97, 100] \<in> set (NewKeywordPolicy ascii_table [''bad''])"
    by (simp add: NewKeywordPolicy_def ToLower_def ascii_lower_def)
  have "''a BA'' = utf8 [97, 32, 66, 65]" "''d. x'' = utf8 [100, 46, 32, 120]"
    by code_simp+
  moreover have "list_all scalar [97, 32, 66, 65]" "list_all scalar [100, 46, 32, 120]"
    by (simp_all add: scalar_def)
  ultimately have "\<exists>rs. list_all scalar rs \<and> ''a BA'' = utf8 rs" "\<exists>rs. list_all scalar rs \<and> ''d. x'' = utf8 rs"
    by metis+
  then have "\<forall>d \<in> set [''a BA'', ''d. x'']. \<exists>rs. list_all scalar rs \<and> d = utf8 rs" by simp
  then show ?thesis
    using w by (intro no_banned_word_emitted[where words = "[''bad'']" and ds = "[''a BA'', ''d. x'']" and f' = "snd ?out"
          and pm = "ascii_keywords [''bad'']"])
      (simp_all add: ascii_table_lower ascii_keywords_def NewPolicyModerator_def scalar_def)
qed

end
