(* ===== verification/Auth.thy ===== *)
theory Auth
  imports Go_Strings
begin

text \<open>
  \<^verbatim>\<open>internal/session/session.go\<close> and \<^verbatim>\<open>internal/auth/auth.go\<close>: the per-connection session and the
  verification of its first frame. PEM decoding, X.509 parsing and the JWT library are
  parameters; a parse reads the wall clock, so it takes the world state. \<open>jwt_laws\<close>
  states what the code relies on: a parser restricted to valid methods and required expiry accepts
  only tokens of those methods that carry an expiry which has not passed.
\<close>

section \<open>Session\<close>

record session =
  sess_ID :: string
  RemoteAddr :: string
  CreatedAt :: int
  playerID :: string
  authed :: bool

definition session_New :: "string \<Rightarrow> string \<Rightarrow> int \<Rightarrow> session" where
  "session_New i addr now = \<lparr>sess_ID = i, RemoteAddr = addr, CreatedAt = now, playerID = [], authed = False\<rparr>"

definition session_Bind :: "string \<Rightarrow> session \<Rightarrow> session" where
  "session_Bind p s = s\<lparr>playerID := p, authed := True\<rparr>"

section \<open>Keys and their algorithms\<close>

datatype auth_error = ErrInvalidToken string | ErrExpiredToken | AuthErr string

datatype 'k public_key = RSAKey 'k | ECDSAKey 'k | Ed25519Key 'k | OtherKey string 'k

definition parsePublicKey ::
  "(string \<Rightarrow> string option) \<Rightarrow> (string \<Rightarrow> 'k public_key option) \<Rightarrow> (string \<Rightarrow> 'k option) \<Rightarrow> string \<Rightarrow>
   auth_error + 'k public_key" where
  "parsePublicKey pemDecode parsePKIX parsePKCS1 pem =
     (case pemDecode pem of
        None \<Rightarrow> Inl (AuthErr ''auth: AUTH_JWT_PUBKEY is not valid PEM'')
      | Some block \<Rightarrow>
          (case parsePKIX block of
             Some pub \<Rightarrow> Inr pub
           | None \<Rightarrow>
               (case parsePKCS1 block of
                  Some rsaPub \<Rightarrow> Inr (RSAKey rsaPub)
                | None \<Rightarrow> Inl (AuthErr ''auth: AUTH_JWT_PUBKEY is not a supported public key (PKIX or PKCS#1 RSA)''))))"

fun methodsForKey :: "'k public_key \<Rightarrow> auth_error + string list" where
  "methodsForKey (RSAKey _) = Inr [''RS256'', ''RS384'', ''RS512'', ''PS256'', ''PS384'', ''PS512'']"
| "methodsForKey (ECDSAKey _) = Inr [''ES256'', ''ES384'', ''ES512'']"
| "methodsForKey (Ed25519Key _) = Inr [''EdDSA'']"
| "methodsForKey (OtherKey t _) = Inl (AuthErr (''auth: unsupported public key type '' @ t))"

record 'k jwtAuthenticator =
  pubKey :: "'k public_key"
  validMethods :: "string list"

definition auth_New ::
  "(string \<Rightarrow> string option) \<Rightarrow> (string \<Rightarrow> 'k public_key option) \<Rightarrow> (string \<Rightarrow> 'k option) \<Rightarrow> string \<Rightarrow>
   auth_error + 'k jwtAuthenticator" where
  "auth_New pemDecode parsePKIX parsePKCS1 pem =
     (case parsePublicKey pemDecode parsePKIX parsePKCS1 pem of
        Inl e \<Rightarrow> Inl e
      | Inr k \<Rightarrow> (case methodsForKey k of Inl e \<Rightarrow> Inl e | Inr ms \<Rightarrow> Inr \<lparr>pubKey = k, validMethods = ms\<rparr>))"

section \<open>Verification\<close>

text \<open>Outcome of the library's \<open>ParseWithClaims\<close>: an error, told apart by
  \<open>errors.Is(err, jwt.ErrTokenExpired)\<close>, or the \<open>Valid\<close> flag with the \<open>player_id\<close> claim.\<close>

datatype jwt_result = JwtError bool string | JwtToken bool string

type_synonym ('k, 'w) jwt_parse = "string list \<Rightarrow> 'k public_key \<Rightarrow> string \<Rightarrow> 'w \<Rightarrow> jwt_result"

definition auth_Verify ::
  "('k, 'w) jwt_parse \<Rightarrow> 'k jwtAuthenticator \<Rightarrow> string \<Rightarrow> 'w \<Rightarrow> auth_error + string" where
  "auth_Verify parse a token w =
     (case parse (validMethods a) (pubKey a) token w of
        JwtError expired msg \<Rightarrow> if expired then Inl ErrExpiredToken else Inl (ErrInvalidToken msg)
      | JwtToken valid pid \<Rightarrow>
          if \<not> valid then Inl (ErrInvalidToken [])
          else if pid = [] then Inl (ErrInvalidToken ''missing player_id claim'')
          else Inr pid)"

definition BindSession ::
  "(string \<Rightarrow> 'w \<Rightarrow> auth_error + string) \<Rightarrow> string \<Rightarrow> session \<Rightarrow> 'w \<Rightarrow> (bool \<times> string) \<times> session" where
  "BindSession verify token sess w =
     (if token = [] then ((False, ''missing session token''), sess)
      else case verify token w of
        Inl ErrExpiredToken \<Rightarrow> ((False, ''session token expired''), sess)
      | Inl _ \<Rightarrow> ((False, ''invalid session token''), sess)
      | Inr pid \<Rightarrow> ((True, []), session_Bind pid sess))"

section \<open>What authentication guarantees\<close>

text \<open>The JWT library under \<open>WithValidMethods\<close> and \<open>WithExpirationRequired\<close>: \<open>alg\<close> is the algorithm
  in the token's header, \<open>expires\<close> its expiry claim, \<open>sig_ok\<close> that the signature verifies.\<close>

definition jwt_laws ::
  "('k, 'w) jwt_parse \<Rightarrow> (string \<Rightarrow> string) \<Rightarrow> (string \<Rightarrow> int option) \<Rightarrow> ('k public_key \<Rightarrow> string \<Rightarrow> bool) \<Rightarrow>
   ('w \<Rightarrow> int) \<Rightarrow> bool" where
  "jwt_laws parse alg expires sig_ok clock \<longleftrightarrow>
     (\<forall>ms key token w pid. parse ms key token w = JwtToken True pid \<longrightarrow>
        alg token \<in> set ms \<and> (\<exists>t. expires token = Some t \<and> clock w < t) \<and> sig_ok key token)"

lemma methodsForKey_family:
  "methodsForKey k = Inr ms \<Longrightarrow> alg \<in> set ms \<Longrightarrow>
     (case k of RSAKey _ \<Rightarrow> take 2 alg = ''RS'' \<or> take 2 alg = ''PS''
      | ECDSAKey _ \<Rightarrow> take 2 alg = ''ES'' | Ed25519Key _ \<Rightarrow> alg = ''EdDSA'' | OtherKey _ _ \<Rightarrow> False)"
  by (cases k) auto

lemma auth_New_methods:
  "auth_New pd px pc pem = Inr a \<Longrightarrow> methodsForKey (pubKey a) = Inr (validMethods a)"
  by (auto simp: auth_New_def split: sum.splits)

lemma auth_Verify_Inr:
  "auth_Verify parse a token w = Inr pid \<longleftrightarrow>
     parse (validMethods a) (pubKey a) token w = JwtToken True pid \<and> pid \<noteq> []"
  by (auto simp: auth_Verify_def split: jwt_result.splits)


text \<open>A token format of the model: the algorithm, a colon, the player.\<close>

definition sample_parse :: "(unit, int) jwt_parse" where
  "sample_parse ms key token w =
     (case strings_Cut token '':'' of
        None \<Rightarrow> JwtError False ''malformed''
      | Some (a, p) \<Rightarrow> if a \<notin> set ms then JwtError False ''method'' else if 100 \<le> w then JwtError True ''expired''
          else JwtToken True p)"

definition sample_alg :: "string \<Rightarrow> string" where
  "sample_alg token = (case strings_Cut token '':'' of None \<Rightarrow> [] | Some (a, _) \<Rightarrow> a)"

lemma sample_laws: "jwt_laws sample_parse sample_alg (\<lambda>_. Some 100) (\<lambda>_ _. True) (\<lambda>w. w)"
  by (auto simp: jwt_laws_def sample_parse_def sample_alg_def split: option.splits if_splits)


text \<open>Binding a session. A session becomes authenticated only through a non-empty token that the
  authenticator accepts, and is then bound to exactly the player that token names; every failure
  leaves the session untouched and answers one of three fixed reasons that carry nothing of the
  token or of the library's error.\<close>

theorem BindSession_cases:
  "(case BindSession verify token sess w of ((ok, reason), sess') \<Rightarrow>
      if ok then token \<noteq> [] \<and> reason = [] \<and> authed sess' \<and> verify token w = Inr (playerID sess') \<and>
           sess_ID sess' = sess_ID sess
      else sess' = sess \<and> reason \<in> {''missing session token'', ''session token expired'', ''invalid session token''})"
  by (auto simp: BindSession_def session_Bind_def split: sum.splits auth_error.splits)

end
