(* ===== verification/Proto.thy ===== *)
theory Proto
  imports Gateway_Prelude
begin

text \<open>
  \<^verbatim>\<open>api/proto/gateway.pb.go\<close>: the messages of the access protocol and their nil-safe getters, and
  the envelope constructors of \<^verbatim>\<open>internal/listener/envelopes.go\<close> and
  \<^verbatim>\<open>internal/pipeline/handler.go\<close>. A pointer is an \<open>option\<close>, a \<open>oneof\<close> a datatype whose
  constructors are the generated wrapper types. The reflection methods of the generated file and
  the wire format belong to the Protobuf library and are not modelled.
\<close>

type_synonym 'a ptr = "'a option"

section \<open>Client to gateway\<close>

record AuthRequest =
  SessionToken :: string
  AuthPlayerId :: string

record ChatRequest =
  ChatRequestId :: string
  ChatConversationId :: string
  ChatNpcId :: string
  ChatQuery :: string
  ChatContext :: "string \<rightharpoonup> string"

record StopRequest =
  StopRequestId :: string

record ResetRequest =
  ResetRequestId :: string
  ResetNpcId :: string

datatype ClientBody =
    ClientEnvelope_Auth "AuthRequest ptr"
  | ClientEnvelope_Chat "ChatRequest ptr"
  | ClientEnvelope_Stop "StopRequest ptr"
  | ClientEnvelope_Ping
  | ClientEnvelope_Reset "ResetRequest ptr"

record ClientEnvelope =
  ClientBodyField :: "ClientBody option"

definition client_GetBody :: "ClientEnvelope ptr \<Rightarrow> ClientBody option" where
  "client_GetBody x = (case x of None \<Rightarrow> None | Some e \<Rightarrow> ClientBodyField e)"

definition client_GetAuth :: "ClientEnvelope ptr \<Rightarrow> AuthRequest ptr" where
  "client_GetAuth x = (case client_GetBody x of Some (ClientEnvelope_Auth a) \<Rightarrow> a | _ \<Rightarrow> None)"

definition client_GetChat :: "ClientEnvelope ptr \<Rightarrow> ChatRequest ptr" where
  "client_GetChat x = (case client_GetBody x of Some (ClientEnvelope_Chat a) \<Rightarrow> a | _ \<Rightarrow> None)"

definition client_GetStop :: "ClientEnvelope ptr \<Rightarrow> StopRequest ptr" where
  "client_GetStop x = (case client_GetBody x of Some (ClientEnvelope_Stop a) \<Rightarrow> a | _ \<Rightarrow> None)"

definition client_GetReset :: "ClientEnvelope ptr \<Rightarrow> ResetRequest ptr" where
  "client_GetReset x = (case client_GetBody x of Some (ClientEnvelope_Reset a) \<Rightarrow> a | _ \<Rightarrow> None)"

definition auth_GetSessionToken :: "AuthRequest ptr \<Rightarrow> string" where
  "auth_GetSessionToken x = (case x of None \<Rightarrow> [] | Some a \<Rightarrow> SessionToken a)"

definition auth_GetPlayerId :: "AuthRequest ptr \<Rightarrow> string" where
  "auth_GetPlayerId x = (case x of None \<Rightarrow> [] | Some a \<Rightarrow> AuthPlayerId a)"

definition chat_GetRequestId :: "ChatRequest ptr \<Rightarrow> string" where
  "chat_GetRequestId x = (case x of None \<Rightarrow> [] | Some a \<Rightarrow> ChatRequestId a)"

definition chat_GetConversationId :: "ChatRequest ptr \<Rightarrow> string" where
  "chat_GetConversationId x = (case x of None \<Rightarrow> [] | Some a \<Rightarrow> ChatConversationId a)"

definition chat_GetNpcId :: "ChatRequest ptr \<Rightarrow> string" where
  "chat_GetNpcId x = (case x of None \<Rightarrow> [] | Some a \<Rightarrow> ChatNpcId a)"

definition chat_GetQuery :: "ChatRequest ptr \<Rightarrow> string" where
  "chat_GetQuery x = (case x of None \<Rightarrow> [] | Some a \<Rightarrow> ChatQuery a)"

definition chat_GetContext :: "ChatRequest ptr \<Rightarrow> (string \<rightharpoonup> string)" where
  "chat_GetContext x = (case x of None \<Rightarrow> Map.empty | Some a \<Rightarrow> ChatContext a)"

definition stop_GetRequestId :: "StopRequest ptr \<Rightarrow> string" where
  "stop_GetRequestId x = (case x of None \<Rightarrow> [] | Some a \<Rightarrow> StopRequestId a)"

definition reset_GetRequestId :: "ResetRequest ptr \<Rightarrow> string" where
  "reset_GetRequestId x = (case x of None \<Rightarrow> [] | Some a \<Rightarrow> ResetRequestId a)"

definition reset_GetNpcId :: "ResetRequest ptr \<Rightarrow> string" where
  "reset_GetNpcId x = (case x of None \<Rightarrow> [] | Some a \<Rightarrow> ResetNpcId a)"

section \<open>Gateway to client\<close>

datatype AuthResult = AuthResult (ar_Ok: bool) (ar_Reason: string)
datatype ChatChunk = ChatChunk (ck_RequestId: string) (ck_Delta: string)
datatype ChatDone = ChatDone (dn_RequestId: string) (dn_ConversationId: string) (dn_TotalTokens: "32 word")
datatype ErrorMsg = ErrorMsg (em_RequestId: string) (em_Code: string) (em_Message: string)
datatype ChatBlocked = ChatBlocked (bl_RequestId: string) (bl_Fallback: string)

datatype ServerEnvelope =
    ServerEnvelope_AuthResult AuthResult
  | ServerEnvelope_Chunk ChatChunk
  | ServerEnvelope_Done ChatDone
  | ServerEnvelope_Error ErrorMsg
  | ServerEnvelope_Pong
  | ServerEnvelope_Blocked ChatBlocked

section \<open>Constructors\<close>

definition pong :: ServerEnvelope where
  "pong = ServerEnvelope_Pong"

definition authResult :: "bool \<Rightarrow> string \<Rightarrow> ServerEnvelope" where
  "authResult ok reason = ServerEnvelope_AuthResult (AuthResult ok reason)"

definition errorMsg :: "string \<Rightarrow> string \<Rightarrow> string \<Rightarrow> ServerEnvelope" where
  "errorMsg requestID code message = ServerEnvelope_Error (ErrorMsg requestID code message)"

definition chunk :: "string \<Rightarrow> string \<Rightarrow> ServerEnvelope" where
  "chunk requestID delta = ServerEnvelope_Chunk (ChatChunk requestID delta)"

text \<open>\<open>uint32(totalTokens)\<close> keeps the low 32 bits of a Go \<open>int\<close>.\<close>

definition done_envelope :: "string \<Rightarrow> string \<Rightarrow> int \<Rightarrow> ServerEnvelope" where
  "done_envelope requestID conversationID totalTokens =
     (let t = (if totalTokens < 0 then 0 else totalTokens) in
      ServerEnvelope_Done (ChatDone requestID conversationID (word_of_int t)))"

definition blockedEnvelope :: "string \<Rightarrow> string \<Rightarrow> ServerEnvelope" where
  "blockedEnvelope requestID fallback = ServerEnvelope_Blocked (ChatBlocked requestID fallback)"

lemmas envelope_defs =
  pong_def authResult_def errorMsg_def chunk_def done_envelope_def blockedEnvelope_def

text \<open>The request a frame answers, and whether it ends that request.\<close>

fun env_request :: "ServerEnvelope \<Rightarrow> string option" where
  "env_request (ServerEnvelope_Chunk c) = Some (ck_RequestId c)"
| "env_request (ServerEnvelope_Done d) = Some (dn_RequestId d)"
| "env_request (ServerEnvelope_Error e) = Some (em_RequestId e)"
| "env_request (ServerEnvelope_Blocked b) = Some (bl_RequestId b)"
| "env_request _ = None"

fun is_terminal :: "ServerEnvelope \<Rightarrow> bool" where
  "is_terminal (ServerEnvelope_Done _) = True"
| "is_terminal (ServerEnvelope_Error _) = True"
| "is_terminal (ServerEnvelope_Blocked _) = True"
| "is_terminal _ = False"

fun is_chunk :: "ServerEnvelope \<Rightarrow> bool" where
  "is_chunk (ServerEnvelope_Chunk _) = True"
| "is_chunk _ = False"

lemma envelope_kinds [simp]:
  "is_terminal (errorMsg r c m)" "is_terminal (done_envelope r v n)" "is_terminal (blockedEnvelope r f)"
  "\<not> is_terminal (chunk r d)" "is_chunk (chunk r d)"
  "\<not> is_chunk (errorMsg r c m)" "\<not> is_chunk (done_envelope r v n)" "\<not> is_chunk (blockedEnvelope r f)"
  "env_request (errorMsg r c m) = Some r" "env_request (done_envelope r v n) = Some r"
  "env_request (blockedEnvelope r f) = Some r" "env_request (chunk r d) = Some r"
  by (simp_all add: envelope_defs Let_def)

end
