(* ===== verification/Dify.thy ===== *)
theory Dify
  imports Go_Strings
begin

text \<open>
  \<^verbatim>\<open>internal/dify\<close>: the Dify client. \<^verbatim>\<open>types.go\<close> and \<^verbatim>\<open>client.go\<close> (requests, retries, the blocking call),
  \<^verbatim>\<open>sse.go\<close> (the event stream) and \<^verbatim>\<open>api.go\<close> (stop, upload, parameters).

  The HTTP transport, the timer, the response bodies and JSON are the fields of the record \<open>http\<close>, over
  a world state \<open>'w\<close> and a type \<open>'b\<close> of response bodies; \<open>scanLine\<close> is one \<open>Scan\<close> of the line scanner
  over a body. The callbacks of a stream are functions on the world state, so a callback that
  cancels the request changes what later scans return. The retry durations are the arguments
  \<open>base\<close> and \<open>maxB\<close>, package variables in the code.
\<close>

section \<open>Types\<close>

record FileRef =
  fr_Type :: string
  TransferMethod :: string
  UploadFileID :: string

record ChatReq =
  rq_Query :: string
  rq_Inputs :: "(string \<rightharpoonup> string) option"
  rq_User :: string
  rq_ConversationID :: string
  rq_Files :: "FileRef list"
  rq_AutoGenerateName :: "bool option"

record ChatResult =
  res_Answer :: string
  res_ConversationID :: string
  res_MessageID :: string
  res_TotalTokens :: int

definition zeroResult :: ChatResult where
  "zeroResult = \<lparr>res_Answer = [], res_ConversationID = [], res_MessageID = [], res_TotalTokens = 0\<rparr>"

datatype ctx_error = Canceled | DeadlineExceeded

text \<open>Errors; \<open>DifyErr\<close> is any other error, with the context error it wraps, if it wraps one.\<close>

datatype dify_error =
    UpstreamError (ue_Operation: string) (ue_StatusCode: int) (ue_Body: string) (ue_RetryAfter: int)
  | StreamError (se_Code: string) (se_Message: string)
  | MessageReplaceError (mr_Fallback: string)
  | ErrStreamIncomplete
  | CtxErr ctx_error
  | DifyErr string "ctx_error option"

record chatRequestPayload =
  pl_Query :: string
  pl_Inputs :: "(string \<rightharpoonup> string) option"
  pl_User :: string
  pl_ResponseMode :: string
  pl_ConversationID :: string
  pl_Files :: "FileRef list"
  pl_AutoGenerate :: "bool option"

record chatResponsePayload =
  rp_Answer :: string
  rp_ConversationID :: string
  rp_MessageID :: string
  rp_TotalTokens :: int

record sseEvent =
  ev_Event :: string
  ev_TaskID :: string
  ev_MessageID :: string
  ev_ConversationID :: string
  ev_Answer :: string
  ev_Code :: string
  ev_Message :: string
  ev_TotalTokens :: int

record http_request =
  hr_Method :: string
  hr_URL :: string
  hr_Body :: string
  hr_Header :: "(string \<times> string) list"

record 'b http_response =
  StatusCode :: int
  RetryAfterHeader :: string
  Body :: 'b

datatype scan_result = ScanLine string | ScanEOF | ScanErr string "ctx_error option"

record ('w, 'b) http =
  newRequestErr :: "string \<Rightarrow> string \<Rightarrow> string option"
  httpDo :: "http_request \<Rightarrow> 'w \<Rightarrow> ((string \<times> ctx_error option) + 'b http_response) \<times> 'w"
  readLimited :: "nat \<Rightarrow> 'b \<Rightarrow> 'w \<Rightarrow> string \<times> 'w"
  scanLine :: "'b \<Rightarrow> 'w \<Rightarrow> scan_result \<times> 'w"
  sleepTimer :: "int \<Rightarrow> 'w \<Rightarrow> ctx_error option \<times> 'w"
  marshalPayload :: "chatRequestPayload \<Rightarrow> string + string"
  decodeResponse :: "'b \<Rightarrow> 'w \<Rightarrow> (string + chatResponsePayload) \<times> 'w"
  decodeEvent :: "string \<Rightarrow> string + sseEvent"

section \<open>Errors and backoff\<close>

definition UpstreamError_Error :: "string \<Rightarrow> int \<Rightarrow> string \<Rightarrow> string" where
  "UpstreamError_Error op code body =
     (if body = [] then ''Dify '' @ op @ '' returned HTTP '' @ FormatInt code
      else ''Dify '' @ op @ '' returned HTTP '' @ FormatInt code @ '': '' @ body)"

definition StreamError_Error :: "string \<Rightarrow> string \<Rightarrow> string" where
  "StreamError_Error code msg = (if code = [] then msg else code @ '': '' @ msg)"

definition Retryable :: "int \<Rightarrow> bool" where
  "Retryable status \<longleftrightarrow> status = 429 \<or> 500 \<le> status"

text \<open>The loop of \<open>retryBackoff\<close>: \<open>n\<close> iterations left.\<close>

fun backoff_loop :: "int \<Rightarrow> nat \<Rightarrow> int \<Rightarrow> int" where
  "backoff_loop maxB 0 d = (if maxB < d then maxB else d)"
| "backoff_loop maxB (Suc n) d =
     (let d2 = wrap64 (d * 2) in if maxB \<le> d2 then maxB else backoff_loop maxB n d2)"

definition retryBackoff :: "int \<Rightarrow> int \<Rightarrow> int \<Rightarrow> int" where
  "retryBackoff base maxB attempt = backoff_loop maxB (nat (attempt - 1)) base"

definition upstreamRetryBaseBackoff :: int where "upstreamRetryBaseBackoff = 500 * millisecond"
definition upstreamRetryMaxBackoff :: int where "upstreamRetryMaxBackoff = 5 * second"

definition parseRetryAfter :: "string \<Rightarrow> int" where
  "parseRetryAfter header0 =
     (let header = TrimSpace header0 in
      if header = [] then 0
      else case ParseInt header of
        Some secs \<Rightarrow> if 0 \<le> secs then wrap64 (secs * second) else 0
      | None \<Rightarrow> 0)"

section \<open>Requests\<close>

record client =
  baseURL :: string
  apiKey :: string

definition NewClient :: "string \<Rightarrow> string \<Rightarrow> client" where
  "NewClient base key = \<lparr>baseURL = trim_right_char (CHR ''/'') base, apiKey = key\<rparr>"

definition validateChatReq :: "ChatReq \<Rightarrow> dify_error option" where
  "validateChatReq req =
     (if TrimSpace (rq_Query req) = [] then Some (DifyErr ''query is required'' None)
      else if rq_Inputs req = None then Some (DifyErr ''inputs is required'' None)
      else if TrimSpace (rq_User req) = [] then Some (DifyErr ''user is required'' None)
      else None)"

definition doRequest ::
  "('w, 'b) http \<Rightarrow> client \<Rightarrow> string \<Rightarrow> string \<Rightarrow> string \<Rightarrow> string \<Rightarrow> string \<Rightarrow> 'w \<Rightarrow>
   (dify_error + 'b http_response) \<times> 'w" where
  "doRequest H c operation method url body accept w =
     (case newRequestErr H method url of
        Some e \<Rightarrow> (Inl (DifyErr (''create Dify '' @ operation @ '' request: '' @ e) None), w)
      | None \<Rightarrow>
          (case httpDo H \<lparr>hr_Method = method, hr_URL = url, hr_Body = body,
                hr_Header = [(''Authorization'', ''Bearer '' @ apiKey c),
                  (''Content-Type'', ''application/json''), (''Accept'', accept)]\<rparr> w of
             (Inl (e, cause), w1) \<Rightarrow> (Inl (DifyErr (''call Dify '' @ operation @ '': '' @ e) cause), w1)
           | (Inr resp, w1) \<Rightarrow>
               if 200 \<le> StatusCode resp \<and> StatusCode resp < 300 then (Inr resp, w1)
               else (case readLimited H 4096 (Body resp) w1 of
                       (data, w2) \<Rightarrow>
                         (Inl (UpstreamError operation (StatusCode resp) (TrimSpace data)
                                 (parseRetryAfter (RetryAfterHeader resp))), w2))))"

definition maxUpstreamAttempts :: nat where "maxUpstreamAttempts = 3"

text \<open>\<open>doRequestWithRetry\<close> from attempt \<open>attempt\<close> on, with \<open>left\<close> attempts after it.\<close>

fun retry_loop ::
  "('w, 'b) http \<Rightarrow> int \<Rightarrow> int \<Rightarrow> client \<Rightarrow> string \<Rightarrow> string \<Rightarrow> string \<Rightarrow> string \<Rightarrow> string \<Rightarrow> nat \<Rightarrow> nat \<Rightarrow> 'w \<Rightarrow>
   (dify_error + 'b http_response) \<times> 'w" where
  "retry_loop H base maxB c operation method url body accept left attempt w =
     (case doRequest H c operation method url body accept w of
        (Inr resp, w1) \<Rightarrow> (Inr resp, w1)
      | (Inl (UpstreamError op status b ra), w1) \<Rightarrow>
          (case left of
             0 \<Rightarrow> (Inl (UpstreamError op status b ra), w1)
           | Suc left' \<Rightarrow>
               if \<not> Retryable status then (Inl (UpstreamError op status b ra), w1)
               else (let backoff = retryBackoff base maxB (int attempt);
                         wait = (if backoff < ra then ra else backoff)
                     in case sleepTimer H wait w1 of
                          (Some e, w2) \<Rightarrow> (Inl (CtxErr e), w2)
                        | (None, w2) \<Rightarrow>
                            retry_loop H base maxB c operation method url body accept left' (Suc attempt) w2))
      | (Inl e, w1) \<Rightarrow> (Inl e, w1))"

declare retry_loop.simps [simp del]

definition doRequestWithRetry ::
  "('w, 'b) http \<Rightarrow> int \<Rightarrow> int \<Rightarrow> client \<Rightarrow> string \<Rightarrow> string \<Rightarrow> string \<Rightarrow> string \<Rightarrow> string \<Rightarrow> 'w \<Rightarrow>
   (dify_error + 'b http_response) \<times> 'w" where
  "doRequestWithRetry H base maxB c operation method url body accept w =
     retry_loop H base maxB c operation method url body accept (maxUpstreamAttempts - 1) 1 w"

text \<open>The checks and the payload that \<open>Chat\<close> and \<open>ChatStream\<close> share.\<close>

definition prepare_chat ::
  "('w, 'b) http \<Rightarrow> client \<Rightarrow> string \<Rightarrow> string \<Rightarrow> ChatReq \<Rightarrow> dify_error + string" where
  "prepare_chat H c operation mode req =
     (case validateChatReq req of
        Some e \<Rightarrow> Inl e
      | None \<Rightarrow>
          if TrimSpace (baseURL c) = [] then Inl (DifyErr ''dify base URL is required'' None)
          else if TrimSpace (apiKey c) = [] then Inl (DifyErr ''dify API key is required'' None)
          else (case marshalPayload H \<lparr>pl_Query = rq_Query req, pl_Inputs = rq_Inputs req,
                  pl_User = rq_User req, pl_ResponseMode = mode, pl_ConversationID = rq_ConversationID req,
                  pl_Files = rq_Files req, pl_AutoGenerate = rq_AutoGenerateName req\<rparr> of
                  Inl e \<Rightarrow> Inl (DifyErr (''marshal Dify '' @ operation @ '' request: '' @ e) None)
                | Inr body \<Rightarrow> Inr body))"

definition Chat ::
  "('w, 'b) http \<Rightarrow> int \<Rightarrow> int \<Rightarrow> client \<Rightarrow> ChatReq \<Rightarrow> 'w \<Rightarrow> (dify_error + ChatResult) \<times> 'w" where
  "Chat H base maxB c req w =
     (case prepare_chat H c ''chat'' ''blocking'' req of
        Inl e \<Rightarrow> (Inl e, w)
      | Inr body \<Rightarrow>
          (case doRequestWithRetry H base maxB c ''chat'' ''POST'' (baseURL c @ ''/chat-messages'') body ''application/json'' w of
             (Inl e, w1) \<Rightarrow> (Inl e, w1)
           | (Inr resp, w1) \<Rightarrow>
               (case decodeResponse H (Body resp) w1 of
                  (Inl e, w2) \<Rightarrow> (Inl (DifyErr (''decode Dify chat response: '' @ e) None), w2)
                | (Inr d, w2) \<Rightarrow>
                    (Inr \<lparr>res_Answer = rp_Answer d, res_ConversationID = rp_ConversationID d,
                          res_MessageID = rp_MessageID d, res_TotalTokens = rp_TotalTokens d\<rparr>, w2))))"

section \<open>The event stream\<close>

text \<open>One line of the stream: skipped, a payload to decode.\<close>

definition sse_data :: "string \<Rightarrow> string option" where
  "sse_data raw =
     (let line = TrimSpace raw in
      if line = [] \<or> prefix '':'' line then None
      else if \<not> prefix ''data:'' line then None
      else (let data = TrimSpace (drop 5 line) in
            if data = [] \<or> data = ''[DONE]'' then None else Some data))"

text \<open>The effect of one event on the result and the callbacks: go on, or return.\<close>

datatype 's sse_outcome =
    SseMore ChatResult bool 's
  | SseReturn ChatResult "dify_error option" 's

definition sse_event ::
  "(string \<Rightarrow> string \<Rightarrow> 's \<Rightarrow> 's) \<Rightarrow> (string \<Rightarrow> 's \<Rightarrow> 's) \<Rightarrow> sseEvent \<Rightarrow> ChatResult \<Rightarrow> bool \<Rightarrow> 's \<Rightarrow> 's sse_outcome" where
  "sse_event onEvent onDelta ev result notified s =
     (if ev_Event ev = ''message'' \<or> ev_Event ev = ''agent_message'' then
        (let r1 = (if res_ConversationID result = [] then result\<lparr>res_ConversationID := ev_ConversationID ev\<rparr> else result);
             r2 = (if res_MessageID r1 = [] then r1\<lparr>res_MessageID := ev_MessageID ev\<rparr> else r1);
             s1 = (if notified then s else onEvent (ev_TaskID ev) (ev_ConversationID ev) s);
             s2 = (if ev_Answer ev \<noteq> [] then onDelta (ev_Answer ev) s1 else s1)
         in SseMore r2 True s2)
      else if ev_Event ev = ''message_end'' then
        (let r1 = (if ev_ConversationID ev \<noteq> [] then result\<lparr>res_ConversationID := ev_ConversationID ev\<rparr> else result);
             r2 = (if ev_MessageID ev \<noteq> [] then r1\<lparr>res_MessageID := ev_MessageID ev\<rparr> else r1)
         in SseReturn (r2\<lparr>res_TotalTokens := ev_TotalTokens ev\<rparr>) None s)
      else if ev_Event ev = ''message_replace'' then SseReturn result (Some (MessageReplaceError (ev_Answer ev))) s
      else if ev_Event ev = ''error'' then SseReturn result (Some (StreamError (ev_Code ev) (ev_Message ev))) s
      else SseMore result notified s)"

partial_function (option) sse_loop ::
  "('s \<Rightarrow> scan_result \<times> 's) \<Rightarrow> (string \<Rightarrow> string + sseEvent) \<Rightarrow>
   (string \<Rightarrow> string \<Rightarrow> 's \<Rightarrow> 's) \<Rightarrow> (string \<Rightarrow> 's \<Rightarrow> 's) \<Rightarrow> ChatResult \<Rightarrow> bool \<Rightarrow> 's \<Rightarrow>
   ((ChatResult \<times> dify_error option) \<times> 's) option" where
  "sse_loop scan decode onEvent onDelta result notified s =
     (case scan s of
        (ScanErr e cause, s1) \<Rightarrow> Some ((result, Some (DifyErr (''read Dify SSE stream: '' @ e) cause)), s1)
      | (ScanEOF, s1) \<Rightarrow> Some ((result, Some ErrStreamIncomplete), s1)
      | (ScanLine raw, s1) \<Rightarrow>
          (case sse_data raw of
             None \<Rightarrow> sse_loop scan decode onEvent onDelta result notified s1
           | Some data \<Rightarrow>
               (case decode data of
                  Inl e \<Rightarrow> Some ((result, Some (DifyErr (''decode Dify SSE event: '' @ e) None)), s1)
                | Inr ev \<Rightarrow>
                    (case sse_event onEvent onDelta ev result notified s1 of
                       SseReturn r e s2 \<Rightarrow> Some ((r, e), s2)
                     | SseMore r n s2 \<Rightarrow> sse_loop scan decode onEvent onDelta r n s2))))"

declare sse_loop.simps [code]

definition parseSSE ::
  "('s \<Rightarrow> scan_result \<times> 's) \<Rightarrow> (string \<Rightarrow> string + sseEvent) \<Rightarrow>
   (string \<Rightarrow> string \<Rightarrow> 's \<Rightarrow> 's) \<Rightarrow> (string \<Rightarrow> 's \<Rightarrow> 's) \<Rightarrow> 's \<Rightarrow>
   ((ChatResult \<times> dify_error option) \<times> 's) option" where
  "parseSSE scan decode onEvent onDelta s = sse_loop scan decode onEvent onDelta zeroResult False s"

definition ChatStream ::
  "('w, 'b) http \<Rightarrow> int \<Rightarrow> int \<Rightarrow> client \<Rightarrow> ChatReq \<Rightarrow> (string \<Rightarrow> string \<Rightarrow> 'w \<Rightarrow> 'w) \<Rightarrow> (string \<Rightarrow> 'w \<Rightarrow> 'w) \<Rightarrow> 'w \<Rightarrow>
   ((ChatResult \<times> dify_error option) \<times> 'w) option" where
  "ChatStream H base maxB c req onEvent onDelta w =
     (case prepare_chat H c ''stream'' ''streaming'' req of
        Inl e \<Rightarrow> Some ((zeroResult, Some e), w)
      | Inr body \<Rightarrow>
          (case doRequestWithRetry H base maxB c ''stream'' ''POST'' (baseURL c @ ''/chat-messages'') body ''text/event-stream'' w of
             (Inl e, w1) \<Rightarrow> Some ((zeroResult, Some e), w1)
           | (Inr resp, w1) \<Rightarrow> parseSSE (scanLine H (Body resp)) (decodeEvent H) onEvent onDelta w1))"

end
