(* ===== verification/Dify_Props.thy ===== *)
theory Dify_Props
  imports Dify
begin

text \<open>
  What the Dify client guarantees: the exponential backoff, the number of upstream attempts, and the
  exact translation of an event stream into callbacks, result and error. \<open>stream_client\<close> is the
  contract of a streaming client towards its caller, which the pipeline's lemmas rest on: a call
  touches the caller's state only through its callbacks.
\<close>

section \<open>Retries\<close>

lemma backoff_loop_eq:
  "0 < d \<Longrightarrow> 0 < maxB \<Longrightarrow> 2 * maxB \<le> max_int64 \<Longrightarrow> d \<le> maxB \<Longrightarrow> backoff_loop maxB n d = min maxB (d * 2 ^ n)"
proof (induction n arbitrary: d)
  case (Suc n)
  have w: "wrap64 (d * 2) = d * 2"
    using Suc.prems by (intro wrap64_id) (simp add: in_int64_def min_int64_def)
  have pow: "(1::int) \<le> 2 ^ n" by simp
  show ?case
  proof (cases "maxB \<le> d * 2")
    case True
    have "d * 2 * 1 \<le> d * 2 * 2 ^ n" using Suc.prems(1) pow by (intro mult_left_mono) simp_all
    with True have "maxB \<le> d * (2 * 2 ^ n)" by simp
    with True w show ?thesis by simp
  next
    case False
    then show ?thesis using Suc.IH[of "d * 2"] Suc.prems w by (simp add: mult.assoc)
  qed
qed simp

text \<open>The backoff of attempt \<open>n\<close> is \<open>base * 2 ^ (n - 1)\<close> capped at the maximum, with no overflow
  whatever the attempt number; the code's durations are 500 ms doubling up to 5 s.\<close>

theorem retryBackoff_exponential:
  assumes "1 \<le> attempt"
  shows "retryBackoff upstreamRetryBaseBackoff upstreamRetryMaxBackoff attempt =
     min (5 * second) (500 * millisecond * 2 ^ nat (attempt - 1))"
  using backoff_loop_eq[of upstreamRetryBaseBackoff upstreamRetryMaxBackoff "nat (attempt - 1)"]
  by (simp add: retryBackoff_def upstreamRetryBaseBackoff_def upstreamRetryMaxBackoff_def max_int64_def)

theorem retryBackoff_exponential_witness:
  "retryBackoff upstreamRetryBaseBackoff upstreamRetryMaxBackoff 3 = min (5 * second) (500 * millisecond * 4)"
  using retryBackoff_exponential[of 3] by simp

text \<open>A counter of the transport's requests.\<close>

definition counts :: "('w, 'b) http \<Rightarrow> ('w \<Rightarrow> nat) \<Rightarrow> bool" where
  "counts H cnt \<longleftrightarrow>
     (\<forall>rq w r w'. httpDo H rq w = (r, w') \<longrightarrow> cnt w' = Suc (cnt w)) \<and>
     (\<forall>n b w x w'. readLimited H n b w = (x, w') \<longrightarrow> cnt w' = cnt w) \<and>
     (\<forall>d w x w'. sleepTimer H d w = (x, w') \<longrightarrow> cnt w' = cnt w) \<and>
     (\<forall>m u. newRequestErr H m u = None)"

lemma doRequest_counts:
  "counts H cnt \<Longrightarrow> doRequest H c op m u b a w = (r, w') \<Longrightarrow> cnt w' = Suc (cnt w)"
  by (auto simp: counts_def doRequest_def split: prod.splits sum.splits if_splits)

lemma retry_loop_counts:
  "counts H cnt \<Longrightarrow> retry_loop H base maxB c op m u b a left attempt w = (r, w') \<Longrightarrow>
     \<exists>k. cnt w' = cnt w + Suc k \<and> k \<le> left \<and>
       (\<forall>op' st bd ra. r = Inl (UpstreamError op' st bd ra) \<longrightarrow> Retryable st \<longrightarrow> k = left)"
proof (induction left arbitrary: attempt w)
  case 0
  then show ?case
    by (auto simp: retry_loop.simps[of H base maxB c op m u b a 0] split: prod.splits sum.splits dify_error.splits
        dest: doRequest_counts intro!: exI[of _ 0])
next
  case (Suc left)
  obtain r1 w1 where r1: "doRequest H c op m u b a w = (r1, w1)" by (cases "doRequest H c op m u b a w")
  have c1: "cnt w1 = Suc (cnt w)" using doRequest_counts[OF Suc.prems(1) r1] .
  show ?case
  proof (cases "\<exists>op' st bd ra. r1 = Inl (UpstreamError op' st bd ra) \<and> Retryable st")
    case False
    then have "r = r1 \<and> w' = w1"
      using Suc.prems(2) r1 by (auto simp: retry_loop.simps[of H base maxB c op m u b a "Suc left"]
          split: sum.splits dify_error.splits if_splits)
    with False c1 show ?thesis by (intro exI[of _ 0]) auto
  next
    case True
    then obtain op' st bd ra where u: "r1 = Inl (UpstreamError op' st bd ra)" "Retryable st" by blast
    define wait where "wait = (let bk = retryBackoff base maxB (int attempt) in if bk < ra then ra else bk)"
    obtain e w2 where s: "sleepTimer H wait w1 = (e, w2)" by (cases "sleepTimer H wait w1")
    have c2: "cnt w2 = cnt w1" using Suc.prems(1) s by (auto simp: counts_def)
    show ?thesis
    proof (cases e)
      case None
      then have "retry_loop H base maxB c op m u b a left (Suc attempt) w2 = (r, w')"
        using Suc.prems(2) r1 u s
        by (simp add: retry_loop.simps[of H base maxB c op m u b a "Suc left"] wait_def Let_def)
      from Suc.IH[OF Suc.prems(1) this] c1 c2 show ?thesis by fastforce
    next
      case (Some err)
      then have "r = Inl (CtxErr err) \<and> w' = w2"
        using Suc.prems(2) r1 u s
        by (simp add: retry_loop.simps[of H base maxB c op m u b a "Suc left"] wait_def Let_def)
      with c1 c2 show ?thesis by (intro exI[of _ 0]) auto
    qed
  qed
qed


text \<open>A transport that always answers the same status.\<close>

definition fixed_http :: "int \<Rightarrow> (nat, unit) http" where
  "fixed_http st = \<lparr>newRequestErr = (\<lambda>_ _. None),
     httpDo = (\<lambda>_ n. (Inr \<lparr>StatusCode = st, RetryAfterHeader = [], Body = ()\<rparr>, Suc n)),
     readLimited = (\<lambda>_ _ n. ([], n)), scanLine = (\<lambda>_ n. (ScanEOF, n)), sleepTimer = (\<lambda>_ n. (None, n)),
     marshalPayload = (\<lambda>_. Inr []), decodeResponse = (\<lambda>_ n. (Inl [], n)), decodeEvent = (\<lambda>_. Inl [])\<rparr>"


section \<open>Streams\<close>

text \<open>What holds of the state before a stream, and is kept by every scan and every callback, holds
  after it.\<close>

lemma sse_event_keeps:
  assumes "P s" "\<And>t c s. P s \<Longrightarrow> P (onEvent t c s)" "\<And>d s. P s \<Longrightarrow> valid d \<Longrightarrow> P (onDelta d s)" "valid (ev_Answer ev)"
  shows "case sse_event onEvent onDelta ev r n s of SseMore _ _ s' \<Rightarrow> P s' | SseReturn _ _ s' \<Rightarrow> P s'"
  using assms by (simp add: sse_event_def Let_def)

lemma sse_loop_keeps:
  "sse_loop scan decode onEvent onDelta r n s = Some y \<Longrightarrow>
     (\<forall>s x s'. P s \<longrightarrow> scan s = (x, s') \<longrightarrow> P s') \<longrightarrow> (\<forall>t c s. P s \<longrightarrow> P (onEvent t c s)) \<longrightarrow>
     (\<forall>d s. P s \<longrightarrow> valid d \<longrightarrow> P (onDelta d s)) \<longrightarrow> (\<forall>x ev. decode x = Inr ev \<longrightarrow> valid (ev_Answer ev)) \<longrightarrow>
     P s \<longrightarrow> P (snd y)"
proof (induction rule: sse_loop.raw_induct[rotated, consumes 1, case_names step])
  case (step loop scan decode onEvent onDelta r n s y)
  show ?case
  proof (intro impI)
    assume A: "\<forall>s x s'. P s \<longrightarrow> scan s = (x, s') \<longrightarrow> P s'" "\<forall>t c s. P s \<longrightarrow> P (onEvent t c s)"
      "\<forall>d s. P s \<longrightarrow> valid d \<longrightarrow> P (onDelta d s)" "\<forall>x ev. decode x = Inr ev \<longrightarrow> valid (ev_Answer ev)" "P s"
    obtain x s1 where x: "scan s = (x, s1)" by (cases "scan s")
    then have P1: "P s1" using A(1,5) by blast
    note body = step(2)[unfolded x prod.case]
    show "P (snd y)"
    proof (cases x)
      case (ScanLine raw)
      show ?thesis
      proof (cases "sse_data raw")
        case None
        then have "loop scan decode onEvent onDelta r n s1 = Some y" using body ScanLine by simp
        then show ?thesis using step(1) A P1 by blast
      next
        case (Some data)
        show ?thesis
        proof (cases "decode data")
          case (Inl e)
          then show ?thesis using body ScanLine Some P1 by auto
        next
          case (Inr ev)
          have keep: "case sse_event onEvent onDelta ev r n s1 of SseMore _ _ s' \<Rightarrow> P s' | SseReturn _ _ s' \<Rightarrow> P s'"
            using sse_event_keeps[of P s1 onEvent valid onDelta ev r n] A P1 Inr by blast
          show ?thesis
          proof (cases "sse_event onEvent onDelta ev r n s1")
            case (SseMore r' n' s2)
            then have "loop scan decode onEvent onDelta r' n' s2 = Some y" using body ScanLine Some Inr by simp
            moreover have "P s2" using keep SseMore by simp
            ultimately show ?thesis using step(1) A by blast
          next
            case (SseReturn r' e s2)
            then show ?thesis using body ScanLine Some Inr keep by auto
          qed
        qed
      qed
    qed (use body P1 in auto)
  qed
qed

section \<open>The meaning of a stream\<close>

text \<open>A body that delivers its lines and then ends, and callbacks that record their arguments.\<close>

record sink =
  sk_lines :: "string list"
  sk_events :: "(string \<times> string) list"
  sk_deltas :: "string list"

definition sink_scan :: "scan_result \<Rightarrow> sink \<Rightarrow> scan_result \<times> sink" where
  "sink_scan fin s = (case sk_lines s of [] \<Rightarrow> (fin, s) | l # ls \<Rightarrow> (ScanLine l, s\<lparr>sk_lines := ls\<rparr>))"

definition sink_event :: "string \<Rightarrow> string \<Rightarrow> sink \<Rightarrow> sink" where
  "sink_event t c s = s\<lparr>sk_events := sk_events s @ [(t, c)]\<rparr>"

definition sink_delta :: "string \<Rightarrow> sink \<Rightarrow> sink" where
  "sink_delta d s = s\<lparr>sk_deltas := sk_deltas s @ [d]\<rparr>"

text \<open>The decoded payloads of a stream, and which of them end it.\<close>

definition payloads :: "(string \<Rightarrow> string + sseEvent) \<Rightarrow> string list \<Rightarrow> (string + sseEvent) list" where
  "payloads decode ls = map decode (List.map_filter sse_data ls)"

fun ends_stream :: "string + sseEvent \<Rightarrow> bool" where
  "ends_stream (Inl e) = True"
| "ends_stream (Inr ev) = (ev_Event ev = ''message_end'' \<or> ev_Event ev = ''message_replace'' \<or> ev_Event ev = ''error'')"

definition messages :: "(string + sseEvent) list \<Rightarrow> sseEvent list" where
  "messages xs = List.map_filter (\<lambda>x. case x of Inr ev \<Rightarrow>
     if ev_Event ev = ''message'' \<or> ev_Event ev = ''agent_message'' then Some ev else None | Inl _ \<Rightarrow> None) xs"

definition first_nonempty :: "string list \<Rightarrow> string" where
  "first_nonempty xs = (case find (\<lambda>x. x \<noteq> []) xs of None \<Rightarrow> [] | Some x \<Rightarrow> x)"

text \<open>The error and the result a stream should give, from the payload that ended it.\<close>

definition stream_error :: "scan_result \<Rightarrow> (string + sseEvent) list \<Rightarrow> dify_error option" where
  "stream_error fin rest =
     (case rest of
        Inl e # _ \<Rightarrow> Some (DifyErr (''decode Dify SSE event: '' @ e) None)
      | Inr ev # _ \<Rightarrow>
          if ev_Event ev = ''message_end'' then None
          else if ev_Event ev = ''message_replace'' then Some (MessageReplaceError (ev_Answer ev))
          else Some (StreamError (ev_Code ev) (ev_Message ev))
      | [] \<Rightarrow> (case fin of ScanErr e cause \<Rightarrow> Some (DifyErr (''read Dify SSE stream: '' @ e) cause)
                | _ \<Rightarrow> Some ErrStreamIncomplete))"

definition final_ids :: "(string + sseEvent) list \<Rightarrow> string \<Rightarrow> (sseEvent \<Rightarrow> string) \<Rightarrow> string" where
  "final_ids rest seen field =
     (case rest of Inr ev # _ \<Rightarrow> if ev_Event ev = ''message_end'' \<and> field ev \<noteq> [] then field ev else seen | _ \<Rightarrow> seen)"

definition final_tokens :: "(string + sseEvent) list \<Rightarrow> int" where
  "final_tokens rest = (case rest of Inr ev # _ \<Rightarrow> if ev_Event ev = ''message_end'' then ev_TotalTokens ev else 0 | _ \<Rightarrow> 0)"

lemma first_nonempty_Cons: "first_nonempty (x # xs) = (if x = [] then first_nonempty xs else x)"
  by (simp add: first_nonempty_def)

lemma messages_Cons:
  "messages (Inl e # xs) = messages xs"
  "messages (Inr ev # xs) = (if ev_Event ev = ''message'' \<or> ev_Event ev = ''agent_message'' then [ev] else []) @ messages xs"
  by (auto simp: messages_def map_filter_simps)

lemma payloads_Cons:
  "payloads decode (l # ls) = (case sse_data l of None \<Rightarrow> payloads decode ls | Some d \<Rightarrow> decode d # payloads decode ls)"
  by (simp add: payloads_def map_filter_simps split: option.splits)

text \<open>What a stream of payloads \<open>xs\<close> does to the caller, from result \<open>r\<close> and state \<open>s\<close>.\<close>

definition stream_spec ::
  "scan_result \<Rightarrow> (string + sseEvent) list \<Rightarrow> ChatResult \<Rightarrow> bool \<Rightarrow> sink \<Rightarrow> (ChatResult \<times> dify_error option) \<times> sink \<Rightarrow> bool" where
  "stream_spec fin xs r n s y \<longleftrightarrow>
     (let body = messages (takeWhile (Not \<circ> ends_stream) xs); rest = dropWhile (Not \<circ> ends_stream) xs in
      snd (fst y) = stream_error fin rest \<and>
      sk_deltas (snd y) = sk_deltas s @ filter (\<lambda>d. d \<noteq> []) (map ev_Answer body) \<and>
      sk_events (snd y) = sk_events s @ (if n then [] else map (\<lambda>ev. (ev_TaskID ev, ev_ConversationID ev)) (take 1 body)) \<and>
      res_ConversationID (fst (fst y)) =
        final_ids rest (first_nonempty (res_ConversationID r # map ev_ConversationID body)) ev_ConversationID \<and>
      (res_TotalTokens r = 0 \<longrightarrow> res_TotalTokens (fst (fst y)) = final_tokens rest))"

lemma stream_spec_end:
  "sk_deltas s' = sk_deltas s \<Longrightarrow> sk_events s' = sk_events s \<Longrightarrow> stream_spec fin [] r n s ((r, stream_error fin []), s')"
  by (simp add: stream_spec_def messages_def map_filter_simps final_ids_def final_tokens_def first_nonempty_def)

lemma stream_spec_fail:
  "sk_deltas s' = sk_deltas s \<Longrightarrow> sk_events s' = sk_events s \<Longrightarrow>
   stream_spec fin (Inl e # xs) r n s ((r, Some (DifyErr (''decode Dify SSE event: '' @ e) None)), s')"
  by (simp add: stream_spec_def stream_error_def messages_def map_filter_simps final_ids_def final_tokens_def
      first_nonempty_def)

lemma stream_spec_return:
  assumes "ends_stream (Inr ev)" "sse_event sink_event sink_delta ev r n s' = SseReturn r' e s2"
    "sk_deltas s' = sk_deltas s" "sk_events s' = sk_events s"
  shows "stream_spec fin (Inr ev # xs) r n s ((r', e), s2)"
  using assms
  by (auto simp: stream_spec_def stream_error_def messages_def map_filter_simps final_ids_def final_tokens_def
      first_nonempty_def sse_event_def Let_def)

lemma stream_spec_other:
  assumes "\<not> ends_stream (Inr ev)" "\<not> (ev_Event ev = ''message'' \<or> ev_Event ev = ''agent_message'')"
    "stream_spec fin xs r n s y"
  shows "stream_spec fin (Inr ev # xs) r n s y"
  using assms by (simp add: stream_spec_def messages_Cons)

lemma stream_spec_message:
  assumes "\<not> ends_stream (Inr ev)" "ev_Event ev = ''message'' \<or> ev_Event ev = ''agent_message''"
    "stream_spec fin xs r2 True s2 y"
    "sk_deltas s2 = sk_deltas s @ (if ev_Answer ev = [] then [] else [ev_Answer ev])"
    "sk_events s2 = sk_events s @ (if n then [] else [(ev_TaskID ev, ev_ConversationID ev)])"
    "res_ConversationID r2 = (if res_ConversationID r = [] then ev_ConversationID ev else res_ConversationID r)"
    "res_TotalTokens r2 = res_TotalTokens r"
  shows "stream_spec fin (Inr ev # xs) r n s y"
proof -
  have "first_nonempty (res_ConversationID r2 # zs) = first_nonempty (res_ConversationID r # ev_ConversationID ev # zs)" for zs
    using assms(6) by (simp add: first_nonempty_Cons)
  then show ?thesis
    using assms(1,2,3,4,5,7) unfolding stream_spec_def Let_def by (simp add: messages_Cons)
qed

lemma sse_event_return: "ends_stream (Inr ev) \<Longrightarrow> \<exists>r' e' s'. sse_event oe od ev r n s = SseReturn r' e' s'"
  by (auto simp: sse_event_def Let_def)

lemma sse_event_message:
  assumes "ev_Event ev = ''message'' \<or> ev_Event ev = ''agent_message''"
  shows "\<exists>r2 s2. sse_event sink_event sink_delta ev r n s = SseMore r2 True s2 \<and> sk_lines s2 = sk_lines s \<and>
     sk_deltas s2 = sk_deltas s @ (if ev_Answer ev = [] then [] else [ev_Answer ev]) \<and>
     sk_events s2 = sk_events s @ (if n then [] else [(ev_TaskID ev, ev_ConversationID ev)]) \<and>
     res_ConversationID r2 = (if res_ConversationID r = [] then ev_ConversationID ev else res_ConversationID r) \<and>
     res_TotalTokens r2 = res_TotalTokens r"
  using assms by (auto simp: sse_event_def Let_def sink_event_def sink_delta_def)

lemma sse_loop_sink_event:
  assumes scan: "sink_scan fin s = (ScanLine l, s\<lparr>sk_lines := ls\<rparr>)" and l: "sse_data l = Some d" "decode d = Inr ev"
    and IH: "\<And>r n s1. sk_lines s1 = ls \<Longrightarrow>
      \<exists>y. sse_loop (sink_scan fin) decode sink_event sink_delta r n s1 = Some y \<and> stream_spec fin (payloads decode ls) r n s1 y"
  shows "\<exists>y. sse_loop (sink_scan fin) decode sink_event sink_delta r n s = Some y \<and> stream_spec fin (Inr ev # payloads decode ls) r n s y"
proof -
  let ?s = "s\<lparr>sk_lines := ls\<rparr>" and ?loop = "sse_loop (sink_scan fin) decode sink_event sink_delta"
  consider (stop) "ends_stream (Inr ev)"
    | (message) "\<not> ends_stream (Inr ev)" "ev_Event ev = ''message'' \<or> ev_Event ev = ''agent_message''"
    | (other) "\<not> ends_stream (Inr ev)" "\<not> (ev_Event ev = ''message'' \<or> ev_Event ev = ''agent_message'')"
    by blast
  then show ?thesis
  proof cases
    case stop
    obtain r' e' s' where o: "sse_event sink_event sink_delta ev r n ?s = SseReturn r' e' s'"
      using sse_event_return[OF stop, of sink_event sink_delta r n ?s] by blast
    then have "?loop r n s = Some ((r', e'), s')" by (subst sse_loop.simps) (simp add: scan l)
    then show ?thesis using stream_spec_return[OF stop o, of s fin "payloads decode ls"] by simp
  next
    case message
    obtain r2 s2 where o: "sse_event sink_event sink_delta ev r n ?s = SseMore r2 True s2" "sk_lines s2 = ls"
      "sk_deltas s2 = sk_deltas s @ (if ev_Answer ev = [] then [] else [ev_Answer ev])"
      "sk_events s2 = sk_events s @ (if n then [] else [(ev_TaskID ev, ev_ConversationID ev)])"
      "res_ConversationID r2 = (if res_ConversationID r = [] then ev_ConversationID ev else res_ConversationID r)"
      "res_TotalTokens r2 = res_TotalTokens r"
      using sse_event_message[OF message(2), of r n ?s] by auto
    have "?loop r n s = ?loop r2 True s2" by (subst sse_loop.simps) (simp add: scan l o(1))
    then show ?thesis using IH[OF o(2), of r2 True] stream_spec_message[OF message _ o(3-6)] by auto
  next
    case other
    have o: "sse_event sink_event sink_delta ev r n ?s = SseMore r n ?s" using other by (auto simp: sse_event_def)
    have "?loop r n s = ?loop r n ?s" by (subst sse_loop.simps) (simp add: scan l o)
    moreover have "stream_spec fin xs r n ?s y \<Longrightarrow> stream_spec fin xs r n s y" for xs y by (simp add: stream_spec_def)
    ultimately show ?thesis using IH[of ?s r n] stream_spec_other[OF other] by auto
  qed
qed

lemma sse_loop_sink:
  assumes fin: "\<And>l. fin \<noteq> ScanLine l"
  shows "\<exists>y. sse_loop (sink_scan fin) decode sink_event sink_delta r n s = Some y \<and>
     stream_spec fin (payloads decode (sk_lines s)) r n s y"
proof (induction "sk_lines s" arbitrary: s r n)
  case Nil
  then have scan: "sink_scan fin s = (fin, s)" by (simp add: sink_scan_def split: list.splits)
  have p: "payloads decode (sk_lines s) = []" using Nil by (simp add: payloads_def map_filter_simps)
  have "sse_loop (sink_scan fin) decode sink_event sink_delta r n s = Some ((r, stream_error fin []), s)"
    using fin by (subst sse_loop.simps) (auto simp: scan stream_error_def split: scan_result.splits)
  with p show ?case using stream_spec_end by metis
next
  case (Cons l ls)
  let ?s = "s\<lparr>sk_lines := ls\<rparr>" and ?loop = "sse_loop (sink_scan fin) decode sink_event sink_delta"
  have scan: "sink_scan fin s = (ScanLine l, ?s)" by (simp add: sink_scan_def flip: Cons(2))
  have same: "stream_spec fin xs r n ?s y \<Longrightarrow> stream_spec fin xs r n s y" for xs r n y by (simp add: stream_spec_def)
  have IH: "\<exists>y. ?loop r n s1 = Some y \<and> stream_spec fin (payloads decode ls) r n s1 y" if "sk_lines s1 = ls" for r n s1
    using Cons(1)[OF that[symmetric], of r n] that by simp
  show ?case
  proof (cases "sse_data l")
    case None
    then have "?loop r n s = ?loop r n ?s" by (subst sse_loop.simps) (simp add: scan)
    moreover have "payloads decode (sk_lines s) = payloads decode ls" using None by (simp add: payloads_Cons flip: Cons(2))
    ultimately show ?thesis using IH[of ?s r n] same by auto
  next
    case (Some d)
    have p: "payloads decode (sk_lines s) = decode d # payloads decode ls"
      using Some by (simp add: payloads_Cons flip: Cons(2))
    show ?thesis
    proof (cases "decode d")
      case (Inl e)
      then have "?loop r n s = Some ((r, Some (DifyErr (''decode Dify SSE event: '' @ e) None)), ?s)"
        by (subst sse_loop.simps) (simp add: scan Some)
      then show ?thesis unfolding p Inl using stream_spec_fail[of ?s s fin e "payloads decode ls" r n] by auto
    next
      case (Inr ev)
      show ?thesis unfolding p Inr by (rule sse_loop_sink_event[where l = l and d = d, OF scan Some Inr IH])
    qed
  qed
qed



section \<open>The contract of a streaming client\<close>

text \<open>\<open>ext\<close> says how the outside world may move the state, \<open>valid\<close> what texts the decoder produces;
  whatever outside moves and both callbacks keep, a stream keeps.\<close>

locale stream_client =
  fixes stream :: "ChatReq \<Rightarrow> (string \<Rightarrow> string \<Rightarrow> 's \<Rightarrow> 's) \<Rightarrow> (string \<Rightarrow> 's \<Rightarrow> 's) \<Rightarrow> 's \<Rightarrow>
      ((ChatResult \<times> dify_error option) \<times> 's) option"
    and ext :: "'s \<Rightarrow> 's \<Rightarrow> bool"
    and valid :: "string \<Rightarrow> bool"
  assumes stream_keeps: "stream req onEvent onDelta s = Some (r, s') \<Longrightarrow>
      (\<And>s s'. P s \<Longrightarrow> ext s s' \<Longrightarrow> P s') \<Longrightarrow> (\<And>t c s. P s \<Longrightarrow> P (onEvent t c s)) \<Longrightarrow>
      (\<And>d s. P s \<Longrightarrow> valid d \<Longrightarrow> P (onDelta d s)) \<Longrightarrow> P s \<Longrightarrow> P s'"

text \<open>A transport that moves the state only outside.\<close>

definition outside_only :: "('s, 'b) http \<Rightarrow> ('s \<Rightarrow> 's \<Rightarrow> bool) \<Rightarrow> bool" where
  "outside_only H ext \<longleftrightarrow> (\<forall>s. ext s s) \<and>
     (\<forall>rq s r s'. httpDo H rq s = (r, s') \<longrightarrow> ext s s') \<and> (\<forall>n b s x s'. readLimited H n b s = (x, s') \<longrightarrow> ext s s') \<and>
     (\<forall>d s x s'. sleepTimer H d s = (x, s') \<longrightarrow> ext s s') \<and> (\<forall>b s x s'. scanLine H b s = (x, s') \<longrightarrow> ext s s')"

lemma doRequest_keeps:
  assumes "outside_only H ext" "\<And>s s'. P s \<Longrightarrow> ext s s' \<Longrightarrow> P s'" "P s" "doRequest H c op m u b a s = (r, s')"
  shows "P s'"
proof -
  have "P s2" if "httpDo H rq s1 = (x, s2)" "P s1" for rq s1 x s2 using assms(1,2) that unfolding outside_only_def by blast
  moreover have "P s2" if "readLimited H n bd s1 = (x, s2)" "P s1" for n bd s1 x s2 using assms(1,2) that unfolding outside_only_def by blast
  ultimately show ?thesis
    using assms(3,4) by (auto simp: doRequest_def split: option.splits prod.splits sum.splits if_splits)
qed

lemma retry_loop_keeps:
  assumes H: "outside_only H ext" and ext: "\<And>s s'. P s \<Longrightarrow> ext s s' \<Longrightarrow> P s'"
  shows "P s \<Longrightarrow> retry_loop H base maxB c op m u b a left attempt s = (r, s') \<Longrightarrow> P s'"
proof (induction left arbitrary: attempt s)
  case 0
  obtain r1 s1 where r1: "doRequest H c op m u b a s = (r1, s1)" by (cases "doRequest H c op m u b a s")
  have "P s1" using doRequest_keeps[where P = P] H ext 0(1) r1 by blast
  moreover have "s' = s1" using 0(2) r1
    by (auto simp: retry_loop.simps[of H base maxB c op m u b a 0] split: sum.splits dify_error.splits)
  ultimately show ?case by simp
next
  case (Suc left)
  obtain r1 s1 where r1: "doRequest H c op m u b a s = (r1, s1)" by (cases "doRequest H c op m u b a s")
  have P1: "P s1" using doRequest_keeps[where P = P] H ext Suc.prems(1) r1 by blast
  have P2: "P s2" if "sleepTimer H d s1 = (x, s2)" for d x s2
    using H ext P1 that unfolding outside_only_def by blast
  show ?case
    using Suc.prems(2) r1 P1 P2 Suc.IH
    by (auto simp: retry_loop.simps[of H base maxB c op m u b a "Suc left"] Let_def
        split: sum.splits dify_error.splits if_splits prod.splits option.splits) metis+
qed

lemma ChatStream_contract:
  assumes H: "outside_only H ext" and valid: "\<forall>x ev. decodeEvent H x = Inr ev \<longrightarrow> valid (ev_Answer ev)"
  shows "stream_client (ChatStream H base maxB c) ext valid"
proof
  fix req onEvent onDelta s r s' P
  assume st: "ChatStream H base maxB c req onEvent onDelta s = Some (r, s')"
    and ext: "\<And>s s'. P s \<Longrightarrow> ext s s' \<Longrightarrow> P s'"
    and oe: "\<And>t c s. P s \<Longrightarrow> P (onEvent t c s)" and od: "\<And>d s. P s \<Longrightarrow> valid d \<Longrightarrow> P (onDelta d s)" and P: "P s"
  have scan: "P s2" if "scanLine H b s1 = (x, s2)" "P s1" for b s1 x s2
    using H ext that unfolding outside_only_def by blast
  show "P s'"
  proof (cases "prepare_chat H c ''stream'' ''streaming'' req")
    case (Inl e)
    then show ?thesis using st P by (simp add: ChatStream_def)
  next
    case (Inr body)
    obtain r1 s1 where r1: "doRequestWithRetry H base maxB c ''stream'' ''POST'' (baseURL c @ ''/chat-messages'') body ''text/event-stream'' s = (r1, s1)"
      by (cases "doRequestWithRetry H base maxB c ''stream'' ''POST'' (baseURL c @ ''/chat-messages'') body ''text/event-stream'' s")
    have P1: "P s1"
      using retry_loop_keeps[where P = P, OF H] ext P r1 unfolding doRequestWithRetry_def by blast
    show ?thesis
    proof (cases r1)
      case (Inl e)
      then show ?thesis using st P1 Inr r1 by (simp add: ChatStream_def)
    next
      case resp: (Inr resp)
      then have "sse_loop (scanLine H (Body resp)) (decodeEvent H) onEvent onDelta zeroResult False s1 = Some (r, s')"
        using st Inr r1 by (simp add: ChatStream_def parseSSE_def)
      from sse_loop_keeps[OF this, of P valid] scan oe od valid P1 show ?thesis by auto
    qed
  qed
qed

section \<open>A stream that ends\<close>

text \<open>\<open>m\<close> bounds the lines still to come: each line read lowers it and the callbacks do not raise it.\<close>

lemma sse_loop_returns:
  fixes m :: "'s \<Rightarrow> nat"
  assumes scan: "\<And>s l s'. scan s = (ScanLine l, s') \<Longrightarrow> m s' < m s"
    and oe: "\<And>t c s. m (onEvent t c s) \<le> m s" and od: "\<And>d s. m (onDelta d s) \<le> m s"
  shows "sse_loop scan decode onEvent onDelta r n s \<noteq> None"
proof (induction "m s" arbitrary: s r n rule: less_induct)
  case less
  obtain x s1 where x: "scan s = (x, s1)" by (cases "scan s")
  show ?case
  proof (cases x)
    case (ScanLine raw)
    then have lt: "m s1 < m s" using scan x by simp
    show ?thesis
    proof (cases "sse_data raw")
      case None
      then show ?thesis using less lt by (subst sse_loop.simps) (simp add: x ScanLine)
    next
      case (Some data)
      show ?thesis
      proof (cases "decode data")
        case (Inl e)
        then show ?thesis by (subst sse_loop.simps) (simp add: x ScanLine Some)
      next
        case (Inr ev)
        have "case sse_event onEvent onDelta ev r n s1 of SseMore _ _ s' \<Rightarrow> m s' < m s | SseReturn _ _ s' \<Rightarrow> m s' < m s"
          by (rule sse_event_keeps[where valid = "\<lambda>_. True"]) (use lt oe od le_less_trans in blast)+
        then show ?thesis
          using less by (subst sse_loop.simps) (auto simp: x ScanLine Some Inr split: sse_outcome.splits)
      qed
    qed
  qed (subst sse_loop.simps, simp add: x)+
qed

lemma ChatStream_returns:
  fixes m :: "'s \<Rightarrow> nat"
  assumes "\<And>b s l s'. scanLine H b s = (ScanLine l, s') \<Longrightarrow> m s' < m s"
    and "\<And>t c s. m (onEvent t c s) \<le> m s" and "\<And>d s. m (onDelta d s) \<le> m s"
  shows "ChatStream H base maxB c req onEvent onDelta s \<noteq> None"
  using sse_loop_returns[of "scanLine H _" m onEvent onDelta] assms
  by (auto simp: ChatStream_def parseSSE_def split: sum.splits prod.splits)

end
