(* ===== verification/Dify_Api.thy ===== *)
theory Dify_Api
  imports Dify_Props
begin

text \<open>
  \<^verbatim>\<open>internal/dify/api.go\<close> (stop, upload, parameters) and \<^verbatim>\<open>internal/gateway/dify_router.go\<close> (the choice of
  the Dify application by npc). The MIME table, URL escaping, the multipart writer and the JSON
  encodings are arguments. The map iteration order of Go is unspecified; \<open>toParameters\<close> takes the
  order in which each wrapped item is visited as its list order.
\<close>

section \<open>Stop, upload, parameters\<close>

definition readErrorBody :: "('w, 'b) http \<Rightarrow> 'b \<Rightarrow> 'w \<Rightarrow> string \<times> 'w" where
  "readErrorBody H b w = (case readLimited H 4096 b w of (data, w1) \<Rightarrow> (TrimSpace data, w1))"

text \<open>Send a request and accept only a 2xx answer, the part the three calls share.\<close>

definition call_api ::
  "('w, 'b) http \<Rightarrow> string \<Rightarrow> http_request \<Rightarrow> 'w \<Rightarrow> (dify_error + 'b http_response) \<times> 'w" where
  "call_api H name rq w =
     (case newRequestErr H (hr_Method rq) (hr_URL rq) of
        Some e \<Rightarrow> (Inl (DifyErr (''create Dify '' @ name @ '' request: '' @ e) None), w)
      | None \<Rightarrow>
          (case httpDo H rq w of
             (Inl (e, cause), w1) \<Rightarrow> (Inl (DifyErr (''call Dify '' @ name @ '': '' @ e) cause), w1)
           | (Inr resp, w1) \<Rightarrow>
               if StatusCode resp < 200 \<or> 300 \<le> StatusCode resp
               then (case readErrorBody H (Body resp) w1 of (msg, w2) \<Rightarrow>
                       (Inl (DifyErr (''Dify '' @ name @ '' returned HTTP '' @ FormatInt (StatusCode resp) @ '': '' @ msg) None), w2))
               else (Inr resp, w1)))"

definition dify_Stop ::
  "('w, 'b) http \<Rightarrow> (string \<Rightarrow> string + string) \<Rightarrow> (string \<Rightarrow> string) \<Rightarrow> client \<Rightarrow> string \<Rightarrow> string \<Rightarrow> 'w \<Rightarrow>
   dify_error option \<times> 'w" where
  "dify_Stop H marshalUser pathEscape c taskID user w =
     (if TrimSpace taskID = [] then (Some (DifyErr ''task ID is required'' None), w)
      else if TrimSpace user = [] then (Some (DifyErr ''user is required'' None), w)
      else case marshalUser user of
        Inl e \<Rightarrow> (Some (DifyErr (''marshal Dify stop request: '' @ e) None), w)
      | Inr body \<Rightarrow>
          (case call_api H ''stop'' \<lparr>hr_Method = ''POST'',
                  hr_URL = baseURL c @ ''/chat-messages/'' @ pathEscape taskID @ ''/stop'', hr_Body = body,
                  hr_Header = [(''Authorization'', ''Bearer '' @ apiKey c), (''Content-Type'', ''application/json'')]\<rparr> w of
             (Inl e, w1) \<Rightarrow> (Some e, w1)
           | (Inr _, w1) \<Rightarrow> (None, w1)))"

record UploadFileReq =
  up_User :: string
  up_Filename :: string
  up_Reader :: "string option"
  up_ContentType :: string

record UploadFileResult =
  uf_ID :: string
  uf_Name :: string
  uf_Size :: int

text \<open>\<open>filepath.Ext\<close>: the suffix from the last dot of the last path element.\<close>

definition file_ext :: "string \<Rightarrow> string" where
  "file_ext name =
     (let tail = rev (takeWhile (\<lambda>c. c \<noteq> CHR ''/'') (rev name)) in
      case last_index (CHR ''.'') tail of None \<Rightarrow> [] | Some i \<Rightarrow> drop i tail)"

definition fileContentType :: "(string \<Rightarrow> string) \<Rightarrow> UploadFileReq \<Rightarrow> string" where
  "fileContentType typeByExtension req =
     (let ct = TrimSpace (up_ContentType req) in
      if ct \<noteq> [] then ct
      else (let ct2 = typeByExtension (file_ext (up_Filename req)) in
            if ct2 \<noteq> [] then ct2 else ''application/octet-stream''))"

text \<open>\<open>multipart\<close> renders the form (user, filename, content type, content) to a content type and a
  body, or fails.\<close>

definition UploadFile ::
  "('w, 'b) http \<Rightarrow> (string \<Rightarrow> string) \<Rightarrow> (string \<Rightarrow> string \<Rightarrow> string \<Rightarrow> string \<Rightarrow> string + string \<times> string) \<Rightarrow>
   ('b \<Rightarrow> 'w \<Rightarrow> (string + UploadFileResult) \<times> 'w) \<Rightarrow> client \<Rightarrow> UploadFileReq \<Rightarrow> 'w \<Rightarrow> (dify_error + UploadFileResult) \<times> 'w" where
  "UploadFile H typeByExtension multipart decode c req w =
     (if TrimSpace (up_User req) = [] then (Inl (DifyErr ''user is required'' None), w)
      else if TrimSpace (up_Filename req) = [] then (Inl (DifyErr ''filename is required'' None), w)
      else case up_Reader req of
        None \<Rightarrow> (Inl (DifyErr ''file reader is required'' None), w)
      | Some content \<Rightarrow>
          (case multipart (up_User req) (up_Filename req) (fileContentType typeByExtension req) content of
             Inl e \<Rightarrow> (Inl (DifyErr e None), w)
           | Inr (formType, body) \<Rightarrow>
               (case call_api H ''upload'' \<lparr>hr_Method = ''POST'', hr_URL = baseURL c @ ''/files/upload'', hr_Body = body,
                       hr_Header = [(''Authorization'', ''Bearer '' @ apiKey c), (''Content-Type'', formType),
                         (''Accept'', ''application/json'')]\<rparr> w of
                  (Inl e, w1) \<Rightarrow> (Inl e, w1)
                | (Inr resp, w1) \<Rightarrow>
                    (case decode (Body resp) w1 of
                       (Inl e, w2) \<Rightarrow> (Inl (DifyErr (''decode Dify upload response: '' @ e) None), w2)
                     | (Inr res, w2) \<Rightarrow> (Inr res, w2)))))"

record parameterFormItem =
  pf_Label :: string
  pf_Variable :: string
  pf_Required :: bool
  pf_Default :: string

record ParameterFormItem =
  pi_Type :: string
  pi_Label :: string
  pi_Variable :: string
  pi_Required :: bool
  pi_Default :: string

record FileUploadConfig =
  fu_Enabled :: bool
  fu_NumberLimits :: int

record parametersPayload =
  pp_UserInputForm :: "(string \<times> parameterFormItem) list list"
  pp_FileUpload :: FileUploadConfig
  pp_OpeningStatement :: string

record Parameters =
  pm_UserInputForm :: "ParameterFormItem list"
  pm_FileUpload :: FileUploadConfig
  pm_OpeningStatement :: string

definition toParameters :: "parametersPayload \<Rightarrow> Parameters" where
  "toParameters p =
     \<lparr>pm_UserInputForm = concat (map (map (\<lambda>(typ, item). \<lparr>pi_Type = typ, pi_Label = pf_Label item,
        pi_Variable = pf_Variable item, pi_Required = pf_Required item, pi_Default = pf_Default item\<rparr>)) (pp_UserInputForm p)),
      pm_FileUpload = pp_FileUpload p, pm_OpeningStatement = pp_OpeningStatement p\<rparr>"

definition GetParameters ::
  "('w, 'b) http \<Rightarrow> ('b \<Rightarrow> 'w \<Rightarrow> (string + parametersPayload) \<times> 'w) \<Rightarrow> client \<Rightarrow> 'w \<Rightarrow> (dify_error + Parameters) \<times> 'w" where
  "GetParameters H decode c w =
     (case call_api H ''parameters'' \<lparr>hr_Method = ''GET'', hr_URL = baseURL c @ ''/parameters'', hr_Body = [],
             hr_Header = [(''Authorization'', ''Bearer '' @ apiKey c), (''Accept'', ''application/json'')]\<rparr> w of
        (Inl e, w1) \<Rightarrow> (Inl e, w1)
      | (Inr resp, w1) \<Rightarrow>
          (case decode (Body resp) w1 of
             (Inl e, w2) \<Rightarrow> (Inl (DifyErr (''decode Dify parameters response: '' @ e) None), w2)
           | (Inr raw, w2) \<Rightarrow> (Inr (toParameters raw), w2)))"

text \<open>A warning of \<open>CheckParameterContract\<close>, before it is formatted.\<close>

datatype contract_warning = MissingVariable string | UnexpectedVariable string

definition contract_warnings :: "string list \<Rightarrow> Parameters \<Rightarrow> contract_warning list" where
  "contract_warnings expectedVariables params =
     (let defined = filter (\<lambda>v. v \<noteq> []) (map pi_Variable (pm_UserInputForm params));
          expected = filter (\<lambda>v. v \<noteq> []) (map TrimSpace expectedVariables)
      in map MissingVariable (filter (\<lambda>v. v \<notin> set defined) expected) @
         map UnexpectedVariable (filter (\<lambda>v. v \<notin> set expected) (remdups defined)))"

definition CheckParameterContract ::
  "('w, 'b) http \<Rightarrow> ('b \<Rightarrow> 'w \<Rightarrow> (string + parametersPayload) \<times> 'w) \<Rightarrow> client \<Rightarrow> string list \<Rightarrow> 'w \<Rightarrow>
   (dify_error + contract_warning list) \<times> 'w" where
  "CheckParameterContract H decode c expectedVariables w =
     (case GetParameters H decode c w of
        (Inl e, w1) \<Rightarrow> (Inl e, w1)
      | (Inr params, w1) \<Rightarrow> (Inr (contract_warnings expectedVariables params), w1))"

section \<open>The router\<close>

record difyRouter =
  rt_clients :: "string \<rightharpoonup> client"
  defaultClient :: "client option"

text \<open>The loop over the key map; a map's keys are distinct and its order unspecified.\<close>

fun router_clients :: "string \<Rightarrow> (string \<times> string) list \<Rightarrow> (string \<rightharpoonup> client) \<Rightarrow> (string \<rightharpoonup> client) option" where
  "router_clients base [] m = Some m"
| "router_clients base ((npc, key) # ks) m =
     (let n = TrimSpace npc; k = TrimSpace key in
      if n = [] \<or> k = [] then None else router_clients base ks (m(n \<mapsto> NewClient base k)))"

definition NewDifyRouter :: "string \<Rightarrow> (string \<times> string) list \<Rightarrow> string + difyRouter" where
  "NewDifyRouter base appKeys =
     (if TrimSpace base = [] then Inl ''gateway: DIFY_BASE_URL is required''
      else if appKeys = [] then Inl ''gateway: at least one Dify app key is required''
      else case router_clients base appKeys Map.empty of
        None \<Rightarrow> Inl ''gateway: Dify app key mapping contains empty name or key''
      | Some m \<Rightarrow> Inr \<lparr>rt_clients = m, defaultClient = m ''default''\<rparr>)"

definition npcIDFromUser :: "string \<Rightarrow> string" where
  "npcIDFromUser user0 =
     (let user = TrimSpace user0 in
      if user = [] then []
      else case last_index (CHR '':'') user of
        None \<Rightarrow> []
      | Some idx \<Rightarrow> if idx < length user - 1 then TrimSpace (drop (idx + 1) user) else [])"

definition clientForUser :: "difyRouter \<Rightarrow> string \<Rightarrow> dify_error + client" where
  "clientForUser r user =
     (let npcID = npcIDFromUser user in
      case (if npcID \<noteq> [] then rt_clients r npcID else None) of
        Some c \<Rightarrow> Inr c
      | None \<Rightarrow>
          (case defaultClient r of
             Some c \<Rightarrow> Inr c
           | None \<Rightarrow> Inl (DifyErr (''gateway: no Dify app key configured for npc_id '' @ npcID) None)))"

definition router_ChatStream ::
  "('w, 'b) http \<Rightarrow> int \<Rightarrow> int \<Rightarrow> difyRouter \<Rightarrow> ChatReq \<Rightarrow> (string \<Rightarrow> string \<Rightarrow> 'w \<Rightarrow> 'w) \<Rightarrow> (string \<Rightarrow> 'w \<Rightarrow> 'w) \<Rightarrow> 'w \<Rightarrow>
   ((ChatResult \<times> dify_error option) \<times> 'w) option" where
  "router_ChatStream H base maxB r req onEvent onDelta w =
     (case clientForUser r (rq_User req) of
        Inl e \<Rightarrow> Some ((zeroResult, Some e), w)
      | Inr c \<Rightarrow> ChatStream H base maxB c req onEvent onDelta w)"

definition router_Stop ::
  "('w, 'b) http \<Rightarrow> (string \<Rightarrow> string + string) \<Rightarrow> (string \<Rightarrow> string) \<Rightarrow> difyRouter \<Rightarrow> string \<Rightarrow> string \<Rightarrow> 'w \<Rightarrow>
   dify_error option \<times> 'w" where
  "router_Stop H marshalUser pathEscape r taskID user w =
     (case clientForUser r user of
        Inl e \<Rightarrow> (Some e, w)
      | Inr c \<Rightarrow> dify_Stop H marshalUser pathEscape c taskID user w)"

section \<open>Properties\<close>

lemma trim_scoped_user:
  assumes "list_all scalar ps" "list_all scalar ns" "ns \<noteq> []" "\<not> IsSpace (last ns)"
  shows "\<exists>x. TrimSpace (utf8 ps @ '':'' @ utf8 ns) = x @ '':'' @ utf8 ns"
proof -
  have c: "utf8 [58] = '':''" by code_simp
  have d: "dropWhile IsSpace (ps @ 58 # ns) = dropWhile IsSpace ps @ 58 # ns"
    by (induction ps) (simp_all add: IsSpace_def[of 58])
  obtain n ns' where n: "ns = ns' @ [n]" "\<not> IsSpace n" using assms(3,4) by (cases ns rule: rev_cases) auto
  have "utf8 ps @ '':'' @ utf8 ns = utf8 (ps @ 58 # ns)" by (simp add: c[symmetric])
  also have "TrimSpace \<dots> = utf8 (rev (dropWhile IsSpace (rev (dropWhile IsSpace ps @ 58 # ns))))"
    using assms(1,2) d by (subst TrimSpace_utf8) (simp_all add: scalar_def)
  also have "rev (dropWhile IsSpace (rev (dropWhile IsSpace ps @ 58 # ns))) = dropWhile IsSpace ps @ 58 # ns"
    using n by simp
  finally show ?thesis by (metis c append_Cons append_Nil utf8_simps(2,3))
qed

lemma npcIDFromUser_scoped:
  assumes "list_all scalar ps" "list_all scalar ns" "ns \<noteq> []" "TrimSpace (utf8 ns) = utf8 ns"
    and "CHR '':'' \<notin> set (utf8 ns)"
  shows "npcIDFromUser (utf8 ps @ '':'' @ utf8 ns) = utf8 ns"
proof -
  obtain x where x: "TrimSpace (utf8 ps @ '':'' @ utf8 ns) = x @ '':'' @ utf8 ns"
    using trim_scoped_user[OF assms(1-3) TrimSpace_last[OF assms(2-4)]] by blast
  have idx: "last_index (CHR '':'') (x @ CHR '':'' # utf8 ns) = Some (length x)"
    using assms(5) by (rule last_index_append)
  show ?thesis
    using x idx assms(3,4) by (simp add: npcIDFromUser_def Let_def)
qed



text \<open>The startup contract check. \<open>CheckParameterContract\<close> stays silent exactly when the variables
  the Dify application defines are the expected ones (trimmed, blanks ignored); a warning names a
  variable that is expected and not defined, or defined and not expected.\<close>

theorem contract_check:
  defines "defined \<equiv> (\<lambda>p. {v \<in> pi_Variable ` set (pm_UserInputForm p). v \<noteq> []})"
    and "wanted \<equiv> (\<lambda>vs. {v \<in> TrimSpace ` set vs. v \<noteq> []})"
  shows "(MissingVariable v \<in> set (contract_warnings vs p) \<longleftrightarrow> v \<in> wanted vs - defined p) \<and>
     (UnexpectedVariable v \<in> set (contract_warnings vs p) \<longleftrightarrow> v \<in> defined p - wanted vs) \<and>
     (contract_warnings vs p = [] \<longleftrightarrow> wanted vs = defined p)"
proof -
  have m: "MissingVariable v \<in> set (contract_warnings vs p) \<longleftrightarrow> v \<in> wanted vs - defined p" for v
    by (auto simp: contract_warnings_def Let_def defined_def wanted_def)
  have u: "UnexpectedVariable v \<in> set (contract_warnings vs p) \<longleftrightarrow> v \<in> defined p - wanted vs" for v
    by (auto simp: contract_warnings_def Let_def defined_def wanted_def)
  have "contract_warnings vs p = [] \<longleftrightarrow>
      (\<forall>v. MissingVariable v \<notin> set (contract_warnings vs p) \<and> UnexpectedVariable v \<notin> set (contract_warnings vs p))"
    by (metis contract_warning.exhaust last_in_set list.set(1) empty_iff)
  also have "\<dots> \<longleftrightarrow> wanted vs = defined p" unfolding m u by blast
  finally show ?thesis using m u by blast
qed

lemma router_contract:
  assumes "outside_only H ext" "\<forall>x ev. decodeEvent H x = Inr ev \<longrightarrow> valid (ev_Answer ev)"
  shows "stream_client (router_ChatStream H base maxB r) ext valid"
proof
  fix req onEvent onDelta s res s' P
  assume st: "router_ChatStream H base maxB r req onEvent onDelta s = Some (res, s')"
    and keep: "\<And>s s'. P s \<Longrightarrow> ext s s' \<Longrightarrow> P s'" "\<And>t c s. P s \<Longrightarrow> P (onEvent t c s)" "\<And>d s. P s \<Longrightarrow> valid d \<Longrightarrow> P (onDelta d s)" "P s"
  show "P s'"
  proof (cases "clientForUser r (rq_User req)")
    case (Inl e)
    then show ?thesis using st keep(4) by (simp add: router_ChatStream_def)
  next
    case (Inr c)
    then have "ChatStream H base maxB c req onEvent onDelta s = Some (res, s')" using st by (simp add: router_ChatStream_def)
    then show ?thesis using stream_client.stream_keeps[OF ChatStream_contract[OF assms], where P = P] keep by blast
  qed
qed

lemma router_returns:
  fixes m :: "'s \<Rightarrow> nat"
  assumes "\<And>b s l s'. scanLine H b s = (ScanLine l, s') \<Longrightarrow> m s' < m s"
    and "\<And>t c s. m (onEvent t c s) \<le> m s" and "\<And>d s. m (onDelta d s) \<le> m s"
  shows "router_ChatStream H base maxB r req onEvent onDelta s \<noteq> None"
  using ChatStream_returns[of H m onEvent onDelta] assms by (auto simp: router_ChatStream_def split: sum.splits)

text \<open>An npc id with a colon is routed by the part behind its last colon.\<close>

lemma npc_with_colon: "npcIDFromUser ''p:town:bob'' = ''bob''"
proof -
  have "TrimSpace ''p:town:bob'' = ''p:town:bob''" "TrimSpace ''bob'' = ''bob''" by (simp_all add: TrimSpace_graphic is_graphic_def)
  moreover have "last_index (CHR '':'') ''p:town:bob'' = Some 6" by code_simp
  ultimately show ?thesis by (simp add: npcIDFromUser_def)
qed

end
