(* ===== verification/Pipeline.thy ===== *)
theory Pipeline
  imports Limiter Store Assembler Moderation Auth Proto Dify_Api
begin

text \<open>
  \<^verbatim>\<open>internal/pipeline/handler.go\<close>: the chat request path. The interfaces the handler is built on
  (\<open>Limiter\<close>, \<open>SessionStore\<close>, \<open>ContextAssembler\<close>, \<open>Moderator\<close>, \<open>DifyClient\<close>) are records of functions over a
  world state \<open>'w\<close>; a nil interface is \<open>None\<close>. The request context is part of the world: \<open>ctxErr\<close> and
  \<open>untilDeadline\<close> read it. Calls made on a detached context are told apart where the same
  method is also called on the request's own.

  \<open>chat_state\<close> is the world together with the locals of \<open>HandleChat\<close> that its callbacks share (filter,
  \<open>outputBlocked\<close>, \<open>taskID\<close>, whether \<open>cancelStream\<close> was called) and a ghost: the trace of the calls the
  handler has made, frames sent included, in order. Latency histograms and log lines are not
  modelled. \<open>HandleChat\<close> gives \<open>None\<close> when a call it makes never returns.
\<close>

section \<open>Interfaces and state\<close>

record 'w limiter_if =
  lAllow :: "string \<Rightarrow> int \<Rightarrow> 'w \<Rightarrow> (bool \<times> limiter_error option) \<times> 'w"
  lRecord :: "string \<Rightarrow> int \<Rightarrow> 'w \<Rightarrow> limiter_error option \<times> 'w"
  lRecordFailure :: "'w \<Rightarrow> limiter_error option \<times> 'w"
  lRelease :: "'w \<Rightarrow> limiter_error option \<times> 'w"

record 'w store_if =
  sGet :: "string \<Rightarrow> string \<Rightarrow> 'w \<Rightarrow> (store_error + string) \<times> 'w"
  sSet :: "bool \<Rightarrow> string \<Rightarrow> string \<Rightarrow> string \<Rightarrow> int \<Rightarrow> 'w \<Rightarrow> store_error option \<times> 'w"
  sDelete :: "string \<Rightarrow> string \<Rightarrow> 'w \<Rightarrow> store_error option \<times> 'w"
  sLock :: "string \<Rightarrow> string \<Rightarrow> int \<Rightarrow> 'w \<Rightarrow> ((store_error + unlocker) \<times> 'w) option"
  sUnlock :: "unlocker \<Rightarrow> 'w \<Rightarrow> 'w"

datatype call =
    TAllow string bool
  | TRecord string int | TRecordFailure | TRelease
  | TGet string string | TSet string string string | TDelete string string
  | TLock string string bool | TUnlock
  | TBuild string string | TCheckInput string bool
  | TStream ChatReq | TStopUpstream string string
  | TSend ServerEnvelope | TMetric string | TTokens int
  | TFirstToken int | TUpstreamLatency int

record 'w chat_state =
  cs_world :: 'w
  cs_trace :: "call list"
  cs_filter :: outputFilter
  cs_outputBlocked :: bool
  cs_taskID :: string
  cs_streamCancelled :: bool
  cs_start :: int
  cs_firstDelta :: bool

record 'w dify_if =
  dStream :: "ChatReq \<Rightarrow> (string \<Rightarrow> string \<Rightarrow> 'w chat_state \<Rightarrow> 'w chat_state) \<Rightarrow> (string \<Rightarrow> 'w chat_state \<Rightarrow> 'w chat_state) \<Rightarrow>
     'w chat_state \<Rightarrow> ((ChatResult \<times> dify_error option) \<times> 'w chat_state) option"
  dStop :: "string \<Rightarrow> string \<Rightarrow> 'w \<Rightarrow> dify_error option \<times> 'w"

record 'w handler =
  h_auth :: "(string \<Rightarrow> 'w \<Rightarrow> auth_error + string) option"
  h_limiter :: "'w limiter_if option"
  h_store :: "'w store_if option"
  h_contextAssembler :: "(string \<Rightarrow> string \<Rightarrow> 'w \<Rightarrow> (vars \<times> string option) \<times> 'w) option"
  h_moderator :: moderator
  h_dify :: "'w dify_if option"
  h_conversationTTL :: int
  h_conversationLockTTL :: int

text \<open>What surrounds a request: \<open>send\<close> of the transport (its error is only logged), the context and the clock.\<close>

record 'w request_env =
  re_send :: "ServerEnvelope \<Rightarrow> 'w \<Rightarrow> bool \<times> 'w"
  re_ctxErr :: "'w \<Rightarrow> ctx_error option"
  re_untilDeadline :: "'w \<Rightarrow> int option"
  re_now :: "'w \<Rightarrow> int"

definition defaultConversationTTL :: int where "defaultConversationTTL = 24 * 3600 * second"
definition defaultConversationLockTTL :: int where "defaultConversationLockTTL = 15 * second"
definition maxQueryRunes :: nat where "maxQueryRunes = 4096"

definition pipeline_New ::
  "(string \<Rightarrow> 'w \<Rightarrow> auth_error + string) option \<Rightarrow> 'w limiter_if option \<Rightarrow> 'w store_if option \<Rightarrow>
   (string \<Rightarrow> string \<Rightarrow> 'w \<Rightarrow> (vars \<times> string option) \<times> 'w) option \<Rightarrow> moderator option \<Rightarrow> 'w dify_if option \<Rightarrow>
   int \<Rightarrow> int \<Rightarrow> 'w handler" where
  "pipeline_New au lm st asm m dify ttl lockTTL =
     \<lparr>h_auth = au, h_limiter = lm, h_store = st, h_contextAssembler = asm,
      h_moderator = (case m of None \<Rightarrow> AllowAll | Some x \<Rightarrow> x), h_dify = dify,
      h_conversationTTL = (if ttl = 0 then defaultConversationTTL else ttl),
      h_conversationLockTTL = (if lockTTL = 0 then defaultConversationLockTTL else lockTTL)\<rparr>"

section \<open>Error mapping\<close>

datatype chat_error = LimErr limiter_error | UpErr dify_error

definition is_deadline :: "chat_error \<Rightarrow> bool" where
  "is_deadline e =
     (case e of
        LimErr (LimiterRedis _ (RedisDeadline _)) \<Rightarrow> True
      | UpErr (CtxErr DeadlineExceeded) \<Rightarrow> True
      | UpErr (DifyErr _ (Some DeadlineExceeded)) \<Rightarrow> True
      | _ \<Rightarrow> False)"

definition clientErrorCode :: "chat_error \<Rightarrow> string" where
  "clientErrorCode e =
     (if e \<in> {LimErr ErrRateLimited, LimErr ErrBudgetExceeded, LimErr ErrInflightFull, LimErr ErrCircuitOpen}
      then ''RATE_LIMITED''
      else if is_deadline e then ''UPSTREAM_TIMEOUT''
      else case e of
        UpErr (UpstreamError op status body ra) \<Rightarrow>
          if status = 429 then ''RATE_LIMITED''
          else if status = 504 \<or> status = 408 then ''UPSTREAM_TIMEOUT''
          else ''UPSTREAM_ERROR''
      | UpErr (StreamError code msg) \<Rightarrow> if equal_fold code ''rate_limited'' then ''RATE_LIMITED'' else ''UPSTREAM_ERROR''
      | _ \<Rightarrow> ''UPSTREAM_ERROR'')"

definition clientErrorMessage :: "chat_error \<Rightarrow> string" where
  "clientErrorMessage e =
     (if clientErrorCode e = ''RATE_LIMITED'' then ''rate limited''
      else if clientErrorCode e = ''UPSTREAM_TIMEOUT'' then ''upstream timeout''
      else if clientErrorCode e = ''BAD_REQUEST'' then ''bad request''
      else ''upstream error'')"

definition messageReplace :: "dify_error \<Rightarrow> string option" where
  "messageReplace e = (case e of MessageReplaceError fb \<Rightarrow> Some fb | _ \<Rightarrow> None)"

definition userID :: "string \<Rightarrow> string \<Rightarrow> string" where
  "userID p npcID = p @ '':'' @ npcID"

definition queryTooLong :: "string \<Rightarrow> bool" where
  "queryTooLong query \<longleftrightarrow> maxQueryRunes < length (runes query)"

section \<open>Calls\<close>

definition note_call :: "call \<Rightarrow> 'w chat_state \<Rightarrow> 'w chat_state" where
  "note_call c s = s\<lparr>cs_trace := cs_trace s @ [c]\<rparr>"

definition do_send :: "'w request_env \<Rightarrow> ServerEnvelope \<Rightarrow> 'w chat_state \<Rightarrow> 'w chat_state" where
  "do_send E env s = note_call (TSend env) (s\<lparr>cs_world := snd (re_send E env (cs_world s))\<rparr>)"

definition metric :: "string \<Rightarrow> 'w chat_state \<Rightarrow> 'w chat_state" where
  "metric label s = note_call (TMetric label) s"

definition send_error :: "'w request_env \<Rightarrow> string \<Rightarrow> string \<Rightarrow> string \<Rightarrow> string \<Rightarrow> 'w chat_state \<Rightarrow> 'w chat_state" where
  "send_error E reqID code msg label s = metric label (do_send E (errorMsg reqID code msg) s)"

definition send_blocked :: "'w request_env \<Rightarrow> string \<Rightarrow> string \<Rightarrow> 'w chat_state \<Rightarrow> 'w chat_state" where
  "send_blocked E reqID fallback s = metric ''blocked'' (do_send E (blockedEnvelope reqID fallback) s)"

definition recordSuccess :: "'w limiter_if \<Rightarrow> string \<Rightarrow> int \<Rightarrow> 'w chat_state \<Rightarrow> limiter_error option \<times> 'w chat_state" where
  "recordSuccess L p n s =
     (case lRecord L p n (cs_world s) of (e, w) \<Rightarrow> (e, note_call (TRecord p n) (s\<lparr>cs_world := w\<rparr>)))"

definition recordFailure :: "'w limiter_if \<Rightarrow> 'w chat_state \<Rightarrow> 'w chat_state" where
  "recordFailure L s = note_call TRecordFailure (s\<lparr>cs_world := snd (lRecordFailure L (cs_world s))\<rparr>)"

definition releaseSlot :: "'w limiter_if \<Rightarrow> 'w chat_state \<Rightarrow> 'w chat_state" where
  "releaseSlot L s = note_call TRelease (s\<lparr>cs_world := snd (lRelease L (cs_world s))\<rparr>)"

definition do_set :: "'w store_if \<Rightarrow> bool \<Rightarrow> string \<Rightarrow> string \<Rightarrow> string \<Rightarrow> int \<Rightarrow> 'w chat_state \<Rightarrow> store_error option \<times> 'w chat_state" where
  "do_set S detached p n c ttl s =
     (case sSet S detached p n c ttl (cs_world s) of (e, w) \<Rightarrow> (e, note_call (TSet p n c) (s\<lparr>cs_world := w\<rparr>)))"

definition persistConversation :: "'w handler \<Rightarrow> 'w store_if \<Rightarrow> string \<Rightarrow> string \<Rightarrow> string \<Rightarrow> 'w chat_state \<Rightarrow> 'w chat_state" where
  "persistConversation h S p n convID s =
     (if convID = [] then s else snd (do_set S True p n convID (h_conversationTTL h) s))"

definition stopUpstream :: "'w dify_if \<Rightarrow> string \<Rightarrow> string \<Rightarrow> 'w chat_state \<Rightarrow> 'w chat_state" where
  "stopUpstream D taskID user s =
     (if taskID = [] then s
      else note_call (TStopUpstream taskID user) (s\<lparr>cs_world := snd (dStop D taskID user (cs_world s))\<rparr>))"

definition do_get :: "'w store_if \<Rightarrow> string \<Rightarrow> string \<Rightarrow> 'w chat_state \<Rightarrow> (store_error + string) \<times> 'w chat_state" where
  "do_get S p n s = (case sGet S p n (cs_world s) of (r, w) \<Rightarrow> (r, note_call (TGet p n) (s\<lparr>cs_world := w\<rparr>)))"

definition do_unlock :: "'w store_if \<Rightarrow> unlocker \<Rightarrow> 'w chat_state \<Rightarrow> 'w chat_state" where
  "do_unlock S u s = note_call TUnlock (s\<lparr>cs_world := sUnlock S u (cs_world s)\<rparr>)"

definition lock_ttl :: "'w request_env \<Rightarrow> int \<Rightarrow> 'w \<Rightarrow> int" where
  "lock_ttl E lockTTL w =
     (case re_untilDeadline E w of
        None \<Rightarrow> lockTTL
      | Some d \<Rightarrow> let u = wrap64 (d + second) in if lockTTL < u then u else lockTTL)"

definition resolveConversation ::
  "'w handler \<Rightarrow> 'w request_env \<Rightarrow> 'w store_if \<Rightarrow> string \<Rightarrow> string \<Rightarrow> string \<Rightarrow> 'w chat_state \<Rightarrow>
   ((store_error + string) \<times> unlocker option \<times> 'w chat_state) option" where
  "resolveConversation h E S p n clientConvID s =
     (case do_get S p n s of
        (Inl e, s1) \<Rightarrow> Some (Inl e, None, s1)
      | (Inr conv, s1) \<Rightarrow>
          if conv \<noteq> [] then Some (Inr conv, None, s1)
          else if TrimSpace clientConvID \<noteq> [] then Some (Inr (TrimSpace clientConvID), None, s1)
          else (case sLock S p n (lock_ttl E (h_conversationLockTTL h) (cs_world s1)) (cs_world s1) of
                  None \<Rightarrow> None
                | Some (Inl e, w) \<Rightarrow> Some (Inl e, None, note_call (TLock p n False) (s1\<lparr>cs_world := w\<rparr>))
                | Some (Inr u, w) \<Rightarrow>
                    (case do_get S p n (note_call (TLock p n True) (s1\<lparr>cs_world := w\<rparr>)) of
                       (Inl e, s2) \<Rightarrow> Some (Inl e, None, do_unlock S u s2)
                     | (Inr conv2, s2) \<Rightarrow>
                         if conv2 \<noteq> [] then Some (Inr conv2, None, do_unlock S u s2)
                         else Some (Inr conv2, Some u, s2))))"

section \<open>The chat request\<close>

text \<open>Which interface is missing, if any; \<open>HandleChat\<close> logs the answer and refuses the request.\<close>

definition ready :: "'w handler \<Rightarrow> string option" where
  "ready h =
     (if h_limiter h = None then Some ''limiter is nil''
      else if h_store h = None then Some ''store is nil''
      else if h_contextAssembler h = None then Some ''context assembler is nil''
      else if h_dify h = None then Some ''dify client is nil''
      else None)"

definition on_event :: "string \<Rightarrow> string \<Rightarrow> 'w chat_state \<Rightarrow> 'w chat_state" where
  "on_event tid conv s = s\<lparr>cs_taskID := tid\<rparr>"

definition first_token :: "'w request_env \<Rightarrow> 'w chat_state \<Rightarrow> 'w chat_state" where
  "first_token E s =
     (if cs_firstDelta s
      then note_call (TFirstToken (re_now E (cs_world s) - cs_start s)) (s\<lparr>cs_firstDelta := False\<rparr>)
      else s)"

definition on_delta :: "'w request_env \<Rightarrow> string \<Rightarrow> string \<Rightarrow> 'w chat_state \<Rightarrow> 'w chat_state" where
  "on_delta E reqID delta s =
     (if cs_outputBlocked s then s
      else case filter_Push delta (cs_filter s) of
        ((emit, blocked, fallback), f) \<Rightarrow>
          (let s1 = (first_token E s)\<lparr>cs_filter := f\<rparr> in
           if blocked
           then (send_blocked E reqID fallback (s1\<lparr>cs_outputBlocked := True\<rparr>))\<lparr>cs_streamCancelled := True\<rparr>
           else if emit \<noteq> [] then do_send E (chunk reqID emit) s1
           else s1))"

text \<open>After \<open>ChatStream\<close> returned an error.\<close>

definition chat_failed ::
  "'w handler \<Rightarrow> 'w request_env \<Rightarrow> 'w limiter_if \<Rightarrow> 'w store_if \<Rightarrow> 'w dify_if \<Rightarrow> string \<Rightarrow> string \<Rightarrow> string \<Rightarrow>
   ChatResult \<Rightarrow> dify_error \<Rightarrow> 'w chat_state \<Rightarrow> 'w chat_state" where
  "chat_failed h E L S D reqID p n result e s =
     (case messageReplace e of
        Some replace \<Rightarrow> send_blocked E reqID replace (snd (recordSuccess L p (res_TotalTokens result) s))
      | None \<Rightarrow>
          if cs_outputBlocked s then snd (recordSuccess L p (res_TotalTokens result) s)
          else if re_ctxErr E (cs_world s) = Some Canceled
          then metric ''stopped''
                (do_send E (done_envelope reqID (res_ConversationID result) (res_TotalTokens result))
                  (persistConversation h S p n (res_ConversationID result)
                    (releaseSlot L (stopUpstream D (cs_taskID s) (userID p n) s))))
          else send_error E reqID (clientErrorCode (UpErr e)) (clientErrorMessage (UpErr e)) ''error'' (recordFailure L s))"

text \<open>After \<open>ChatStream\<close> returned without one.\<close>

definition chat_finish ::
  "'w request_env \<Rightarrow> string \<Rightarrow> ChatResult \<Rightarrow> 'w chat_state \<Rightarrow> 'w chat_state" where
  "chat_finish E reqID result s =
     (if cs_outputBlocked s then s
      else case filter_Flush (cs_filter s) of
        ((emit, blocked, fallback), f) \<Rightarrow>
          (let s1 = s\<lparr>cs_filter := f\<rparr> in
           if blocked then send_blocked E reqID fallback s1
           else (let s2 = (if emit \<noteq> [] then do_send E (chunk reqID emit) s1 else s1)
                 in metric ''ok'' (do_send E (done_envelope reqID (res_ConversationID result) (res_TotalTokens result)) s2))))"

definition chat_succeeded ::
  "'w handler \<Rightarrow> 'w request_env \<Rightarrow> 'w limiter_if \<Rightarrow> 'w store_if \<Rightarrow> string \<Rightarrow> string \<Rightarrow> string \<Rightarrow>
   ChatResult \<Rightarrow> 'w chat_state \<Rightarrow> 'w chat_state" where
  "chat_succeeded h E L S reqID p n result s =
     (case recordSuccess L p (res_TotalTokens result) s of
        (Some e, s1) \<Rightarrow> send_error E reqID ''INTERNAL'' ''usage accounting failed'' ''error'' s1
      | (None, s1) \<Rightarrow>
          (let s2 = (if 0 < res_TotalTokens result then note_call (TTokens (res_TotalTokens result)) s1 else s1) in
           if res_ConversationID result = [] then chat_finish E reqID result s2
           else (case do_set S False p n (res_ConversationID result) (h_conversationTTL h) s2 of
                   (Some e, s3) \<Rightarrow> send_error E reqID ''INTERNAL'' ''conversation state unavailable'' ''error'' s3
                 | (None, s3) \<Rightarrow> chat_finish E reqID result s3)))"

text \<open>The local variables of the streaming part, the request it sends, and its duration.\<close>

definition upstream_req :: "string \<Rightarrow> string \<Rightarrow> string \<Rightarrow> vars \<Rightarrow> string \<Rightarrow> ChatReq" where
  "upstream_req p n query inputs conv =
     \<lparr>rq_Query = query, rq_Inputs = Some inputs, rq_User = userID p n, rq_ConversationID = conv,
      rq_Files = [], rq_AutoGenerateName = None\<rparr>"

definition stream_start :: "'w handler \<Rightarrow> 'w request_env \<Rightarrow> ChatReq \<Rightarrow> 'w chat_state \<Rightarrow> 'w chat_state" where
  "stream_start h E req s =
     note_call (TStream req)
       (s\<lparr>cs_start := re_now E (cs_world s), cs_firstDelta := True, cs_filter := NewOutputFilter (h_moderator h),
          cs_outputBlocked := False, cs_taskID := [], cs_streamCancelled := False\<rparr>)"

definition upstream_latency :: "'w request_env \<Rightarrow> 'w chat_state \<Rightarrow> 'w chat_state" where
  "upstream_latency E s = note_call (TUpstreamLatency (re_now E (cs_world s) - cs_start s)) s"

definition chat_stream ::
  "'w handler \<Rightarrow> 'w request_env \<Rightarrow> 'w limiter_if \<Rightarrow> 'w store_if \<Rightarrow> 'w dify_if \<Rightarrow> string \<Rightarrow> string \<Rightarrow> string \<Rightarrow> string \<Rightarrow>
   vars \<Rightarrow> string \<Rightarrow> 'w chat_state \<Rightarrow> 'w chat_state option" where
  "chat_stream h E L S D reqID p n query inputs conv s =
     (let req = upstream_req p n query inputs conv
      in case dStream D req on_event (on_delta E reqID) (stream_start h E req s) of
           None \<Rightarrow> None
         | Some ((result, Some e), s1) \<Rightarrow> Some (chat_failed h E L S D reqID p n result e (upstream_latency E s1))
         | Some ((result, None), s1) \<Rightarrow> Some (chat_succeeded h E L S reqID p n result (upstream_latency E s1)))"

text \<open>The part of \<open>HandleChat\<close> after the conversation is resolved; the deferred unlock is run by the
  caller.\<close>

definition chat_resolved ::
  "'w handler \<Rightarrow> 'w request_env \<Rightarrow> 'w limiter_if \<Rightarrow> 'w store_if \<Rightarrow>
   (string \<Rightarrow> string \<Rightarrow> 'w \<Rightarrow> (vars \<times> string option) \<times> 'w) \<Rightarrow> 'w dify_if \<Rightarrow> string \<Rightarrow> string \<Rightarrow> string \<Rightarrow> string \<Rightarrow>
   store_error + string \<Rightarrow> 'w chat_state \<Rightarrow> 'w chat_state option" where
  "chat_resolved h E L S asm D reqID p n query conv s =
     (case conv of
        Inl e \<Rightarrow> Some (send_error E reqID ''INTERNAL'' ''conversation state unavailable'' ''error'' (snd (recordSuccess L p 0 s)))
      | Inr conversationID \<Rightarrow>
          (case asm p n (cs_world s) of
             ((inputs, err), w) \<Rightarrow>
               (let s1 = note_call (TBuild p n) (s\<lparr>cs_world := w\<rparr>) in
                if err \<noteq> None
                then Some (send_error E reqID ''INTERNAL'' ''context unavailable'' ''error'' (snd (recordSuccess L p 0 s1)))
                else (case mCheckInput (h_moderator h) query of
                        (ok, fallback) \<Rightarrow>
                          (let s2 = note_call (TCheckInput query ok) s1 in
                           if \<not> ok then Some (send_blocked E reqID fallback (snd (recordSuccess L p 0 s2)))
                           else chat_stream h E L S D reqID p n query inputs conversationID s2)))))"

definition chat_admitted ::
  "'w handler \<Rightarrow> 'w request_env \<Rightarrow> 'w limiter_if \<Rightarrow> 'w store_if \<Rightarrow>
   (string \<Rightarrow> string \<Rightarrow> 'w \<Rightarrow> (vars \<times> string option) \<times> 'w) \<Rightarrow> 'w dify_if \<Rightarrow> string \<Rightarrow> string \<Rightarrow> string \<Rightarrow> string \<Rightarrow> string \<Rightarrow>
   'w chat_state \<Rightarrow> 'w chat_state option" where
  "chat_admitted h E L S asm D reqID p n query clientConv s =
     (case resolveConversation h E S p n clientConv s of
        None \<Rightarrow> None
      | Some (conv, unlock, s1) \<Rightarrow>
          (case chat_resolved h E L S asm D reqID p n query conv s1 of
             None \<Rightarrow> None
           | Some s2 \<Rightarrow> Some (case unlock of None \<Rightarrow> s2 | Some u \<Rightarrow> do_unlock S u s2)))"

definition HandleChat ::
  "'w handler \<Rightarrow> 'w request_env \<Rightarrow> session \<Rightarrow> ChatRequest ptr \<Rightarrow> 'w chat_state \<Rightarrow> 'w chat_state option" where
  "HandleChat h E sess req s =
     (let reqID = chat_GetRequestId req; p = playerID sess;
          n = TrimSpace (chat_GetNpcId req); query = TrimSpace (chat_GetQuery req)
      in if n = [] then Some (send_error E reqID ''BAD_REQUEST'' ''npc_id is required'' ''bad_request'' s)
      else if query = [] then Some (send_error E reqID ''BAD_REQUEST'' ''query is required'' ''bad_request'' s)
      else if queryTooLong query then Some (send_error E reqID ''BAD_REQUEST'' ''query is too long'' ''bad_request'' s)
      else case (h_limiter h, h_store h, h_contextAssembler h, h_dify h) of
        (Some L, Some S, Some asm, Some D) \<Rightarrow>
          (case lAllow L p 0 (cs_world s) of
             ((ok, err), w) \<Rightarrow>
               (let admitted = (ok \<and> err = None);
                    s1 = note_call (TAllow p admitted) (s\<lparr>cs_world := w\<rparr>) in
                if \<not> admitted
                then (let e = LimErr (case err of None \<Rightarrow> ErrRateLimited | Some x \<Rightarrow> x) in
                      Some (send_error E reqID (clientErrorCode e) (clientErrorMessage e) ''rate_limited'' s1))
                else chat_admitted h E L S asm D reqID p n query (chat_GetConversationId req) s1))
      | _ \<Rightarrow> Some (send_error E reqID ''INTERNAL'' ''gateway is not ready'' ''error'' s))"

definition HandleReset ::
  "'w handler \<Rightarrow> 'w request_env \<Rightarrow> session \<Rightarrow> ResetRequest ptr \<Rightarrow> 'w chat_state \<Rightarrow> 'w chat_state" where
  "HandleReset h E sess req s =
     (let reqID = reset_GetRequestId req; n = TrimSpace (reset_GetNpcId req) in
      if n = [] then send_error E reqID ''BAD_REQUEST'' ''npc_id is required'' ''bad_request'' s
      else case h_store h of
        None \<Rightarrow> send_error E reqID ''INTERNAL'' ''gateway is not ready'' ''error'' s
      | Some S \<Rightarrow>
          (case sDelete S (playerID sess) n (cs_world s) of
             (e, w) \<Rightarrow>
               (let s1 = note_call (TDelete (playerID sess) n) (s\<lparr>cs_world := w\<rparr>) in
                if e \<noteq> None then send_error E reqID ''INTERNAL'' ''conversation reset failed'' ''error'' s1
                else metric ''ok'' (do_send E (done_envelope reqID [] 0) s1))))"

definition pipeline_Authenticate ::
  "'w handler \<Rightarrow> session \<Rightarrow> AuthRequest ptr \<Rightarrow> 'w \<Rightarrow> (bool \<times> string) \<times> session" where
  "pipeline_Authenticate h sess req w =
     (case h_auth h of
        None \<Rightarrow> ((False, ''authenticator unavailable''), sess)
      | Some verify \<Rightarrow> BindSession verify (auth_GetSessionToken req) sess w)"

section \<open>The router as the handler's client\<close>

text \<open>\<open>HandleChat\<close> passes the router a context derived from the request's (\<open>streamCtx\<close>): the transport \<open>H\<close>
  of the stream sees the world and whether \<open>cancelStream\<close> was called. \<open>Stop\<close> runs on a background
  context, with a transport of its own.\<close>

definition on_world :: "(bool \<times> 'w \<Rightarrow> 'a \<times> bool \<times> 'w) \<Rightarrow> 'w chat_state \<Rightarrow> 'a \<times> 'w chat_state" where
  "on_world f s = (case f (cs_streamCancelled s, cs_world s) of (x, _, w) \<Rightarrow> (x, s\<lparr>cs_world := w\<rparr>))"

definition stream_http :: "(bool \<times> 'w, 'b) http \<Rightarrow> ('w chat_state, 'b) http" where
  "stream_http H =
     \<lparr>newRequestErr = newRequestErr H, httpDo = (\<lambda>rq. on_world (httpDo H rq)), readLimited = (\<lambda>n b. on_world (readLimited H n b)),
      scanLine = (\<lambda>b. on_world (scanLine H b)), sleepTimer = (\<lambda>d. on_world (sleepTimer H d)), marshalPayload = marshalPayload H,
      decodeResponse = (\<lambda>b. on_world (decodeResponse H b)), decodeEvent = decodeEvent H\<rparr>"

definition router_dify ::
  "(bool \<times> 'w, 'b) http \<Rightarrow> ('w, 'b) http \<Rightarrow> int \<Rightarrow> int \<Rightarrow> (string \<Rightarrow> string + string) \<Rightarrow> (string \<Rightarrow> string) \<Rightarrow> difyRouter \<Rightarrow> 'w dify_if" where
  "router_dify H Hb base maxB marshalUser pathEscape r =
     \<lparr>dStream = router_ChatStream (stream_http H) base maxB r, dStop = router_Stop Hb marshalUser pathEscape r\<rparr>"

end
