(* ===== verification/Pipeline_Props.thy ===== *)
theory Pipeline_Props
  imports Pipeline
begin

text \<open>
  What the chat path guarantees, for all implementations of the interfaces it is built on; of the
  Dify client only the contract \<open>stream_client\<close> is used: it reaches the handler's state through the
  callbacks alone. The router over any HTTP transport meets that contract
  (\<open>interpretation router_stream\<close>).
\<close>

section \<open>Traces\<close>

fun is_settle :: "call \<Rightarrow> bool" where
  "is_settle (TRecord _ _) = True"
| "is_settle TRecordFailure = True"
| "is_settle TRelease = True"
| "is_settle _ = False"

fun is_admission :: "call \<Rightarrow> bool" where
  "is_admission (TAllow _ ok) = ok"
| "is_admission _ = False"

fun is_locked :: "call \<Rightarrow> bool" where
  "is_locked (TLock _ _ ok) = ok"
| "is_locked _ = False"

fun is_stream :: "call \<Rightarrow> bool" where
  "is_stream (TStream _) = True"
| "is_stream _ = False"

definition number :: "(call \<Rightarrow> bool) \<Rightarrow> call list \<Rightarrow> nat" where
  "number P tr = length (filter P tr)"

fun sent :: "call list \<Rightarrow> ServerEnvelope list" where
  "sent [] = []"
| "sent (TSend e # tr) = e # sent tr"
| "sent (_ # tr) = sent tr"

lemma sent_append [simp]: "sent (a @ b) = sent a @ sent b"
  by (induction a rule: sent.induct) simp_all

lemma number_simps [simp]:
  "number P [] = 0" "number P (a @ b) = number P a + number P b"
  "number P (c # tr) = (if P c then Suc (number P tr) else number P tr)"
  by (simp_all add: number_def)

lemma trace_simps [simp]:
  "cs_trace (note_call x s) = cs_trace s @ [x]"
  "cs_trace (do_send E e s) = cs_trace s @ [TSend e]"
  "cs_trace (metric l s) = cs_trace s @ [TMetric l]"
  "cs_trace (send_error E r cd m l s) = cs_trace s @ [TSend (errorMsg r cd m), TMetric l]"
  "cs_trace (send_blocked E r fb s) = cs_trace s @ [TSend (blockedEnvelope r fb), TMetric ''blocked'']"
  "cs_trace (snd (recordSuccess L p k s)) = cs_trace s @ [TRecord p k]"
  "cs_trace (recordFailure L s) = cs_trace s @ [TRecordFailure]"
  "cs_trace (releaseSlot L s) = cs_trace s @ [TRelease]"
  "cs_trace (snd (do_set S b p n c t s)) = cs_trace s @ [TSet p n c]"
  "cs_trace (snd (do_get S p n s)) = cs_trace s @ [TGet p n]"
  "cs_trace (do_unlock S ul s) = cs_trace s @ [TUnlock]"
  "cs_trace (stopUpstream D tk u s) = cs_trace s @ (if tk = [] then [] else [TStopUpstream tk u])"
  "cs_trace (persistConversation h S p n c s) = cs_trace s @ (if c = [] then [] else [TSet p n c])"
  "cs_trace (first_token E s) = cs_trace s @ (if cs_firstDelta s then [TFirstToken (re_now E (cs_world s) - cs_start s)] else [])"
  "cs_trace (stream_start h E req s) = cs_trace s @ [TStream req]"
  "cs_trace (upstream_latency E s) = cs_trace s @ [TUpstreamLatency (re_now E (cs_world s) - cs_start s)]"
  by (auto simp: note_call_def do_send_def metric_def send_error_def send_blocked_def recordSuccess_def
      recordFailure_def releaseSlot_def do_set_def do_get_def do_unlock_def stopUpstream_def persistConversation_def
      first_token_def stream_start_def upstream_latency_def split: prod.splits)

lemma local_simps [simp]:
  "cs_outputBlocked (note_call x s) = cs_outputBlocked s" "cs_filter (note_call x s) = cs_filter s"
  "cs_outputBlocked (do_send E e s) = cs_outputBlocked s" "cs_filter (do_send E e s) = cs_filter s"
  "cs_outputBlocked (metric l s) = cs_outputBlocked s" "cs_filter (metric l s) = cs_filter s"
  "cs_outputBlocked (send_blocked E r fb s) = cs_outputBlocked s" "cs_filter (send_blocked E r fb s) = cs_filter s"
  "cs_outputBlocked (snd (recordSuccess L p k s)) = cs_outputBlocked s" "cs_filter (snd (recordSuccess L p k s)) = cs_filter s"
  "cs_outputBlocked (snd (do_set S b p n c t s)) = cs_outputBlocked s" "cs_filter (snd (do_set S b p n c t s)) = cs_filter s"
  "cs_outputBlocked (first_token E s) = cs_outputBlocked s" "cs_filter (first_token E s) = cs_filter s"
  "cs_outputBlocked (upstream_latency E s) = cs_outputBlocked s" "cs_filter (upstream_latency E s) = cs_filter s"
  "\<not> cs_outputBlocked (stream_start h E req s)" "cs_filter (stream_start h E req s) = NewOutputFilter (h_moderator h)"
  by (auto simp: note_call_def do_send_def metric_def send_blocked_def recordSuccess_def do_set_def first_token_def
      upstream_latency_def stream_start_def split: prod.splits)

lemma world_simps [simp]:
  "cs_world (first_token E s) = cs_world s" "cs_world (upstream_latency E s) = cs_world s" "cs_world (stream_start h E req s) = cs_world s"
  by (simp_all add: note_call_def first_token_def upstream_latency_def stream_start_def)

lemma recordSuccess_trace:
  "recordSuccess L p n s = (e, s') \<Longrightarrow> cs_trace s' = cs_trace s @ [TRecord p n] \<and> cs_outputBlocked s' = cs_outputBlocked s \<and> cs_filter s' = cs_filter s"
  by (auto simp: recordSuccess_def note_call_def split: prod.splits)

lemma do_set_trace:
  "do_set S b p n c t s = (e, s') \<Longrightarrow> cs_trace s' = cs_trace s @ [TSet p n c] \<and> cs_outputBlocked s' = cs_outputBlocked s \<and> cs_filter s' = cs_filter s"
  by (auto simp: do_set_def note_call_def split: prod.splits)

lemma do_get_trace: "do_get S p n s = (r, s') \<Longrightarrow> cs_trace s' = cs_trace s @ [TGet p n]"
  by (auto simp: do_get_def note_call_def split: prod.splits)

section \<open>The streaming part\<close>

definition same_locals :: "'w chat_state \<Rightarrow> 'w chat_state \<Rightarrow> bool" where
  "same_locals s s' \<longleftrightarrow> (\<exists>w. s' = s\<lparr>cs_world := w\<rparr>)"

text \<open>While the stream runs, the trace grows by frames and counters only: chunks of the request, and
  one blocked frame at the end when output was blocked. The chunk texts are what the output filter
  made of the deltas \<open>ds\<close> received so far.\<close>

definition streaming :: "string \<Rightarrow> moderator \<Rightarrow> (string \<Rightarrow> bool) \<Rightarrow> call list \<Rightarrow> 'w chat_state \<Rightarrow> bool" where
  "streaming reqID m valid t0 s \<longleftrightarrow> (\<exists>tail cs ds fb. cs_trace s = t0 @ tail \<and>
     (\<forall>c \<in> set tail. \<exists>e l k. c = TSend e \<or> c = TMetric l \<or> c = TFirstToken k) \<and>
     sent tail = map (chunk reqID) cs @ (if cs_outputBlocked s then [blockedEnvelope reqID fb] else []) \<and>
     (\<forall>d \<in> set ds. valid d) \<and> push_all ds (NewOutputFilter m) = (concat cs, cs_filter s) \<and>
     f_blocked (cs_filter s) = cs_outputBlocked s)"

lemma streaming_on_delta:
  assumes "streaming reqID m valid t0 s" "valid d"
  shows "streaming reqID m valid t0 (on_delta E reqID d s)"
proof (cases "cs_outputBlocked s")
  case True
  then show ?thesis using assms by (simp add: on_delta_def)
next
  case False
  obtain tail cs ds where t: "cs_trace s = t0 @ tail" "\<forall>c \<in> set tail. \<exists>e l k. c = TSend e \<or> c = TMetric l \<or> c = TFirstToken k"
      "sent tail = map (chunk reqID) cs" and ds: "\<forall>d \<in> set ds. valid d"
      and push: "push_all ds (NewOutputFilter m) = (concat cs, cs_filter s)"
    using assms(1) False by (auto simp: streaming_def)
  obtain emit blocked fb f where p: "filter_Push d (cs_filter s) = ((emit, blocked, fb), f)" by (metis prod_cases3 surj_pair)
  note push' = push_all_snoc[OF push p] and bl = filter_Push_blocked[OF p]
  let ?t = "tail @ (if cs_firstDelta s then [TFirstToken (re_now E (cs_world s) - cs_start s)] else [])"
  consider "blocked" "emit = []" | "\<not> blocked" "emit \<noteq> []" | "\<not> blocked" "emit = []" using bl by blast
  then show ?thesis
  proof cases
    case 1
    show ?thesis
      unfolding streaming_def
      by (rule exI[of _ "?t @ [TSend (blockedEnvelope reqID fb), TMetric ''blocked'']"], rule exI[of _ cs],
          rule exI[of _ "ds @ [d]"], rule exI[of _ fb])
        (use False t p push' bl ds assms(2) 1 in \<open>auto simp: on_delta_def Let_def\<close>)
  next
    case 2
    show ?thesis
      unfolding streaming_def
      by (rule exI[of _ "?t @ [TSend (chunk reqID emit)]"], rule exI[of _ "cs @ [emit]"],
          rule exI[of _ "ds @ [d]"])
        (use False t p push' bl ds assms(2) 2 in \<open>auto simp: on_delta_def Let_def\<close>)
  next
    case 3
    show ?thesis
      unfolding streaming_def
      by (rule exI[of _ ?t], rule exI[of _ cs], rule exI[of _ "ds @ [d]"])
        (use False t p push' bl ds assms(2) 3 in \<open>auto simp: on_delta_def Let_def\<close>)
  qed
qed

lemma streaming_start:
  "cs_trace s = t0 \<Longrightarrow> cs_filter s = NewOutputFilter m \<Longrightarrow> \<not> cs_outputBlocked s \<Longrightarrow> streaming reqID m valid t0 s"
  unfolding streaming_def
  by (rule exI[of _ "[]"], rule exI[of _ "[]"], rule exI[of _ "[]"]) (simp add: NewOutputFilter_def)

lemma streaming_moves:
  "streaming reqID m valid t0 s \<Longrightarrow> streaming reqID m valid t0 (on_event t c s)"
  "streaming reqID m valid t0 s \<Longrightarrow> same_locals s s' \<Longrightarrow> streaming reqID m valid t0 s'"
  by (simp add: streaming_def on_event_def, clarsimp simp: same_locals_def, simp add: streaming_def)

section \<open>After the stream\<close>

text \<open>Calls that are not frames or counters and neither settle nor lock.\<close>

definition quiet :: "call list \<Rightarrow> bool" where
  "quiet tr \<longleftrightarrow> number is_admission tr = 0 \<and> number is_locked tr = 0 \<and> number (\<lambda>c. c = TUnlock) tr = 0 \<and> number is_stream tr = 0"

text \<open>The codes and messages a client can see in an error frame.\<close>

definition client_errors :: "(string \<times> string) set" where
  "client_errors =
     {(''BAD_REQUEST'', ''npc_id is required''), (''BAD_REQUEST'', ''query is required''), (''BAD_REQUEST'', ''query is too long''),
      (''INTERNAL'', ''gateway is not ready''), (''INTERNAL'', ''conversation state unavailable''), (''INTERNAL'', ''context unavailable''),
      (''INTERNAL'', ''usage accounting failed''), (''INTERNAL'', ''conversation reset failed''),
      (''RATE_LIMITED'', ''rate limited''), (''UPSTREAM_TIMEOUT'', ''upstream timeout''), (''UPSTREAM_ERROR'', ''upstream error'')}"

fun closes :: "string \<Rightarrow> ServerEnvelope \<Rightarrow> bool" where
  "closes reqID (ServerEnvelope_Done d) \<longleftrightarrow> dn_RequestId d = reqID"
| "closes reqID (ServerEnvelope_Blocked b) \<longleftrightarrow> bl_RequestId b = reqID"
| "closes reqID (ServerEnvelope_Error e) \<longleftrightarrow> em_RequestId e = reqID \<and> (em_Code e, em_Message e) \<in> client_errors"
| "closes reqID _ \<longleftrightarrow> False"

lemma closes_frames [simp]:
  "closes r (errorMsg r' c m) \<longleftrightarrow> r' = r \<and> (c, m) \<in> client_errors"
  "closes r (done_envelope r' v n) \<longleftrightarrow> r' = r" "closes r (blockedEnvelope r' f) \<longleftrightarrow> r' = r"
  by (simp_all add: envelope_defs Let_def)

lemma client_error_code: "clientErrorCode e = ''RATE_LIMITED'' \<or> clientErrorCode e = ''UPSTREAM_TIMEOUT'' \<or> clientErrorCode e = ''UPSTREAM_ERROR''"
  unfolding clientErrorCode_def by (auto split: chat_error.splits dify_error.splits)

lemma client_errors_simps [simp]:
  "(''BAD_REQUEST'', ''npc_id is required'') \<in> client_errors" "(''BAD_REQUEST'', ''query is required'') \<in> client_errors"
  "(''BAD_REQUEST'', ''query is too long'') \<in> client_errors" "(''INTERNAL'', ''gateway is not ready'') \<in> client_errors"
  "(''INTERNAL'', ''conversation state unavailable'') \<in> client_errors" "(''INTERNAL'', ''context unavailable'') \<in> client_errors"
  "(''INTERNAL'', ''usage accounting failed'') \<in> client_errors" "(''INTERNAL'', ''conversation reset failed'') \<in> client_errors"
  "(clientErrorCode e, clientErrorMessage e) \<in> client_errors"
  using client_error_code[of e] by (auto simp: client_errors_def clientErrorMessage_def)

definition ends_with :: "string \<Rightarrow> ServerEnvelope list \<Rightarrow> bool" where
  "ends_with reqID ts \<longleftrightarrow> (\<forall>e \<in> set ts. closes reqID e)"

text \<open>The frames after the stream: at most the flushed text, then the frame that ends the request,
  which a stream already blocked may lack.\<close>

definition closing_frames :: "string \<Rightarrow> 'w chat_state \<Rightarrow> ServerEnvelope list \<Rightarrow> bool" where
  "closing_frames reqID s fs \<longleftrightarrow> (\<exists>cs ts. fs = map (chunk reqID) cs @ ts \<and> ends_with reqID ts \<and>
     (concat cs = [] \<or> concat cs = fst (fst (filter_Flush (cs_filter s)))) \<and>
     (if cs_outputBlocked s then cs = [] \<and> length ts \<le> 1 else length ts = 1))"

lemma quiet_simps [simp]: "quiet []" "quiet (a @ b) \<longleftrightarrow> quiet a \<and> quiet b"
  "quiet (c # tr) \<longleftrightarrow> \<not> is_admission c \<and> \<not> is_locked c \<and> c \<noteq> TUnlock \<and> \<not> is_stream c \<and> quiet tr"
  by (auto simp: quiet_def)

lemma closing_frames_one [simp]: "closes reqID e \<Longrightarrow> closing_frames reqID s [e]"
  unfolding closing_frames_def by (rule exI[of _ "[]"], rule exI[of _ "[e]"]) (simp add: ends_with_def)

lemma closing_frames_none [simp]: "cs_outputBlocked s \<Longrightarrow> closing_frames reqID s []"
  by (simp add: closing_frames_def ends_with_def)

lemma closing_frames_flush:
  "filter_Flush (cs_filter s) = ((emit, b, fb), f) \<Longrightarrow> \<not> cs_outputBlocked s \<Longrightarrow> closes reqID e \<Longrightarrow>
   closing_frames reqID s [chunk reqID emit, e]"
  unfolding closing_frames_def by (rule exI[of _ "[emit]"], rule exI[of _ "[e]"]) (simp add: ends_with_def)

lemma closing_frames_cong:
  "cs_filter s = cs_filter s' \<Longrightarrow> cs_outputBlocked s = cs_outputBlocked s' \<Longrightarrow> closing_frames r s fs = closing_frames r s' fs"
  by (simp add: closing_frames_def)

lemma chat_failed_trace:
  "\<exists>post. cs_trace (chat_failed h E L S D reqID p n result e s) = cs_trace s @ post \<and> number is_settle post = 1 \<and>
     quiet post \<and> closing_frames reqID s (sent post)"
  by (cases "messageReplace e") (auto simp: chat_failed_def)

lemma chat_finish_trace:
  "\<exists>post. cs_trace (chat_finish E reqID result s) = cs_trace s @ post \<and> number is_settle post = 0 \<and>
     quiet post \<and> closing_frames reqID s (sent post)"
proof (cases "cs_outputBlocked s")
  case True
  then show ?thesis by (simp add: chat_finish_def)
next
  case False
  obtain emit blocked fb f where p: "filter_Flush (cs_filter s) = ((emit, blocked, fb), f)" by (metis prod_cases3 surj_pair)
  then show ?thesis
    using False closing_frames_flush[OF p] by (auto simp: chat_finish_def Let_def)
qed

lemma chat_succeeded_ran:
  obtains e s1 s2 d s3 where "recordSuccess L p (res_TotalTokens result) s = (e, s1)"
    "s2 = (if 0 < res_TotalTokens result then note_call (TTokens (res_TotalTokens result)) s1 else s1)"
    "do_set S False p n (res_ConversationID result) (h_conversationTTL h) s2 = (d, s3)"
    "chat_succeeded h E L S reqID p n result s =
       (if e \<noteq> None then send_error E reqID ''INTERNAL'' ''usage accounting failed'' ''error'' s1
        else if res_ConversationID result = [] then chat_finish E reqID result s2
        else if d \<noteq> None then send_error E reqID ''INTERNAL'' ''conversation state unavailable'' ''error'' s3
        else chat_finish E reqID result s3)"
proof -
  obtain e s1 where r: "recordSuccess L p (res_TotalTokens result) s = (e, s1)" by (cases "recordSuccess L p (res_TotalTokens result) s")
  define s2 where "s2 = (if 0 < res_TotalTokens result then note_call (TTokens (res_TotalTokens result)) s1 else s1)"
  obtain d s3 where w: "do_set S False p n (res_ConversationID result) (h_conversationTTL h) s2 = (d, s3)"
    by (cases "do_set S False p n (res_ConversationID result) (h_conversationTTL h) s2")
  show ?thesis by (rule that[OF r s2_def w]) (simp add: chat_succeeded_def r s2_def[symmetric] w Let_def split: option.splits)
qed

lemma chat_succeeded_trace:
  "\<exists>post. cs_trace (chat_succeeded h E L S reqID p n result s) = cs_trace s @ post \<and> number is_settle post = 1 \<and>
     quiet post \<and> closing_frames reqID s (sent post)"
proof -
  obtain e s1 s2 d s3 where r: "recordSuccess L p (res_TotalTokens result) s = (e, s1)"
    and s2: "s2 = (if 0 < res_TotalTokens result then note_call (TTokens (res_TotalTokens result)) s1 else s1)"
    and st: "do_set S False p n (res_ConversationID result) (h_conversationTTL h) s2 = (d, s3)"
    and eq: "chat_succeeded h E L S reqID p n result s =
       (if e \<noteq> None then send_error E reqID ''INTERNAL'' ''usage accounting failed'' ''error'' s1
        else if res_ConversationID result = [] then chat_finish E reqID result s2
        else if d \<noteq> None then send_error E reqID ''INTERNAL'' ''conversation state unavailable'' ''error'' s3
        else chat_finish E reqID result s3)"
    by (rule chat_succeeded_ran)
  note r' = recordSuccess_trace[OF r] and st' = do_set_trace[OF st]
  note cong = closing_frames_cong[of s2 s] closing_frames_cong[of s3 s]
  obtain pre where pre: "cs_trace s2 = cs_trace s @ TRecord p (res_TotalTokens result) # pre" "pre = [] \<or> (\<exists>n. pre = [TTokens n])"
      and same: "cs_outputBlocked s2 = cs_outputBlocked s" "cs_filter s2 = cs_filter s"
    using r' by (cases "0 < res_TotalTokens result") (simp_all add: s2)
  consider (acct) "e \<noteq> None" | (noconv) "e = None" "res_ConversationID result = []"
    | (sterr) "e = None" "res_ConversationID result \<noteq> []" "d \<noteq> None"
    | (ok) "e = None" "res_ConversationID result \<noteq> []" "d = None" by blast
  then show ?thesis
  proof cases
    case acct
    then show ?thesis unfolding eq using r' by auto
  next
    case noconv
    then show ?thesis unfolding eq using pre same cong chat_finish_trace[of E reqID result s2] by auto
  next
    case sterr
    then show ?thesis unfolding eq using pre st' by auto
  next
    case ok
    then show ?thesis unfolding eq using pre st' same cong chat_finish_trace[of E reqID result s3] by auto
  qed
qed

section \<open>The whole request\<close>

text \<open>All frames of a request: chunks, then one frame that ends it, or two when the first is a
  blocked frame. The chunk texts are what the filter emitted on some sequence of deltas.\<close>

definition chat_frames :: "string \<Rightarrow> moderator \<Rightarrow> (string \<Rightarrow> bool) \<Rightarrow> ServerEnvelope list \<Rightarrow> bool" where
  "chat_frames reqID m valid fs \<longleftrightarrow> (\<exists>cs ts ds. fs = map (chunk reqID) cs @ ts \<and> ends_with reqID ts \<and>
     (length ts = 1 \<or> (\<exists>fb e. ts = [blockedEnvelope reqID fb, e])) \<and> (\<forall>d \<in> set ds. valid d) \<and>
     (concat cs = fst (push_all ds (NewOutputFilter m)) \<or> concat cs = fst (stream_all ds (NewOutputFilter m))))"

lemma chat_frames_one [simp]: "closes reqID e \<Longrightarrow> chat_frames reqID m valid [e]"
  unfolding chat_frames_def by (rule exI[of _ "[]"], rule exI[of _ "[e]"], rule exI[of _ "[]"]) (simp add: ends_with_def)

lemma chat_frames_join:
  assumes "streaming reqID m valid t0 s" "cs_trace s = t0 @ tail" "closing_frames reqID s fs"
  shows "chat_frames reqID m valid (sent tail @ fs) \<and> quiet tail \<and> number is_settle tail = 0"
proof -
  obtain cs ds fb where st: "\<forall>c \<in> set tail. \<exists>e l k. c = TSend e \<or> c = TMetric l \<or> c = TFirstToken k"
     "sent tail = map (chunk reqID) cs @ (if cs_outputBlocked s then [blockedEnvelope reqID fb] else [])"
     "\<forall>d \<in> set ds. valid d" "push_all ds (NewOutputFilter m) = (concat cs, cs_filter s)"
    using assms(1,2) by (auto simp: streaming_def)
  obtain cs2 ts where cl: "fs = map (chunk reqID) cs2 @ ts" "ends_with reqID ts"
     "concat cs2 = [] \<or> concat cs2 = fst (fst (filter_Flush (cs_filter s)))"
     "if cs_outputBlocked s then cs2 = [] \<and> length ts \<le> 1 else length ts = 1"
    using assms(3) by (auto simp: closing_frames_def)
  have flush: "concat (cs @ cs2) = fst (push_all ds (NewOutputFilter m)) \<or> concat (cs @ cs2) = fst (stream_all ds (NewOutputFilter m))"
    using st(4) cl(3) by (auto simp: stream_all_def split: prod.splits)
  have none: "number P tail = 0" if "\<And>e. \<not> P (TSend e)" "\<And>l. \<not> P (TMetric l)" "\<And>k. \<not> P (TFirstToken k)" for P
    using st(1) that unfolding number_def by (auto simp: filter_empty_conv)
  let ?ts = "(if cs_outputBlocked s then [blockedEnvelope reqID fb] else []) @ ts"
  have "ends_with reqID ?ts" using cl(2) by (auto simp: ends_with_def)
  moreover have "length ?ts = 1 \<or> (\<exists>fb e. ?ts = [blockedEnvelope reqID fb, e])"
    using cl(4) by (auto simp: le_Suc_eq length_Suc_conv split: if_splits)
  moreover have "sent tail @ fs = map (chunk reqID) (cs @ cs2) @ ?ts"
    using st(2) cl(1,4) by (auto split: if_splits)
  ultimately have "chat_frames reqID m valid (sent tail @ fs)"
    unfolding chat_frames_def using flush st(3) by blast
  then show ?thesis using none by (simp add: quiet_def)
qed

text \<open>A streaming part that returns has run \<open>ChatStream\<close> and then one of the two endings.\<close>

lemma chat_stream_ran:
  assumes "chat_stream h E L S D reqID p n query inputs conv s = Some s'"
  obtains result err s1 where
    "dStream D (upstream_req p n query inputs conv) on_event (on_delta E reqID) (stream_start h E (upstream_req p n query inputs conv) s) =
       Some ((result, err), s1)"
    "s' = (case err of Some e \<Rightarrow> chat_failed h E L S D reqID p n result e (upstream_latency E s1)
       | None \<Rightarrow> chat_succeeded h E L S reqID p n result (upstream_latency E s1))"
  using assms by (auto simp: chat_stream_def Let_def split: option.splits)

definition dify_contract :: "'w dify_if \<Rightarrow> (string \<Rightarrow> bool) \<Rightarrow> bool" where
  "dify_contract D valid \<longleftrightarrow> stream_client (dStream D) same_locals valid"

lemma chat_stream_trace:
  assumes D: "dify_contract D valid"
    and c: "chat_stream h E L S D reqID p n query inputs conv s = Some s'"
  shows "\<exists>post. cs_trace s' = cs_trace s @ TStream (upstream_req p n query inputs conv) # post \<and>
     number is_settle post = 1 \<and> quiet post \<and> chat_frames reqID (h_moderator h) valid (sent post)"
proof -
  let ?req = "upstream_req p n query inputs conv"
  let ?s0 = "stream_start h E ?req s"
  obtain result err s1 where d: "dStream D ?req on_event (on_delta E reqID) ?s0 = Some ((result, err), s1)"
    and s': "s' = (case err of Some e \<Rightarrow> chat_failed h E L S D reqID p n result e (upstream_latency E s1)
               | None \<Rightarrow> chat_succeeded h E L S reqID p n result (upstream_latency E s1))"
    using chat_stream_ran[OF c] .
  let ?P = "streaming reqID (h_moderator h) valid (cs_trace ?s0)" and ?s1 = "upstream_latency E s1"
  have P0: "?P ?s0" by (rule streaming_start) simp_all
  from d have P: "?P s1"
    by (rule stream_client.stream_keeps[OF D[unfolded dify_contract_def], where P = ?P])
      (use P0 in \<open>simp_all add: streaming_moves streaming_on_delta\<close>)
  obtain post where post: "cs_trace s' = cs_trace ?s1 @ post" "number is_settle post = 1" "quiet post" "closing_frames reqID ?s1 (sent post)"
    using s' chat_failed_trace[of h E L S D reqID p n result _ ?s1] chat_succeeded_trace[of h E L S reqID p n result ?s1]
    by (cases err) auto
  have cl: "closing_frames reqID s1 (sent post)" using post(4) by (simp add: closing_frames_def)
  obtain tail where tail: "cs_trace s1 = cs_trace ?s0 @ tail" using P by (auto simp: streaming_def)
  have "cs_trace s' = cs_trace s @ TStream ?req # tail @ TUpstreamLatency (re_now E (cs_world s1) - cs_start s1) # post"
    using post(1) tail by simp
  then show ?thesis using post chat_frames_join[OF P tail cl]
    by (intro exI[of _ "tail @ TUpstreamLatency (re_now E (cs_world s1) - cs_start s1) # post"]) simp
qed

lemma resolveConversation_trace:
  assumes "resolveConversation h E S p n clientConv s = Some (conv, unlock, s')"
  shows "\<exists>r. cs_trace s' = cs_trace s @ r \<and> sent r = [] \<and> number is_settle r = 0 \<and> number is_admission r = 0 \<and>
     number is_stream r = 0 \<and> number is_locked r = number (\<lambda>c. c = TUnlock) r + (if unlock = None then 0 else 1)"
proof -
  obtain g s1 where g: "do_get S p n s = (g, s1)" by (cases "do_get S p n s")
  note g' = do_get_trace[OF g]
  show ?thesis
  proof (cases "\<exists>u w. g = Inr [] \<and> TrimSpace clientConv = [] \<and>
      sLock S p n (lock_ttl E (h_conversationLockTTL h) (cs_world s1)) (cs_world s1) = Some (Inr u, w)")
    case True
    then obtain u w where l: "g = Inr []" "TrimSpace clientConv = []"
        "sLock S p n (lock_ttl E (h_conversationLockTTL h) (cs_world s1)) (cs_world s1) = Some (Inr u, w)" by blast
    obtain g2 s2 where g2: "do_get S p n (note_call (TLock p n True) (s1\<lparr>cs_world := w\<rparr>)) = (g2, s2)"
      by (cases "do_get S p n (note_call (TLock p n True) (s1\<lparr>cs_world := w\<rparr>))")
    then have "cs_trace s2 = cs_trace s @ [TGet p n, TLock p n True, TGet p n]" using do_get_trace[OF g2] g' by simp
    then show ?thesis using assms g g2 l by (cases g2) (auto simp: resolveConversation_def split: if_splits)
  next
    case False
    then have "\<exists>r. cs_trace s' = cs_trace s @ r \<and> unlock = None \<and> (r = [TGet p n] \<or> r = [TGet p n, TLock p n False])"
      using assms g g' by (cases g) (auto simp: resolveConversation_def split: if_splits option.splits prod.splits sum.splits)
    then show ?thesis by auto
  qed
qed

text \<open>What precedes the upstream call of a trace, if it has one.\<close>

definition upstream_after :: "(string \<Rightarrow> string \<Rightarrow> 'w \<Rightarrow> (vars \<times> string option) \<times> 'w) \<Rightarrow> string \<Rightarrow> string \<Rightarrow> string \<Rightarrow> call set \<Rightarrow> call list \<Rightarrow> bool" where
  "upstream_after asm p n query before tr \<longleftrightarrow> number is_stream tr = 0 \<or>
     (\<exists>pre rest inputs w w' conv. tr = pre @ TStream (upstream_req p n query inputs conv) # rest \<and>
        asm p n w = ((inputs, None), w') \<and> before \<subseteq> set pre \<and> number is_stream pre = 0 \<and> number is_stream rest = 0)"

lemma upstream_after_none: "number is_stream tr = 0 \<Longrightarrow> upstream_after asm p n query before tr"
  by (simp add: upstream_after_def)

lemma upstream_after_extend:
  assumes "upstream_after asm p n query before tr" "number is_stream a = 0" "number is_stream b = 0" "before' \<subseteq> set a \<union> before"
  shows "upstream_after asm p n query before' (a @ tr @ b)"
proof (cases "number is_stream tr = 0")
  case True
  then show ?thesis using assms by (simp add: upstream_after_def)
next
  case False
  then obtain pre rest inputs w w' conv where "tr = pre @ TStream (upstream_req p n query inputs conv) # rest"
      "asm p n w = ((inputs, None), w')" "before \<subseteq> set pre" "number is_stream pre = 0" "number is_stream rest = 0"
    using assms(1) by (auto simp: upstream_after_def)
  then show ?thesis
    unfolding upstream_after_def using assms(2-4)
    by (intro disjI2 exI[of _ "a @ pre"] exI[of _ "rest @ b"] exI[of _ inputs] exI[of _ w] exI[of _ w'] exI[of _ conv]) auto
qed

lemma chat_resolved_trace:
  assumes D: "dify_contract D valid"
    and c: "chat_resolved h E L S asm D reqID p n query conv s = Some s'"
  shows "\<exists>post. cs_trace s' = cs_trace s @ post \<and> number is_settle post = 1 \<and> number is_admission post = 0 \<and>
     number is_locked post = 0 \<and> number (\<lambda>c. c = TUnlock) post = 0 \<and> chat_frames reqID (h_moderator h) valid (sent post) \<and>
     upstream_after asm p n query {TBuild p n, TCheckInput query True} post"
proof (cases conv)
  case (Inl e)
  then show ?thesis using c by (auto simp: chat_resolved_def upstream_after_none)
next
  case (Inr cid)
  obtain inputs err w where a: "asm p n (cs_world s) = ((inputs, err), w)" by (metis surj_pair)
  obtain ok fb where k: "mCheckInput (h_moderator h) query = (ok, fb)" by (cases "mCheckInput (h_moderator h) query")
  show ?thesis
  proof (cases "err = None \<and> ok")
    case False
    then show ?thesis using c Inr a k by (cases "err = None") (auto simp: chat_resolved_def upstream_after_none Let_def)
  next
    case True
    define s2 where "s2 = note_call (TCheckInput query True) (note_call (TBuild p n) (s\<lparr>cs_world := w\<rparr>))"
    have "chat_stream h E L S D reqID p n query inputs cid s2 = Some s'"
      using c Inr a k True by (simp add: chat_resolved_def Let_def s2_def)
    from chat_stream_trace[OF D this] obtain post where post:
      "cs_trace s' = cs_trace s @ TBuild p n # TCheckInput query True # TStream (upstream_req p n query inputs cid) # post"
      "number is_settle post = 1" "quiet post" "chat_frames reqID (h_moderator h) valid (sent post)"
      by (auto simp: s2_def)
    have "upstream_after asm p n query {TBuild p n, TCheckInput query True}
        (TBuild p n # TCheckInput query True # TStream (upstream_req p n query inputs cid) # post)"
      unfolding upstream_after_def using a True post(3)
      by (intro disjI2 exI[of _ "[TBuild p n, TCheckInput query True]"] exI[of _ post] exI[of _ inputs] exI[of _ "cs_world s"]
          exI[of _ w] exI[of _ cid]) (auto simp: quiet_def)
    then show ?thesis using post by (auto simp: quiet_def)
  qed
qed

lemma chat_admitted_trace:
  assumes D: "dify_contract D valid"
    and c: "chat_admitted h E L S asm D reqID p n query clientConv s = Some s'"
  shows "\<exists>post. cs_trace s' = cs_trace s @ post \<and> number is_settle post = 1 \<and> number is_admission post = 0 \<and>
     number is_locked post = number (\<lambda>c. c = TUnlock) post \<and> chat_frames reqID (h_moderator h) valid (sent post) \<and>
     upstream_after asm p n query {TBuild p n, TCheckInput query True} post"
proof -
  obtain conv unlock s1 s2 where r: "resolveConversation h E S p n clientConv s = Some (conv, unlock, s1)"
    and m: "chat_resolved h E L S asm D reqID p n query conv s1 = Some s2"
    and s': "s' = (case unlock of None \<Rightarrow> s2 | Some u \<Rightarrow> do_unlock S u s2)"
    using c by (auto simp: chat_admitted_def split: option.splits)
  obtain a where a: "cs_trace s1 = cs_trace s @ a" "sent a = []" "number is_settle a = 0" "number is_admission a = 0"
     "number is_stream a = 0" "number is_locked a = number (\<lambda>c. c = TUnlock) a + (if unlock = None then 0 else 1)"
    using resolveConversation_trace[OF r] by blast
  obtain b where b: "cs_trace s2 = cs_trace s1 @ b" "number is_settle b = 1" "number is_admission b = 0"
     "number is_locked b = 0" "number (\<lambda>c. c = TUnlock) b = 0" "chat_frames reqID (h_moderator h) valid (sent b)"
     "upstream_after asm p n query {TBuild p n, TCheckInput query True} b"
    using chat_resolved_trace[OF D m] by blast
  let ?u = "if unlock = None then [] else [TUnlock]"
  have "upstream_after asm p n query {TBuild p n, TCheckInput query True} (a @ b @ ?u)"
    by (rule upstream_after_extend[OF b(7) a(5)]) simp_all
  moreover have "cs_trace s' = cs_trace s @ a @ b @ ?u" using s' a(1) b(1) by (cases unlock) simp_all
  ultimately show ?thesis using a b by (intro exI[of _ "a @ b @ ?u"]) simp
qed

text \<open>Everything above together, for a request from its first check to its last call.\<close>

definition ready_for :: "'w handler \<Rightarrow> (string \<Rightarrow> bool) \<Rightarrow> bool" where
  "ready_for h valid \<longleftrightarrow> (\<forall>D. h_dify h = Some D \<longrightarrow> dify_contract D valid)"

lemma HandleChat_trace:
  assumes D: "ready_for h valid" and c: "HandleChat h E sess req s = Some s'"
  defines "p \<equiv> playerID sess" and "n \<equiv> TrimSpace (chat_GetNpcId req)" and "query \<equiv> TrimSpace (chat_GetQuery req)"
  shows "\<exists>post. cs_trace s' = cs_trace s @ post \<and> number is_settle post = number is_admission post \<and>
     number is_admission post \<le> 1 \<and> number is_locked post = number (\<lambda>c. c = TUnlock) post \<and>
     chat_frames (chat_GetRequestId req) (h_moderator h) valid (sent post) \<and>
     (number is_stream post = 0 \<or> n \<noteq> [] \<and> query \<noteq> [] \<and> \<not> queryTooLong query \<and> (\<exists>asm. h_contextAssembler h = Some asm \<and>
        upstream_after asm p n query {TAllow p True, TBuild p n, TCheckInput query True} post))"
proof (cases "n = [] \<or> query = [] \<or> queryTooLong query \<or> h_limiter h = None \<or> h_store h = None \<or>
    h_contextAssembler h = None \<or> h_dify h = None")
  case True
  then show ?thesis using c
    by (auto simp: HandleChat_def Let_def n_def query_def split: option.splits if_splits)
next
  case False
  then obtain L S asm d where d: "h_limiter h = Some L" "h_store h = Some S" "h_contextAssembler h = Some asm" "h_dify h = Some d"
    by auto
  obtain ok err w where a: "lAllow L p 0 (cs_world s) = ((ok, err), w)" by (metis surj_pair)
  show ?thesis
  proof (cases "ok \<and> err = None")
    case no: False
    then show ?thesis using c d a False by (auto simp: HandleChat_def Let_def p_def n_def query_def)
  next
    case True
    define s1 where "s1 = note_call (TAllow p True) (s\<lparr>cs_world := w\<rparr>)"
    have "chat_admitted h E L S asm d (chat_GetRequestId req) p n query (chat_GetConversationId req) s1 = Some s'"
      using c d a False True by (simp add: HandleChat_def Let_def p_def n_def query_def s1_def)
    moreover have "dify_contract d valid" using D d(4) by (simp add: ready_for_def)
    ultimately obtain post where post: "cs_trace s' = cs_trace s1 @ post" "number is_settle post = 1" "number is_admission post = 0"
       "number is_locked post = number (\<lambda>c. c = TUnlock) post" "chat_frames (chat_GetRequestId req) (h_moderator h) valid (sent post)"
       "upstream_after asm p n query {TBuild p n, TCheckInput query True} post"
      using chat_admitted_trace by blast
    have "upstream_after asm p n query {TAllow p True, TBuild p n, TCheckInput query True} (TAllow p True # post)"
      using upstream_after_extend[OF post(6), of "[TAllow p True]" "[]" "{TAllow p True, TBuild p n, TCheckInput query True}"] by simp
    then show ?thesis using post False d(3) by (intro exI[of _ "TAllow p True # post"]) (simp add: s1_def)
  qed
qed

text \<open>A valid request on a handler with a missing interface is refused, and no interface is called.\<close>

lemma HandleChat_not_ready:
  assumes "ready h = Some e" "TrimSpace (chat_GetNpcId req) \<noteq> []" "TrimSpace (chat_GetQuery req) \<noteq> []" "\<not> queryTooLong (TrimSpace (chat_GetQuery req))"
  shows "HandleChat h E sess req s = Some (send_error E (chat_GetRequestId req) ''INTERNAL'' ''gateway is not ready'' ''error'' s)"
  using assms by (auto simp: ready_def HandleChat_def Let_def split: if_splits option.splits)

lemma ready_parts: "ready h = None \<longleftrightarrow> (\<exists>L S asm D. h_limiter h = Some L \<and> h_store h = Some S \<and> h_contextAssembler h = Some asm \<and> h_dify h = Some D)"
  by (auto simp: ready_def)

section \<open>The router meets the contract\<close>

lemma stream_http_outside: "outside_only (stream_http H) same_locals"
proof -
  have "same_locals s s" for s :: "'w chat_state" unfolding same_locals_def by (rule exI[of _ "cs_world s"]) simp
  then show ?thesis
    by (auto simp: outside_only_def stream_http_def on_world_def same_locals_def split: prod.splits)
qed

interpretation router_stream: stream_client "router_ChatStream (stream_http H) base maxB r" same_locals "\<lambda>_. True"
  for H base maxB r
  by (rule router_contract[OF stream_http_outside]) simp

definition utf8_text :: "string \<Rightarrow> bool" where
  "utf8_text d \<longleftrightarrow> (\<exists>rs. list_all scalar rs \<and> d = utf8 rs)"

definition decodes_utf8 :: "('w, 'b) http \<Rightarrow> bool" where
  "decodes_utf8 H \<longleftrightarrow> (\<forall>x ev. decodeEvent H x = Inr ev \<longrightarrow> utf8_text (ev_Answer ev))"

lemma router_dify_contract: "dify_contract (router_dify H Hb base maxB mu pe r) (\<lambda>_. True)"
  using router_stream.stream_client_axioms by (simp add: dify_contract_def router_dify_def)

lemma dStream_router [simp]: "dStream (router_dify H Hb base maxB mu pe r) = router_ChatStream (stream_http H) base maxB r"
  by (simp add: router_dify_def)

text \<open>Calls of a kind that the streaming part itself does not make: what it leaves to its ending.\<close>

definition beside_stream :: "(call \<Rightarrow> bool) \<Rightarrow> bool" where
  "beside_stream f \<longleftrightarrow> (\<forall>e. \<not> f (TSend e)) \<and> (\<forall>l. \<not> f (TMetric l)) \<and> (\<forall>r. \<not> f (TStream r)) \<and> (\<forall>k. \<not> f (TFirstToken k)) \<and>
     (\<forall>k. \<not> f (TUpstreamLatency k))"

lemma on_delta_beside: "beside_stream f \<Longrightarrow> filter f (cs_trace (on_delta E reqID d s)) = filter f (cs_trace s)"
  by (auto simp: beside_stream_def on_delta_def Let_def split: prod.splits)

lemma chat_stream_beside:
  assumes "chat_stream h E L S (router_dify H Hb base maxB mu pe r) reqID p n query inputs conv s = Some s'" "beside_stream f"
  obtains result err s1 where "filter f (cs_trace s1) = filter f (cs_trace s)"
    "s' = (case err of Some e \<Rightarrow> chat_failed h E L S (router_dify H Hb base maxB mu pe r) reqID p n result e s1
       | None \<Rightarrow> chat_succeeded h E L S reqID p n result s1)"
proof -
  let ?req = "upstream_req p n query inputs conv"
  obtain result err s1 where d: "router_ChatStream (stream_http H) base maxB r ?req on_event (on_delta E reqID) (stream_start h E ?req s) = Some ((result, err), s1)"
    and s': "s' = (case err of Some e \<Rightarrow> chat_failed h E L S (router_dify H Hb base maxB mu pe r) reqID p n result e (upstream_latency E s1)
       | None \<Rightarrow> chat_succeeded h E L S reqID p n result (upstream_latency E s1))"
    using chat_stream_ran[OF assms(1), simplified] .
  have "filter f (cs_trace s1) = filter f (cs_trace s)"
    by (rule router_stream.stream_keeps[OF d, where P = "\<lambda>s'. filter f (cs_trace s') = filter f (cs_trace s)"])
      (use assms(2) in \<open>auto simp: same_locals_def on_event_def on_delta_beside\<close>, simp add: beside_stream_def)
  then show ?thesis using that[of "upstream_latency E s1" result err] s' assms(2) by (simp add: beside_stream_def)
qed

lemma router_dify_utf8: "decodes_utf8 H \<Longrightarrow> dify_contract (router_dify H Hb base maxB mu pe r) utf8_text"
  unfolding dify_contract_def router_dify_def dify_if.simps
  by (rule router_contract[OF stream_http_outside]) (simp add: decodes_utf8_def stream_http_def)

end
