(* ===== verification/Ledger.thy ===== *)
theory Ledger
  imports Pipeline_Props
begin

text \<open>
  The inflight slot of one chat request, followed through the whole of \<open>HandleChat\<close>. \<open>slot_ledger\<close> is what the
  request path relies on: a predicate on the world for each stage of the slot, which admission
  and settlement move and every other call keeps. The limiter, the store, the context assembler
  and the Dify client provide it; \<open>HandleChat\<close> then never ends a request that still holds a slot.
\<close>

datatype stage = Waiting | Holding | Settled

locale slot_ledger =
  fixes slot :: "stage \<Rightarrow> 'w \<Rightarrow> bool"
    and owned :: "unlocker \<Rightarrow> bool"
    and p :: string
    and h :: "'w handler"
    and E :: "'w request_env"
    and L :: "'w limiter_if"
    and S :: "'w store_if"
    and asm :: "string \<Rightarrow> string \<Rightarrow> 'w \<Rightarrow> (vars \<times> string option) \<times> 'w"
    and D :: "'w dify_if"
  assumes parts: "h_limiter h = Some L" "h_store h = Some S" "h_contextAssembler h = Some asm" "h_dify h = Some D"
    and lock_ttl_pos: "0 < h_conversationLockTTL h"
    and allow: "slot Waiting w \<Longrightarrow> lAllow L p 0 w = ((ok, e), w') \<Longrightarrow> slot (if ok \<and> e = None then Holding else Settled) w'"
    and record_settles: "slot Holding w \<Longrightarrow> slot Settled (snd (lRecord L p n w))"
    and failure_settles: "slot Holding w \<Longrightarrow> slot Settled (snd (lRecordFailure L w))"
    and release_settles: "slot Holding w \<Longrightarrow> slot Settled (snd (lRelease L w))"
    and get_keeps: "slot st w \<Longrightarrow> slot st (snd (sGet S p npc w))"
    and set_keeps: "slot st w \<Longrightarrow> slot st (snd (sSet S detached p npc c ttl w))"
    and lock_keeps: "slot st w \<Longrightarrow> 0 < ttl \<Longrightarrow> sLock S p npc ttl w = Some (r, w') \<Longrightarrow> slot st w' \<and> (\<forall>u. r = Inr u \<longrightarrow> owned u)"
    and unlock_keeps: "slot st w \<Longrightarrow> owned u \<Longrightarrow> slot st (sUnlock S u w)"
    and build_keeps: "slot st w \<Longrightarrow> slot st (snd (asm p npc w))"
    and send_keeps: "slot st w \<Longrightarrow> slot st (snd (re_send E env w))"
    and stop_keeps: "slot st w \<Longrightarrow> slot st (snd (dStop D tid usr w))"
    and stream_keeps: "slot st (cs_world s) \<Longrightarrow> dStream D req on_event (on_delta E reqID) s = Some (x, s') \<Longrightarrow> slot st (cs_world s')"
begin

lemma world_note [simp]: "cs_world (note_call c s) = cs_world s"
  by (simp add: note_call_def)

lemma frames_keep [simp, intro]:
  "slot st (cs_world s) \<Longrightarrow> slot st (cs_world (do_send E env s))"
  "slot st (cs_world s) \<Longrightarrow> slot st (cs_world (metric l s))"
  "slot st (cs_world s) \<Longrightarrow> slot st (cs_world (send_error E r c m l s))"
  "slot st (cs_world s) \<Longrightarrow> slot st (cs_world (send_blocked E r fb s))"
  by (simp_all add: do_send_def metric_def send_error_def send_blocked_def send_keeps)

lemma settles [simp, intro]:
  "slot Holding (cs_world s) \<Longrightarrow> slot Settled (cs_world (snd (recordSuccess L p n s)))"
  "slot Holding (cs_world s) \<Longrightarrow> slot Settled (cs_world (recordFailure L s))"
  "slot Holding (cs_world s) \<Longrightarrow> slot Settled (cs_world (releaseSlot L s))"
  using record_settles[of "cs_world s" n] failure_settles[of "cs_world s"] release_settles[of "cs_world s"]
  by (auto simp: recordSuccess_def recordFailure_def releaseSlot_def split: prod.splits)

lemma store_keeps [simp, intro]:
  "slot st (cs_world s) \<Longrightarrow> slot st (cs_world (snd (do_get S p npc s)))"
  "slot st (cs_world s) \<Longrightarrow> slot st (cs_world (snd (do_set S b p npc c ttl s)))"
  "slot st (cs_world s) \<Longrightarrow> slot st (cs_world (persistConversation h S p npc c s))"
  "slot st (cs_world s) \<Longrightarrow> owned u \<Longrightarrow> slot st (cs_world (do_unlock S u s))"
  "slot st (cs_world s) \<Longrightarrow> slot st (cs_world (stopUpstream D tid usr s))"
  using get_keeps[of st "cs_world s" npc] set_keeps[of st "cs_world s" _ npc] unlock_keeps[of st "cs_world s" u] stop_keeps[of st "cs_world s" tid usr]
  by (auto simp: do_get_def do_set_def persistConversation_def do_unlock_def stopUpstream_def split: prod.splits)
    (metis snd_conv)+

lemma chat_failed_settles:
  "slot Holding (cs_world s) \<Longrightarrow> slot Settled (cs_world (chat_failed h E L S D reqID p npc result e s))"
  by (auto simp: chat_failed_def split: option.splits)

lemma chat_finish_keeps: "slot st (cs_world s) \<Longrightarrow> slot st (cs_world (chat_finish E reqID result s))"
  by (auto simp: chat_finish_def Let_def split: prod.splits)

lemma chat_succeeded_settles:
  assumes "slot Holding (cs_world s)"
  shows "slot Settled (cs_world (chat_succeeded h E L S reqID p npc result s))"
proof -
  obtain e s1 s2 d s3 where r: "recordSuccess L p (res_TotalTokens result) s = (e, s1)"
    and s2: "s2 = (if 0 < res_TotalTokens result then note_call (TTokens (res_TotalTokens result)) s1 else s1)"
    and st: "do_set S False p npc (res_ConversationID result) (h_conversationTTL h) s2 = (d, s3)"
    and eq: "chat_succeeded h E L S reqID p npc result s =
       (if e \<noteq> None then send_error E reqID ''INTERNAL'' ''usage accounting failed'' ''error'' s1
        else if res_ConversationID result = [] then chat_finish E reqID result s2
        else if d \<noteq> None then send_error E reqID ''INTERNAL'' ''conversation state unavailable'' ''error'' s3
        else chat_finish E reqID result s3)"
    by (rule chat_succeeded_ran)
  have s1: "slot Settled (cs_world s1)" using settles(1)[OF assms, of "res_TotalTokens result"] r by simp
  then have s2': "slot Settled (cs_world s2)" by (simp add: s2)
  have "slot Settled (cs_world s3)" using store_keeps(2)[OF s2', of False npc "res_ConversationID result" "h_conversationTTL h"] st by simp
  then show ?thesis unfolding eq using s1 s2' chat_finish_keeps by auto
qed

lemma chat_stream_settles:
  assumes "slot Holding (cs_world s)" "chat_stream h E L S D reqID p npc query inputs conv s = Some s'"
  shows "slot Settled (cs_world s')"
  using assms chat_failed_settles chat_succeeded_settles
  by (auto simp: chat_stream_def Let_def split: option.splits dest!: stream_keeps[of Holding, rotated])

lemma chat_resolved_settles:
  assumes "slot Holding (cs_world s)" "chat_resolved h E L S asm D reqID p npc query conv s = Some s'"
  shows "slot Settled (cs_world s')"
proof (cases conv)
  case (Inl e)
  then show ?thesis using assms by (auto simp: chat_resolved_def)
next
  case (Inr c)
  obtain inputs err w where b: "asm p npc (cs_world s) = ((inputs, err), w)" by (metis prod.exhaust)
  have w: "slot Holding w" using build_keeps[OF assms(1), of npc] b by simp
  have st: "slot Settled (cs_world s')" if "chat_stream h E L S D reqID p npc query inputs c s2 = Some s'" "cs_world s2 = w" for s2
    using chat_stream_settles[OF _ that(1)] that(2) w by simp
  show ?thesis
    using assms(2) Inr b w st by (auto simp: chat_resolved_def Let_def split: if_splits prod.splits)
qed

lemma lock_ttl_positive: "0 < lock_ttl E (h_conversationLockTTL h) w"
  using lock_ttl_pos by (auto simp: lock_ttl_def Let_def split: option.splits)

lemma resolveConversation_keeps:
  assumes "slot Holding (cs_world s)" "resolveConversation h E S p npc cc s = Some (conv, u, s')"
  shows "slot Holding (cs_world s') \<and> (\<forall>x. u = Some x \<longrightarrow> owned x)"
proof -
  obtain r1 s1 where g: "do_get S p npc s = (r1, s1)" by (cases "do_get S p npc s")
  have s1: "slot Holding (cs_world s1)" using store_keeps(1)[OF assms(1), of npc] g by simp
  let ?lock = "sLock S p npc (lock_ttl E (h_conversationLockTTL h) (cs_world s1)) (cs_world s1)"
  note keep = lock_keeps[OF s1 lock_ttl_positive]
  show ?thesis
  proof (cases "\<exists>x w. ?lock = Some (Inr x, w) \<and> r1 = Inr [] \<and> TrimSpace cc = []")
    case True
    then obtain x w where l: "?lock = Some (Inr x, w)" "r1 = Inr []" "TrimSpace cc = []" by blast
    have k: "slot Holding w" "owned x" using keep[OF l(1)] by auto
    obtain r2 s2 where g2: "do_get S p npc (note_call (TLock p npc True) (s1\<lparr>cs_world := w\<rparr>)) = (r2, s2)"
      by (cases "do_get S p npc (note_call (TLock p npc True) (s1\<lparr>cs_world := w\<rparr>))")
    have "slot Holding (cs_world s2)" using store_keeps(1)[of Holding "note_call (TLock p npc True) (s1\<lparr>cs_world := w\<rparr>)" npc] k(1) g2 by simp
    then show ?thesis using assms(2) g l g2 k by (auto simp: resolveConversation_def split: sum.splits if_splits)
  next
    case False
    then show ?thesis
      using assms(2) g s1 keep by (auto simp: resolveConversation_def split: sum.splits if_splits option.splits prod.splits)
  qed
qed

lemma chat_admitted_settles:
  assumes "slot Holding (cs_world s)" "chat_admitted h E L S asm D reqID p npc query cc s = Some s'"
  shows "slot Settled (cs_world s')"
proof -
  obtain conv u s1 s2 where r: "resolveConversation h E S p npc cc s = Some (conv, u, s1)"
    and c: "chat_resolved h E L S asm D reqID p npc query conv s1 = Some s2"
    and s': "s' = (case u of None \<Rightarrow> s2 | Some x \<Rightarrow> do_unlock S x s2)"
    using assms(2) by (auto simp: chat_admitted_def split: option.splits)
  note k = resolveConversation_keeps[OF assms(1) r]
  have "slot Settled (cs_world s2)" using chat_resolved_settles[OF _ c] k by blast
  then show ?thesis using s' k by (cases u) auto
qed

lemma HandleChat_settles:
  assumes "playerID sess = p" "slot Waiting (cs_world s)" "HandleChat h E sess req s = Some s'"
  shows "slot Waiting (cs_world s') \<or> slot Settled (cs_world s')"
proof -
  let ?npc = "TrimSpace (chat_GetNpcId req)" and ?q = "TrimSpace (chat_GetQuery req)"
  obtain ok e w where a: "lAllow L p 0 (cs_world s) = ((ok, e), w)" by (metis prod.exhaust)
  have w: "slot (if ok \<and> e = None then Holding else Settled) w" by (rule allow[OF assms(2) a])
  show ?thesis
  proof (cases "?npc = [] \<or> ?q = [] \<or> queryTooLong ?q")
    case True
    then show ?thesis using assms(2,3) by (auto simp: HandleChat_def Let_def split: if_splits)
  next
    case False
    show ?thesis
    proof (cases "ok \<and> e = None")
      case True
      then have "slot Holding (cs_world (note_call (TAllow p True) (s\<lparr>cs_world := w\<rparr>)))" using w by simp
      moreover have "chat_admitted h E L S asm D (chat_GetRequestId req) p ?npc ?q (chat_GetConversationId req)
          (note_call (TAllow p True) (s\<lparr>cs_world := w\<rparr>)) = Some s'"
        using False True assms(1,3) parts a by (simp add: HandleChat_def Let_def)
      ultimately show ?thesis using chat_admitted_settles by blast
    next
      case refused: False
      then show ?thesis using False assms(1,3) parts a w by (auto simp: HandleChat_def Let_def split: if_splits)
    qed
  qed
qed

end

end
