(* ===== verification/Config.thy ===== *)
theory Config
  imports Go_Strings "HOL-Library.AList"
begin

text \<open>
  \<^verbatim>\<open>internal/config/config.go\<close>: the startup configuration. The process environment is a function from
  names to values, empty when unset, as \<open>os.Getenv\<close> gives it. The key map is an association list in
  order of first assignment; an assignment to a name already there replaces its key. The joined
  error of \<open>Load\<close> is the list of its parts.
\<close>

section \<open>Definitions\<close>

type_synonym environment = "string \<Rightarrow> string"

datatype config_error =
    MissingVar string
  | InvalidMapping nat
  | NotPositiveInt string
  | NotBoolean string

record Config =
  GatewayAddr :: string
  GatewayAdminAddr :: string
  DifyBaseURL :: string
  DifyAppKeys :: "(string \<times> string) list"
  RedisAddr :: string
  AuthJWTPubKey :: string
  UpstreamTimeoutSec :: int
  cfg_RatePerPlayer :: string
  cfg_TokenBudgetDaily :: int
  cfg_MaxInflightUpstream :: int
  ModerationEnabled :: bool
  GatewayServiceName :: string
  OTELExporterOTLPEndpoint :: string

definition envString :: "environment \<Rightarrow> string \<Rightarrow> string \<Rightarrow> string" where
  "envString env name fallback = (let value = TrimSpace (env name) in if value = [] then fallback else value)"

definition normalizePEMEnv :: "string \<Rightarrow> string" where
  "normalizePEMEnv raw = unescape_newlines (TrimSpace raw)"

text \<open>The loop of \<open>parseAppKeys\<close> over the pairs from position \<open>i\<close>, counted from 0.\<close>

fun parse_pairs :: "nat \<Rightarrow> string list \<Rightarrow> (string \<times> string) list \<Rightarrow> config_error + (string \<times> string) list" where
  "parse_pairs i [] keys = Inr keys"
| "parse_pairs i (p # ps) keys =
     (let pair = TrimSpace p in
      if pair = [] then parse_pairs (Suc i) ps keys
      else case strings_Cut pair ''='' of
        None \<Rightarrow> Inl (InvalidMapping (i + 1))
      | Some (name0, key0) \<Rightarrow>
          (let name = TrimSpace name0; key = TrimSpace key0 in
           if name = [] \<or> key = [] then Inl (InvalidMapping (i + 1))
           else parse_pairs (Suc i) ps (AList.update name key keys)))"

definition parseAppKeys :: "string \<Rightarrow> config_error + (string \<times> string) list" where
  "parseAppKeys raw0 =
     (let raw = TrimSpace raw0 in
      if raw = [] then Inl (MissingVar ''DIFY_APP_KEYS'')
      else case parse_pairs 0 (split_on (CHR '';'') raw) [] of
        Inl e \<Rightarrow> Inl e
      | Inr keys \<Rightarrow> if keys = [] then Inl (MissingVar ''DIFY_APP_KEYS'') else Inr keys)"

definition positiveInt :: "string \<Rightarrow> string \<Rightarrow> config_error + int" where
  "positiveInt name raw =
     (case ParseInt raw of
        None \<Rightarrow> Inl (NotPositiveInt name)
      | Some v \<Rightarrow> if v \<le> 0 then Inl (NotPositiveInt name) else Inr v)"

text \<open>A numeric setting: absent it keeps its default, present it must be a positive integer.\<close>

definition int_setting :: "environment \<Rightarrow> string \<Rightarrow> int \<Rightarrow> config_error + int" where
  "int_setting env name dflt =
     (let value = TrimSpace (env name) in if value = [] then Inr dflt else positiveInt name value)"

definition bool_setting :: "environment \<Rightarrow> string \<Rightarrow> bool \<Rightarrow> config_error + bool" where
  "bool_setting env name dflt =
     (let value = TrimSpace (env name) in
      if value = [] then Inr dflt
      else case ParseBool value of None \<Rightarrow> Inl (NotBoolean name) | Some b \<Rightarrow> Inr b)"

definition errs_of :: "config_error + 'a \<Rightarrow> config_error list" where
  "errs_of r = (case r of Inl e \<Rightarrow> [e] | Inr _ \<Rightarrow> [])"

definition missing_if :: "string \<Rightarrow> string \<Rightarrow> config_error list" where
  "missing_if name value = (if value = [] then [MissingVar name] else [])"

definition defaultGatewayAddr :: string where "defaultGatewayAddr = '':9000''"
definition defaultGatewayAdminAddr :: string where "defaultGatewayAdminAddr = '':9001''"
definition defaultUpstreamTimeoutSec :: int where "defaultUpstreamTimeoutSec = 60"
definition defaultRatePerPlayer :: string where "defaultRatePerPlayer = ''1r/2s''"
definition defaultTokenBudgetDaily :: int where "defaultTokenBudgetDaily = 100000"
definition defaultMaxInflight :: int where "defaultMaxInflight = 200"
definition defaultModerationEnabled :: bool where "defaultModerationEnabled = True"
definition defaultGatewayServiceName :: string where "defaultGatewayServiceName = ''game-ai-gateway''"

text \<open>The slice \<open>errs\<close> at the end of \<open>Load\<close>.\<close>

definition load_errors :: "environment \<Rightarrow> config_error list" where
  "load_errors env =
     missing_if ''DIFY_BASE_URL'' (TrimSpace (env ''DIFY_BASE_URL'')) @ missing_if ''REDIS_ADDR'' (TrimSpace (env ''REDIS_ADDR'')) @
     missing_if ''AUTH_JWT_PUBKEY'' (normalizePEMEnv (env ''AUTH_JWT_PUBKEY'')) @ errs_of (parseAppKeys (env ''DIFY_APP_KEYS'')) @
     errs_of (int_setting env ''UPSTREAM_TIMEOUT_SEC'' defaultUpstreamTimeoutSec) @
     errs_of (int_setting env ''TOKEN_BUDGET_DAILY'' defaultTokenBudgetDaily) @
     errs_of (int_setting env ''MAX_INFLIGHT_UPSTREAM'' defaultMaxInflight) @
     errs_of (bool_setting env ''MODERATION_ENABLED'' defaultModerationEnabled)"

text \<open>The value a fallible reading leaves in its field: the zero value with an error.\<close>

definition value_or :: "'a \<Rightarrow> config_error + 'a \<Rightarrow> 'a" where
  "value_or zero r = (case r of Inl _ \<Rightarrow> zero | Inr v \<Rightarrow> v)"

definition Load :: "environment \<Rightarrow> config_error list + Config" where
  "Load env =
     (let errs = load_errors env;
          cfg = \<lparr>GatewayAddr = envString env ''GATEWAY_ADDR'' defaultGatewayAddr,
                 GatewayAdminAddr = envString env ''GATEWAY_ADMIN_ADDR'' defaultGatewayAdminAddr,
                 DifyBaseURL = TrimSpace (env ''DIFY_BASE_URL''),
                 DifyAppKeys = value_or [] (parseAppKeys (env ''DIFY_APP_KEYS'')),
                 RedisAddr = TrimSpace (env ''REDIS_ADDR''),
                 AuthJWTPubKey = normalizePEMEnv (env ''AUTH_JWT_PUBKEY''),
                 UpstreamTimeoutSec = value_or 0 (int_setting env ''UPSTREAM_TIMEOUT_SEC'' defaultUpstreamTimeoutSec),
                 cfg_RatePerPlayer = envString env ''RATE_PER_PLAYER'' defaultRatePerPlayer,
                 cfg_TokenBudgetDaily = value_or 0 (int_setting env ''TOKEN_BUDGET_DAILY'' defaultTokenBudgetDaily),
                 cfg_MaxInflightUpstream = value_or 0 (int_setting env ''MAX_INFLIGHT_UPSTREAM'' defaultMaxInflight),
                 ModerationEnabled = value_or False (bool_setting env ''MODERATION_ENABLED'' defaultModerationEnabled),
                 GatewayServiceName = envString env ''GATEWAY_SERVICE_NAME'' defaultGatewayServiceName,
                 OTELExporterOTLPEndpoint = TrimSpace (env ''OTEL_EXPORTER_OTLP_ENDPOINT'')\<rparr>
      in if errs \<noteq> [] then Inl errs else Inr cfg)"

section \<open>A loaded configuration is well-formed\<close>

definition keys_wf :: "(string \<times> string) list \<Rightarrow> bool" where
  "keys_wf ks \<longleftrightarrow> distinct (map fst ks) \<and> list_all (\<lambda>(n, k). n \<noteq> [] \<and> k \<noteq> [] \<and> TrimSpace n = n \<and> TrimSpace k = k) ks"

definition config_wf :: "Config \<Rightarrow> bool" where
  "config_wf c \<longleftrightarrow> DifyBaseURL c \<noteq> [] \<and> RedisAddr c \<noteq> [] \<and> AuthJWTPubKey c \<noteq> [] \<and> DifyAppKeys c \<noteq> [] \<and> keys_wf (DifyAppKeys c) \<and>
     GatewayAddr c \<noteq> [] \<and> GatewayAdminAddr c \<noteq> [] \<and> cfg_RatePerPlayer c \<noteq> [] \<and> GatewayServiceName c \<noteq> [] \<and>
     0 < UpstreamTimeoutSec c \<and> 0 < cfg_TokenBudgetDaily c \<and> 0 < cfg_MaxInflightUpstream c \<and>
     in_int64 (UpstreamTimeoutSec c) \<and> in_int64 (cfg_TokenBudgetDaily c) \<and> in_int64 (cfg_MaxInflightUpstream c)"

lemma update_all: "list_all P al \<Longrightarrow> P (k, v) \<Longrightarrow> list_all P (AList.update k v al)"
  by (induction al) auto

lemma parse_pairs_wf: "parse_pairs i ps keys = Inr ks \<Longrightarrow> keys_wf keys \<Longrightarrow> keys_wf ks"
proof (induction i ps keys rule: parse_pairs.induct)
  case (2 i p ps keys)
  show ?case
  proof (cases "TrimSpace p = []")
    case True
    then show ?thesis using 2 by simp
  next
    case False
    obtain n k where c: "strings_Cut (TrimSpace p) ''='' = Some (n, k)" "TrimSpace n \<noteq> []" "TrimSpace k \<noteq> []"
      using 2(3) False by (auto simp: Let_def split: option.splits if_splits)
    have "keys_wf (AList.update (TrimSpace n) (TrimSpace k) keys)"
      using 2(4) c(2,3) by (auto simp: keys_wf_def distinct_update intro: update_all)
    then show ?thesis using 2(2)[OF refl False c(1) refl refl refl] 2(3) False c by (simp add: Let_def)
  qed
qed simp

lemma parseAppKeys_wf: "parseAppKeys raw = Inr ks \<Longrightarrow> ks \<noteq> [] \<and> keys_wf ks"
  using parse_pairs_wf[of 0 "split_on (CHR '';'') (TrimSpace raw)" "[]"]
  by (auto simp: parseAppKeys_def Let_def keys_wf_def split: if_splits sum.splits)

lemma unescape_newlines_Nil [simp]: "unescape_newlines s = [] \<longleftrightarrow> s = []"
  by (cases s rule: unescape_newlines.cases) auto

lemma normalizePEMEnv_Nil [simp]: "normalizePEMEnv raw = [] \<longleftrightarrow> TrimSpace raw = []"
  by (simp add: normalizePEMEnv_def)

lemma envString_not_Nil: "fallback \<noteq> [] \<Longrightarrow> envString env name fallback \<noteq> []"
  by (simp add: envString_def Let_def)

lemma int_setting_Inr:
  "int_setting env name d = Inr v \<Longrightarrow> 0 < d \<Longrightarrow> in_int64 d \<Longrightarrow> 0 < v \<and> in_int64 v"
  by (auto simp: int_setting_def positiveInt_def Let_def dest: ParseInt_in_int64 split: if_splits option.splits)

lemma int_setting_Inl:
  "int_setting env name d = Inl e \<longleftrightarrow> e = NotPositiveInt name \<and> TrimSpace (env name) \<noteq> [] \<and>
     \<not> (\<exists>i > 0. ParseInt (TrimSpace (env name)) = Some i)"
  by (auto simp: int_setting_def positiveInt_def Let_def split: option.splits)

lemma bool_setting_Inl:
  "bool_setting env name d = Inl e \<longleftrightarrow> e = NotBoolean name \<and> TrimSpace (env name) \<noteq> [] \<and> ParseBool (TrimSpace (env name)) = None"
  by (auto simp: bool_setting_def Let_def split: option.splits)

lemma set_errs_of: "set (errs_of r) = {e. r = Inl e}"
  by (cases r) (auto simp: errs_of_def)

section \<open>Every problem is reported\<close>

text \<open>What is wrong with an environment, variable by variable.\<close>

definition problems :: "environment \<Rightarrow> config_error set" where
  "problems env =
     {MissingVar v |v. v \<in> {''DIFY_BASE_URL'', ''REDIS_ADDR'', ''AUTH_JWT_PUBKEY''} \<and> TrimSpace (env v) = []} \<union>
     {e. parseAppKeys (env ''DIFY_APP_KEYS'') = Inl e} \<union>
     {NotPositiveInt v |v. v \<in> {''UPSTREAM_TIMEOUT_SEC'', ''TOKEN_BUDGET_DAILY'', ''MAX_INFLIGHT_UPSTREAM''} \<and>
        TrimSpace (env v) \<noteq> [] \<and> \<not> (\<exists>i > 0. ParseInt (TrimSpace (env v)) = Some i)} \<union>
     {NotBoolean v |v. v = ''MODERATION_ENABLED'' \<and> TrimSpace (env v) \<noteq> [] \<and> ParseBool (TrimSpace (env v)) = None}"

lemma set_missing_if: "set (missing_if name v) = {e. e = MissingVar name \<and> v = []}"
  by (simp add: missing_if_def)

lemma three_names: "{F v |v. v \<in> {a, b, c} \<and> P v} = {e. e = F a \<and> P a} \<union> ({e. e = F b \<and> P b} \<union> {e. e = F c \<and> P c})"
  by blast

lemma one_name: "{F v |v. v = a \<and> P v} = {e. e = F a \<and> P a}"
  by blast

lemma set_load_errors: "set (load_errors env) = problems env"
  unfolding load_errors_def problems_def set_append set_errs_of set_missing_if int_setting_Inl bool_setting_Inl normalizePEMEnv_Nil
    three_names one_name Un_assoc ..

lemma errs_of_Nil: "errs_of r = [] \<longleftrightarrow> (\<exists>x. r = Inr x)"
  by (cases r) (simp_all add: errs_of_def)

lemma Load_Inl: "Load env = Inl errs \<Longrightarrow> errs = load_errors env \<and> errs \<noteq> []"
  by (simp add: Load_def Let_def split: if_splits)

lemma Load_Inr_no_errors: "Load env = Inr c \<Longrightarrow> load_errors env = []"
  by (simp add: Load_def Let_def split: if_splits)

lemma defaults_not_Nil:
  "defaultGatewayAddr \<noteq> []" "defaultGatewayAdminAddr \<noteq> []" "defaultRatePerPlayer \<noteq> []" "defaultGatewayServiceName \<noteq> []"
  by (simp_all add: defaultGatewayAddr_def defaultGatewayAdminAddr_def defaultRatePerPlayer_def defaultGatewayServiceName_def)

lemma Load_wf:
  assumes "Load env = Inr c"
  shows "config_wf c"
proof -
  have none: "load_errors env = []" using Load_Inr_no_errors[OF assms] .
  obtain ks tm bd mi mo where r: "parseAppKeys (env ''DIFY_APP_KEYS'') = Inr ks"
      "int_setting env ''UPSTREAM_TIMEOUT_SEC'' defaultUpstreamTimeoutSec = Inr tm"
      "int_setting env ''TOKEN_BUDGET_DAILY'' defaultTokenBudgetDaily = Inr bd"
      "int_setting env ''MAX_INFLIGHT_UPSTREAM'' defaultMaxInflight = Inr mi"
      "bool_setting env ''MODERATION_ENABLED'' defaultModerationEnabled = Inr mo"
    using none by (auto simp: load_errors_def errs_of_Nil)
  have ints: "0 < tm \<and> in_int64 tm" "0 < bd \<and> in_int64 bd" "0 < mi \<and> in_int64 mi"
    using int_setting_Inr[OF r(2)] int_setting_Inr[OF r(3)] int_setting_Inr[OF r(4)]
    by (auto simp: defaultUpstreamTimeoutSec_def defaultTokenBudgetDaily_def defaultMaxInflight_def in_int64_def min_int64_def max_int64_def)
  have req: "TrimSpace (env ''DIFY_BASE_URL'') \<noteq> []" "TrimSpace (env ''REDIS_ADDR'') \<noteq> []" "TrimSpace (env ''AUTH_JWT_PUBKEY'') \<noteq> []"
    using none by (auto simp: load_errors_def missing_if_def split: if_splits)
  note c = assms[unfolded Load_def Let_def none r value_or_def, simplified]
  show ?thesis
    unfolding config_wf_def c[symmetric]
    using ints req parseAppKeys_wf[OF r(1)] by (simp add: envString_not_Nil defaults_not_Nil)
qed


section \<open>The key map round-trips\<close>

fun print_keys :: "(string \<times> string) list \<Rightarrow> string" where
  "print_keys [] = []"
| "print_keys [(n, k)] = n @ CHR ''='' # k"
| "print_keys ((n, k) # ks) = (n @ CHR ''='' # k) @ CHR '';'' # print_keys ks"

definition printable :: "(string \<times> string) list \<Rightarrow> bool" where
  "printable ks \<longleftrightarrow> distinct (map fst ks) \<and>
     list_all (\<lambda>(n, k). word n \<and> word k \<and> CHR ''='' \<notin> set n \<and> CHR '';'' \<notin> set n \<and> CHR '';'' \<notin> set k) ks"

lemma split_print_keys:
  "printable ks \<Longrightarrow> ks \<noteq> [] \<Longrightarrow> split_on (CHR '';'') (print_keys ks) = map (\<lambda>(n, k). n @ CHR ''='' # k) ks"
proof (induction ks rule: print_keys.induct)
  case (2 n k)
  then show ?case by (simp add: printable_def split_on_none)
next
  case (3 n k v va)
  then have "split_on (CHR '';'') (print_keys (v # va)) = map (\<lambda>(n, k). n @ CHR ''='' # k) (v # va)" by (simp add: printable_def)
  moreover have "CHR '';'' \<notin> set (n @ CHR ''='' # k)" using 3(2) by (simp add: printable_def)
  ultimately show ?case by (simp add: split_on_sep[of _ "n @ CHR ''='' # k", simplified])
qed simp

lemma update_new: "k \<notin> fst ` set al \<Longrightarrow> AList.update k v al = al @ [(k, v)]"
  by (induction al) auto

lemma parse_printed:
  "printable ks \<Longrightarrow> fst ` set ks \<inter> fst ` set keys = {} \<Longrightarrow>
   parse_pairs i (map (\<lambda>(n, k). n @ CHR ''='' # k) ks) keys = Inr (keys @ ks)"
proof (induction ks arbitrary: i keys)
  case (Cons x ks)
  obtain n k where x: "x = (n, k)" by (cases x)
  have w: "word n" "word k" "CHR ''='' \<notin> set n" using Cons.prems(1) x by (auto simp: printable_def)
  have p: "TrimSpace (n @ CHR ''='' # k) = n @ CHR ''='' # k" using word_trim[OF word_join[OF w(1,2), of "CHR ''=''"]] by simp
  have "printable ks" "n \<notin> fst ` set ks" using Cons.prems(1) x by (auto simp: printable_def)
  moreover have "AList.update n k keys = keys @ [(n, k)]" using Cons.prems(2) x by (intro update_new) auto
  ultimately show ?case
    using Cons.IH[of "keys @ [(n, k)]" "Suc i"] Cons.prems(2) x p w word_trim[OF w(1)] word_trim[OF w(2)] strings_Cut_char[of "CHR ''=''" n k]
    by (auto simp: Let_def)
qed simp

lemma word_print_keys: "printable ks \<Longrightarrow> ks \<noteq> [] \<Longrightarrow> word (print_keys ks)"
proof (induction ks rule: print_keys.induct)
  case (2 n k)
  then show ?case by (simp add: printable_def word_join)
next
  case (3 n k v va)
  then have "word (print_keys (v # va))" "word (n @ CHR ''='' # k)" by (simp_all add: printable_def word_join)
  then show ?case using word_join[of "n @ CHR ''='' # k" "print_keys (v # va)" "CHR '';''"] by simp
qed simp

text \<open>The key map round-trips. Written as \<open>name=key\<close> pairs joined by semicolons, any non-empty map with
  trimmed names and keys that do not use the separators is read back by \<open>parseAppKeys\<close> unchanged; a key may contain
  an equals sign.\<close>

theorem parseAppKeys_roundtrip:
  assumes "printable ks" and "ks \<noteq> []"
  shows "parseAppKeys (print_keys ks) = Inr ks"
  using assms parse_printed[OF assms(1), of "[]" 0] split_print_keys[OF assms] word_trim[OF word_print_keys[OF assms]]
  by (simp add: parseAppKeys_def)

theorem parseAppKeys_roundtrip_witness:
  "parseAppKeys ''bob=k=1;default=k2'' = Inr [(''bob'', ''k=1''), (''default'', ''k2'')]"
proof -
  have u: "utf8 [98, 111, 98] = ''bob''" "utf8 [107, 61, 49] = ''k=1''"
    "utf8 [100, 101, 102, 97, 117, 108, 116] = ''default''" "utf8 [107, 50] = ''k2''"
    by code_simp+
  have "word (utf8 [98, 111, 98])" "word (utf8 [107, 61, 49])" "word (utf8 [100, 101, 102, 97, 117, 108, 116])" "word (utf8 [107, 50])"
    by (rule word_utf8; simp add: scalar_def IsSpace_def)+
  then have "printable [(''bob'', ''k=1''), (''default'', ''k2'')]" unfolding u by (simp add: printable_def)
  from parseAppKeys_roundtrip[OF this] show ?thesis by simp
qed

end
