(* ===== verification/Codec.thy ===== *)
theory Codec
  imports Gateway_Prelude
begin

text \<open>
  \<^verbatim>\<open>internal/codec\<close>: the 4-byte big-endian length prefix framing (\<^verbatim>\<open>frame.go\<close>) and the
  envelope helpers on top of it (\<^verbatim>\<open>envelope.go\<close>).

  An \<open>io.Reader\<close> is the list of bytes it still delivers and the error it reports when
  they run out (\<open>EOF\<close> for a clean close, a timeout, any other). An \<open>io.Writer\<close> is any
  state-passing function. The Protobuf library is a parameter: \<open>marshal\<close> and \<open>unmarshal\<close>
  are arguments of the envelope operations.
\<close>

section \<open>Readers, writers, errors\<close>

datatype io_error = EOF | ErrUnexpectedEOF | ErrTimeout | ErrOther string

datatype codec_error =
    CodecIO io_error
  | ErrFrameTooLarge nat
  | WriteFailed io_error
  | MarshalFailed string
  | UnmarshalClientFailed string
  | UnmarshalServerFailed string

record reader =
  rd_bytes :: "byte list"
  rd_end :: io_error

type_synonym 'w writer = "byte list \<Rightarrow> 'w \<Rightarrow> (io_error + unit) \<times> 'w"

text \<open>\<open>io.ReadFull\<close>: exactly \<open>n\<close> bytes, or the error; an \<open>EOF\<close> after some bytes is
  \<open>ErrUnexpectedEOF\<close>, any other error is passed on.\<close>

definition ReadFull :: "nat \<Rightarrow> reader \<Rightarrow> (io_error + byte list) \<times> reader" where
  "ReadFull n r =
     (if n \<le> length (rd_bytes r)
      then (Inr (take n (rd_bytes r)), r\<lparr>rd_bytes := drop n (rd_bytes r)\<rparr>)
      else (Inl (if rd_bytes r \<noteq> [] \<and> rd_end r = EOF then ErrUnexpectedEOF else rd_end r),
            r\<lparr>rd_bytes := []\<rparr>))"

section \<open>Frames\<close>

definition MaxFrameSize :: nat where
  "MaxFrameSize = 4 * 2 ^ 20"

definition lengthPrefixSize :: nat where
  "lengthPrefixSize = 4"

text \<open>\<open>binary.BigEndian.PutUint32\<close> and \<open>Uint32\<close>.\<close>

definition PutUint32 :: "32 word \<Rightarrow> byte list" where
  "PutUint32 v = [ucast (drop_bit 24 v), ucast (drop_bit 16 v), ucast (drop_bit 8 v), ucast v]"

definition Uint32 :: "byte list \<Rightarrow> 32 word" where
  "Uint32 b = or (ucast (b ! 3)) (or (push_bit 8 (ucast (b ! 2)))
     (or (push_bit 16 (ucast (b ! 1))) (push_bit 24 (ucast (b ! 0)))))"

definition frame_bytes :: "byte list \<Rightarrow> byte list" where
  "frame_bytes payload = PutUint32 (of_nat (length payload)) @ payload"

definition WriteFrame :: "'w writer \<Rightarrow> byte list \<Rightarrow> 'w \<Rightarrow> (codec_error + unit) \<times> 'w" where
  "WriteFrame write payload w =
     (if MaxFrameSize < length payload then (Inl (ErrFrameTooLarge (length payload)), w)
      else (case write (frame_bytes payload) w of
              (Inl e, w') \<Rightarrow> (Inl (WriteFailed e), w')
            | (Inr _, w') \<Rightarrow> (Inr (), w')))"

definition ReadFrame :: "reader \<Rightarrow> (codec_error + byte list) \<times> reader" where
  "ReadFrame r =
     (case ReadFull lengthPrefixSize r of
        (Inl e, r1) \<Rightarrow> (Inl (CodecIO e), r1)
      | (Inr header, r1) \<Rightarrow>
          (let n = Uint32 header in
           if MaxFrameSize < unat n then (Inl (ErrFrameTooLarge (unat n)), r1)
           else if n = 0 then (Inr [], r1)
           else (case ReadFull (unat n) r1 of
                   (Inl e, r2) \<Rightarrow> (Inl (CodecIO (if e = EOF then ErrUnexpectedEOF else e)), r2)
                 | (Inr payload, r2) \<Rightarrow> (Inr payload, r2))))"

section \<open>Envelopes\<close>

definition WriteEnvelope ::
  "('m \<Rightarrow> string + byte list) \<Rightarrow> 'w writer \<Rightarrow> 'm \<Rightarrow> 'w \<Rightarrow> (codec_error + unit) \<times> 'w" where
  "WriteEnvelope marshal write msg w =
     (case marshal msg of
        Inl e \<Rightarrow> (Inl (MarshalFailed e), w)
      | Inr payload \<Rightarrow> WriteFrame write payload w)"

definition ReadClientEnvelope ::
  "(byte list \<Rightarrow> string + 'm) \<Rightarrow> reader \<Rightarrow> (codec_error + 'm) \<times> reader" where
  "ReadClientEnvelope unmarshal r =
     (case ReadFrame r of
        (Inl e, r') \<Rightarrow> (Inl e, r')
      | (Inr payload, r') \<Rightarrow>
          (case unmarshal payload of
             Inl e \<Rightarrow> (Inl (UnmarshalClientFailed e), r')
           | Inr env \<Rightarrow> (Inr env, r')))"

definition ReadServerEnvelope ::
  "(byte list \<Rightarrow> string + 'm) \<Rightarrow> reader \<Rightarrow> (codec_error + 'm) \<times> reader" where
  "ReadServerEnvelope unmarshal r =
     (case ReadFrame r of
        (Inl e, r') \<Rightarrow> (Inl e, r')
      | (Inr payload, r') \<Rightarrow>
          (case unmarshal payload of
             Inl e \<Rightarrow> (Inl (UnmarshalServerFailed e), r')
           | Inr env \<Rightarrow> (Inr env, r')))"

section \<open>Properties of the framing\<close>

lemma length_PutUint32 [simp]: "length (PutUint32 v) = 4"
  by (simp add: PutUint32_def)

lemma Uint32_PutUint32 [simp]: "Uint32 (PutUint32 v) = v"
proof (rule bit_word_eqI)
  fix n assume "n < LENGTH(32)"
  then show "bit (Uint32 (PutUint32 v)) n = bit v n"
    by (cases "24 \<le> n"; cases "16 \<le> n"; cases "8 \<le> n")
      (auto simp: Uint32_def PutUint32_def bit_simps)
qed

lemma PutUint32_Uint32 [simp]:
  assumes "length b = 4"
  shows "PutUint32 (Uint32 b) = b"
proof -
  obtain b0 b1 b2 b3 where b: "b = [b0, b1, b2, b3]"
    using assms by (auto simp: numeral_eq_Suc length_Suc_conv)
  have "ucast (drop_bit 24 (Uint32 b)) = b0" "ucast (drop_bit 16 (Uint32 b)) = b1"
    "ucast (drop_bit 8 (Uint32 b)) = b2" "ucast (Uint32 b) = b3"
    by (rule bit_word_eqI, auto simp: b Uint32_def bit_simps dest: bit_imp_le_length)+
  then show ?thesis
    by (simp add: PutUint32_def b)
qed

lemma unat_frame_length:
  "length p \<le> MaxFrameSize \<Longrightarrow> unat (of_nat (length p) :: 32 word) = length p"
  by (simp add: MaxFrameSize_def unat_of_nat take_bit_nat_eq_self)

lemma length_frame_bytes [simp]: "length (frame_bytes p) = 4 + length p"
  by (simp add: frame_bytes_def)

lemma ReadFull_Inr_iff:
  "ReadFull n r = (Inr bs, r') \<longleftrightarrow>
     length bs = n \<and> rd_bytes r = bs @ rd_bytes r' \<and> r' = r\<lparr>rd_bytes := rd_bytes r'\<rparr>"
  by (cases r, cases r') (auto simp: ReadFull_def)

text \<open>A successful read consumes exactly one well-formed frame, and every well-formed
  frame is read: \<open>ReadFrame\<close> inverts \<open>frame_bytes\<close> in both directions.\<close>

lemma ReadFrame_Inr_iff:
  "ReadFrame r = (Inr p, r') \<longleftrightarrow>
     length p \<le> MaxFrameSize \<and> rd_bytes r = frame_bytes p @ rd_bytes r' \<and>
     r' = r\<lparr>rd_bytes := rd_bytes r'\<rparr>" (is "?lhs \<longleftrightarrow> ?rhs")
proof
  assume ?lhs
  then obtain h r1 where h: "ReadFull lengthPrefixSize r = (Inr h, r1)"
    and le: "unat (Uint32 h) \<le> MaxFrameSize"
    and p: "Uint32 h = 0 \<and> p = [] \<and> r' = r1 \<or> Uint32 h \<noteq> 0 \<and> ReadFull (unat (Uint32 h)) r1 = (Inr p, r')"
    by (auto simp: ReadFrame_def Let_def split: prod.splits sum.splits if_splits)
  from h have lh: "length h = 4" by (simp add: ReadFull_Inr_iff lengthPrefixSize_def)
  from p have lp: "length p = unat (Uint32 h)" by (auto simp: ReadFull_Inr_iff)
  with lh have "PutUint32 (of_nat (length p)) = h" by simp
  with h p lp le show ?rhs
    by (auto simp: ReadFull_Inr_iff frame_bytes_def)
next
  assume r: ?rhs
  define r1 where "r1 = r\<lparr>rd_bytes := p @ rd_bytes r'\<rparr>"
  let ?h = "PutUint32 (of_nat (length p))"
  have "ReadFull lengthPrefixSize r = (Inr ?h, r1)"
    using r by (auto simp: ReadFull_Inr_iff lengthPrefixSize_def frame_bytes_def r1_def)
  moreover have "p \<noteq> [] \<Longrightarrow> ReadFull (length p) r1 = (Inr p, r')"
    using r by (auto simp: ReadFull_Inr_iff r1_def)
  moreover have "(of_nat (length p) :: 32 word) = 0 \<longleftrightarrow> p = []"
    using r unat_frame_length[of p] by (auto simp: unat_eq_zero)
  ultimately show ?lhs
    using r unat_frame_length[of p] by (auto simp: ReadFrame_def r1_def)
qed


text \<open>The frames of a byte stream: \<open>ReadFrame\<close> repeated until it reports an error, as the
  read loop of a connection does.\<close>

lemma ReadFrame_consumes:
  "ReadFrame r = (Inr p, r') \<Longrightarrow> length (rd_bytes r') < length (rd_bytes r)"
  by (simp add: ReadFrame_Inr_iff)

function read_frames :: "reader \<Rightarrow> byte list list \<times> codec_error" where
  "read_frames r =
     (case ReadFrame r of
        (Inl e, _) \<Rightarrow> ([], e)
      | (Inr p, r') \<Rightarrow> (let (ps, e) = read_frames r' in (p # ps, e)))"
  by pat_completeness auto
termination
  by (relation "measure (\<lambda>r. length (rd_bytes r))") (auto dest: ReadFrame_consumes[OF sym])

declare read_frames.simps [simp del]

lemma ReadFrame_frame_bytes [simp]:
  "length p \<le> MaxFrameSize \<Longrightarrow>
   ReadFrame \<lparr>rd_bytes = frame_bytes p @ bs, rd_end = e\<rparr> = (Inr p, \<lparr>rd_bytes = bs, rd_end = e\<rparr>)"
  by (simp add: ReadFrame_Inr_iff)

lemma ReadFrame_Nil [simp]:
  "ReadFrame \<lparr>rd_bytes = [], rd_end = e\<rparr> = (Inl (CodecIO e), \<lparr>rd_bytes = [], rd_end = e\<rparr>)"
  by (simp add: ReadFrame_def ReadFull_def lengthPrefixSize_def)

lemma WriteFrame_ok_iff:
  "WriteFrame write p w = (Inr (), w') \<longleftrightarrow>
     length p \<le> MaxFrameSize \<and> write (frame_bytes p) w = (Inr (), w')"
  by (auto simp: WriteFrame_def split: prod.splits sum.splits)

text \<open>An in-memory \<open>io.Writer\<close> (\<open>bytes.Buffer\<close>): every write is appended.\<close>

definition buf_write :: "byte list writer" where
  "buf_write bs w = (Inr (), w @ bs)"

lemma read_frames_all:
  "\<forall>p \<in> set ps. length p \<le> MaxFrameSize \<Longrightarrow> length junk < 4 \<Longrightarrow>
   read_frames \<lparr>rd_bytes = concat (map frame_bytes ps) @ junk, rd_end = e\<rparr> =
     (ps, CodecIO (if junk \<noteq> [] \<and> e = EOF then ErrUnexpectedEOF else e))"
proof (induction ps)
  case Nil
  then show ?case
    by (subst read_frames.simps) (auto simp: ReadFrame_def ReadFull_def lengthPrefixSize_def)
next
  case (Cons p ps)
  then show ?case
    by (subst read_frames.simps) simp
qed

section \<open>Claims\<close>

text \<open>C35: framing round trip, in both directions. A payload is read back from a byte stream
  exactly when the stream starts with what \<open>WriteFrame\<close> writes for that payload, and the read
  leaves the rest of the stream untouched. There is no byte sequence that decodes to a payload
  \<open>WriteFrame\<close> would refuse, and no written payload that fails to decode.\<close>

theorem frame_roundtrip:
  "ReadFrame r = (Inr p, r') \<longleftrightarrow>
     (\<exists>w. WriteFrame buf_write p [] = (Inr (), w) \<and> rd_bytes r = w @ rd_bytes r') \<and>
     rd_end r' = rd_end r"
  by (cases r; cases r') (auto simp: ReadFrame_Inr_iff WriteFrame_ok_iff buf_write_def)

text \<open>A connection's byte stream made of written frames is decoded to exactly those
  payloads, in order, and then reports the error the stream ends with; a partial frame at the
  end never produces a payload (fewer than 4 bytes of header here).\<close>

theorem read_frames_concat:
  assumes "\<forall>p \<in> set ps. length p \<le> MaxFrameSize" and "length junk < 4"
  shows "read_frames \<lparr>rd_bytes = concat (map frame_bytes ps) @ junk, rd_end = e\<rparr> =
     (ps, CodecIO (if junk \<noteq> [] \<and> e = EOF then ErrUnexpectedEOF else e))"
  using assms by (rule read_frames_all)

theorem read_frames_concat_witness:
  "read_frames \<lparr>rd_bytes = concat (map frame_bytes [[7, 8], []]) @ [0, 0], rd_end = EOF\<rparr> =
     ([[7, 8], []], CodecIO ErrUnexpectedEOF)"
  using read_frames_concat[of "[[7, 8], []]" "[0, 0]" EOF] by (simp add: MaxFrameSize_def)

text \<open>\<open>EOF\<close> means a clean close and nothing else. \<open>ReadFrame\<close> reports \<open>io.EOF\<close> exactly
  when the stream is empty and ended; a stream cut inside the header or inside the payload is
  always reported as truncated or as the transport's own error.\<close>

theorem ReadFrame_EOF_iff:
  "fst (ReadFrame r) = Inl (CodecIO EOF) \<longleftrightarrow> rd_bytes r = [] \<and> rd_end r = EOF"
  by (auto simp: ReadFrame_def ReadFull_def lengthPrefixSize_def Let_def split: prod.splits sum.splits if_splits)

text \<open>An oversized declared length is rejected from the header alone: the error carries the
  declared length, and only the 4 header bytes are consumed.\<close>

theorem ReadFrame_oversized:
  assumes "length h = 4" and "MaxFrameSize < unat (Uint32 h)"
  shows "ReadFrame \<lparr>rd_bytes = h @ body, rd_end = e\<rparr> =
     (Inl (ErrFrameTooLarge (unat (Uint32 h))), \<lparr>rd_bytes = body, rd_end = e\<rparr>)"
  using assms by (simp add: ReadFrame_def ReadFull_def lengthPrefixSize_def)

theorem ReadFrame_oversized_witness:
  "ReadFrame \<lparr>rd_bytes = [255, 255, 255, 255] @ [1, 2], rd_end = EOF\<rparr> =
     (Inl (ErrFrameTooLarge 4294967295), \<lparr>rd_bytes = [1, 2], rd_end = EOF\<rparr>)"
proof -
  have "Uint32 [255, 255, 255, 255] = 4294967295" by code_simp
  then show ?thesis
    using ReadFrame_oversized[of "[255, 255, 255, 255]" "[1, 2]" EOF]
    by (simp add: MaxFrameSize_def)
qed

end
