(* ===== verification/Mux.thy ===== *)
theory Mux
  imports Codec Proto "HOL-Library.AList"
begin

text \<open>
  \<^verbatim>\<open>internal/mux/mux.go\<close>: the connection writer and the registry of in-flight requests. \<open>Send\<close> holds
  the write lock for one whole frame. A request context is an index into \<open>ctxs\<close>, which records
  its request id, whether its cancel function was called and how far its \<open>done\<close> has run; \<open>wg\<close> is
  the wait group. \<open>done\<close>, \<open>Stop\<close> and \<open>CancelAll\<close> release the mutex in the middle, so besides the
  whole operations there is a step relation \<open>reg_step\<close> at the granularity of their critical
  sections.
\<close>

section \<open>The connection writer\<close>

definition ConnWriter_Send ::
  "(ServerEnvelope \<Rightarrow> string + byte list) \<Rightarrow> 'w writer \<Rightarrow> ServerEnvelope \<Rightarrow> 'w \<Rightarrow> (codec_error + unit) \<times> 'w" where
  "ConnWriter_Send marshal write env w = WriteEnvelope marshal write env w"

section \<open>The registry\<close>

datatype phase = Running | CancelledSelf | Unregistered | Finished

record req_ctx =
  rc_id :: string
  rc_cancelled :: bool
  rc_phase :: phase

record registry =
  inflight :: "(string \<times> nat) list"
  wg :: int
  ctxs :: "req_ctx list"

definition NewRegistry :: registry where
  "NewRegistry = \<lparr>inflight = [], wg = 0, ctxs = []\<rparr>"

definition cancel_ctx :: "nat \<Rightarrow> registry \<Rightarrow> registry" where
  "cancel_ctx i r = r\<lparr>ctxs := (ctxs r)[i := (ctxs r ! i)\<lparr>rc_cancelled := True\<rparr>]\<rparr>"

definition set_phase :: "nat \<Rightarrow> phase \<Rightarrow> registry \<Rightarrow> registry" where
  "set_phase i p r = r\<lparr>ctxs := (ctxs r)[i := (ctxs r ! i)\<lparr>rc_phase := p\<rparr>]\<rparr>"

text \<open>\<open>Begin\<close>: \<open>None\<close> for a duplicate, otherwise the new context.\<close>

definition registry_Begin :: "string \<Rightarrow> registry \<Rightarrow> nat option \<times> registry" where
  "registry_Begin requestID r =
     (case map_of (inflight r) requestID of
        Some _ \<Rightarrow> (None, r)
      | None \<Rightarrow>
          (let i = length (ctxs r) in
           (Some i, r\<lparr>inflight := (requestID, i) # inflight r, wg := wg r + 1,
                      ctxs := ctxs r @ [\<lparr>rc_id = requestID, rc_cancelled = False, rc_phase = Running\<rparr>]\<rparr>)))"

text \<open>The three parts of the function \<open>done\<close>: cancel, delete under the lock, \<open>wg.Done\<close>; the
  \<open>sync.Once\<close> lets only the first call through.\<close>

definition done_cancel :: "nat \<Rightarrow> registry \<Rightarrow> registry" where
  "done_cancel i r = set_phase i CancelledSelf (cancel_ctx i r)"

definition done_delete :: "nat \<Rightarrow> registry \<Rightarrow> registry" where
  "done_delete i r = (set_phase i Unregistered r)\<lparr>inflight := AList.delete (rc_id (ctxs r ! i)) (inflight r)\<rparr>"

definition done_wg :: "nat \<Rightarrow> registry \<Rightarrow> registry" where
  "done_wg i r = (set_phase i Finished r)\<lparr>wg := wg r - 1\<rparr>"

definition registry_done :: "nat \<Rightarrow> registry \<Rightarrow> registry" where
  "registry_done i r =
     (if rc_phase (ctxs r ! i) = Running then done_wg i (done_delete i (done_cancel i r)) else r)"

definition registry_Stop :: "string \<Rightarrow> registry \<Rightarrow> bool \<times> registry" where
  "registry_Stop requestID r =
     (case map_of (inflight r) requestID of
        None \<Rightarrow> (False, r)
      | Some i \<Rightarrow> (True, cancel_ctx i r))"

definition registry_CancelAll :: "registry \<Rightarrow> registry" where
  "registry_CancelAll r = fold cancel_ctx (map snd (inflight r)) r"

definition registry_Wait_returns :: "registry \<Rightarrow> bool" where
  "registry_Wait_returns r \<longleftrightarrow> wg r = 0"

definition InflightCount :: "registry \<Rightarrow> nat" where
  "InflightCount r = length (inflight r)"

section \<open>Interleavings\<close>

inductive reg_step :: "registry \<Rightarrow> registry \<Rightarrow> bool" where
  begin_req: "registry_Begin rid r = (x, r') \<Longrightarrow> reg_step r r'"
| cancel_self: "i < length (ctxs r) \<Longrightarrow> rc_phase (ctxs r ! i) = Running \<Longrightarrow> reg_step r (done_cancel i r)"
| unregister: "i < length (ctxs r) \<Longrightarrow> rc_phase (ctxs r ! i) = CancelledSelf \<Longrightarrow> reg_step r (done_delete i r)"
| finish: "i < length (ctxs r) \<Longrightarrow> rc_phase (ctxs r ! i) = Unregistered \<Longrightarrow> reg_step r (done_wg i r)"
| stop: "i < length (ctxs r) \<Longrightarrow> reg_step r (cancel_ctx i r)"

text \<open>A request is registered until its \<open>done\<close> has deleted it.\<close>

definition registered :: "phase \<Rightarrow> bool" where
  "registered p \<longleftrightarrow> p = Running \<or> p = CancelledSelf"

definition reg_inv :: "registry \<Rightarrow> bool" where
  "reg_inv r \<longleftrightarrow>
     distinct (map fst (inflight r)) \<and>
     (\<forall>rid i. (rid, i) \<in> set (inflight r) \<longleftrightarrow>
        i < length (ctxs r) \<and> rc_id (ctxs r ! i) = rid \<and> registered (rc_phase (ctxs r ! i))) \<and>
     (\<forall>c \<in> set (ctxs r). rc_phase c = Running \<or> rc_cancelled c) \<and>
     wg r = int (length (filter (\<lambda>c. rc_phase c \<noteq> Finished) (ctxs r)))"

lemma length_filter_update:
  "i < length xs \<Longrightarrow> P (xs ! i) = P y \<Longrightarrow> length (filter P (xs[i := y])) = length (filter P xs)"
  by (induction xs arbitrary: i) (auto split: nat.splits)

lemma length_filter_drop:
  "i < length xs \<Longrightarrow> P (xs ! i) \<Longrightarrow> \<not> P y \<Longrightarrow> Suc (length (filter P (xs[i := y]))) = length (filter P xs)"
  by (induction xs arbitrary: i) (auto split: nat.splits)

lemma all_update:
  "\<forall>c \<in> set xs. Q c \<Longrightarrow> Q y \<Longrightarrow> \<forall>c \<in> set (xs[i := y]). Q c"
  using set_update_subset_insert[of xs i y] by auto

lemmas ctx_defs = cancel_ctx_def set_phase_def done_cancel_def done_delete_def done_wg_def

lemma ctxs_simps [simp]:
  "length (ctxs (cancel_ctx i r)) = length (ctxs r)" "length (ctxs (set_phase i p r)) = length (ctxs r)"
  "inflight (cancel_ctx i r) = inflight r" "inflight (set_phase i p r) = inflight r"
  "wg (cancel_ctx i r) = wg r" "wg (set_phase i p r) = wg r"
  by (simp_all add: ctx_defs)

lemma reg_inv_Begin: "reg_inv r \<Longrightarrow> registry_Begin rid r = (x, r') \<Longrightarrow> reg_inv r'"
proof (cases "map_of (inflight r) rid")
  case None
  assume inv: "reg_inv r" and "registry_Begin rid r = (x, r')"
  then have r': "r' = r\<lparr>inflight := (rid, length (ctxs r)) # inflight r, wg := wg r + 1,
      ctxs := ctxs r @ [\<lparr>rc_id = rid, rc_cancelled = False, rc_phase = Running\<rparr>]\<rparr>"
    using None by (simp add: registry_Begin_def Let_def)
  have "rid \<notin> fst ` set (inflight r)" using None by (simp add: map_of_eq_None_iff)
  then show ?thesis
    using inv by (auto simp: reg_inv_def r' registered_def nth_append less_Suc_eq)
next
  case (Some i)
  assume "reg_inv r" "registry_Begin rid r = (x, r')"
  with Some show ?thesis by (simp add: registry_Begin_def)
qed

lemma reg_inv_update:
  assumes inv: "reg_inv r" and i: "i < length (ctxs r)"
    and same: "rc_id c = rc_id (ctxs r ! i)" "registered (rc_phase c) = registered (rc_phase (ctxs r ! i))"
    and fin: "(rc_phase c = Finished) = (rc_phase (ctxs r ! i) = Finished)"
    and canc: "rc_phase c = Running \<or> rc_cancelled c"
  shows "reg_inv (r\<lparr>ctxs := (ctxs r)[i := c]\<rparr>)"
  using inv i same fin canc all_update[of "ctxs r" "\<lambda>c. rc_phase c = Running \<or> rc_cancelled c" c i]
    length_filter_update[of i "ctxs r" "\<lambda>c. rc_phase c \<noteq> Finished" c]
  by (auto simp: reg_inv_def nth_list_update)

lemma reg_inv_cancel: "reg_inv r \<Longrightarrow> i < length (ctxs r) \<Longrightarrow> reg_inv (cancel_ctx i r)"
  unfolding cancel_ctx_def by (rule reg_inv_update) simp_all

lemma reg_inv_done_cancel:
  "reg_inv r \<Longrightarrow> i < length (ctxs r) \<Longrightarrow> rc_phase (ctxs r ! i) = Running \<Longrightarrow> reg_inv (done_cancel i r)"
  unfolding done_cancel_def set_phase_def
  by (rule reg_inv_update) (simp_all add: reg_inv_cancel, simp_all add: cancel_ctx_def registered_def)

lemma own_entry:
  "reg_inv r \<Longrightarrow> i < length (ctxs r) \<Longrightarrow> registered (rc_phase (ctxs r ! i)) \<Longrightarrow>
     map_of (inflight r) (rc_id (ctxs r ! i)) = Some i"
  by (simp add: reg_inv_def)

lemma reg_inv_done_delete:
  assumes inv: "reg_inv r" and i: "i < length (ctxs r)" and p: "rc_phase (ctxs r ! i) = CancelledSelf"
  shows "reg_inv (done_delete i r)"
proof -
  let ?c = "(ctxs r ! i)\<lparr>rc_phase := Unregistered\<rparr>" and ?rid = "rc_id (ctxs r ! i)"
  have mem: "(rid, j) \<in> set (AList.delete ?rid (inflight r)) \<longleftrightarrow> (rid, j) \<in> set (inflight r) \<and> j \<noteq> i" for rid j
  proof -
    have own: "(?rid, i) \<in> set (inflight r)" using inv i p by (simp add: reg_inv_def registered_def)
    have dist: "distinct (map fst (inflight r))" using inv by (simp add: reg_inv_def)
    have "(?rid, j) \<in> set (inflight r) \<Longrightarrow> j = i" for j using own dist by (metis map_of_is_SomeI option.inject)
    moreover have "(rid, i) \<in> set (inflight r) \<Longrightarrow> rid = ?rid" using inv by (simp add: reg_inv_def)
    ultimately show ?thesis by (auto simp: AList.delete_eq)
  qed
  have len: "length (filter (\<lambda>c. rc_phase c \<noteq> Finished) ((ctxs r)[i := ?c])) =
      length (filter (\<lambda>c. rc_phase c \<noteq> Finished) (ctxs r))"
    using i p by (intro length_filter_update) simp_all
  have canc: "\<forall>c \<in> set ((ctxs r)[i := ?c]). rc_phase c = Running \<or> rc_cancelled c"
    using inv i p by (intro all_update) (auto simp: reg_inv_def dest!: bspec[OF _ nth_mem])
  have "distinct (map fst (AList.delete ?rid (inflight r)))"
    using inv by (simp add: reg_inv_def distinct_delete)
  then show ?thesis
    using inv i p len canc mem
    by (auto simp: reg_inv_def done_delete_def set_phase_def nth_list_update registered_def)
qed

lemma reg_inv_done_wg:
  assumes "reg_inv r" "i < length (ctxs r)" "rc_phase (ctxs r ! i) = Unregistered"
  shows "reg_inv (done_wg i r)"
proof -
  let ?c = "(ctxs r ! i)\<lparr>rc_phase := Finished\<rparr>"
  have "Suc (length (filter (\<lambda>c. rc_phase c \<noteq> Finished) ((ctxs r)[i := ?c]))) =
      length (filter (\<lambda>c. rc_phase c \<noteq> Finished) (ctxs r))"
    using assms by (intro length_filter_drop) simp_all
  moreover have "\<forall>c \<in> set ((ctxs r)[i := ?c]). rc_phase c = Running \<or> rc_cancelled c"
    using assms by (intro all_update) (auto simp: reg_inv_def dest!: bspec[OF _ nth_mem])
  ultimately show ?thesis
    using assms by (auto simp: reg_inv_def done_wg_def set_phase_def nth_list_update registered_def)
qed

lemma reg_step_inv: "reg_step r r' \<Longrightarrow> reg_inv r \<Longrightarrow> reg_inv r'"
  by (induction rule: reg_step.induct)
    (auto intro: reg_inv_Begin reg_inv_done_cancel reg_inv_done_delete reg_inv_done_wg reg_inv_cancel)

lemma reg_reachable_inv: "reg_step\<^sup>*\<^sup>* NewRegistry r \<Longrightarrow> reg_inv r"
proof (induction rule: rtranclp_induct)
  case base
  show ?case by (simp add: reg_inv_def NewRegistry_def)
next
  case (step r r')
  then show ?case using reg_step_inv by blast
qed

section \<open>Claims\<close>

text \<open>One request per id, and \<open>done\<close> removes its own entry. In every reachable registry, in any
  interleaving of \<open>Begin\<close>, \<open>done\<close>, \<open>Stop\<close> and \<open>CancelAll\<close> at the granularity of their critical
  sections, a request whose \<open>done\<close> has not yet unregistered it is the one registered under its id,
  no two such requests share an id, and deleting by key removes exactly that request.\<close>

theorem registry_unique:
  assumes "reg_step\<^sup>*\<^sup>* NewRegistry r" and "i < length (ctxs r)" and "registered (rc_phase (ctxs r ! i))"
  shows "map_of (inflight r) (rc_id (ctxs r ! i)) = Some i \<and>
     (\<forall>j < length (ctxs r). registered (rc_phase (ctxs r ! j)) \<longrightarrow> rc_id (ctxs r ! j) = rc_id (ctxs r ! i) \<longrightarrow> j = i) \<and>
     (\<forall>rid j. rc_phase (ctxs r ! i) = CancelledSelf \<longrightarrow>
        ((rid, j) \<in> set (inflight (done_delete i r)) \<longleftrightarrow> (rid, j) \<in> set (inflight r) \<and> j \<noteq> i))"
proof -
  have inv: "reg_inv r" using assms(1) by (rule reg_reachable_inv)
  note own = own_entry[OF inv]
  have uniq: "\<forall>j < length (ctxs r). registered (rc_phase (ctxs r ! j)) \<longrightarrow> rc_id (ctxs r ! j) = rc_id (ctxs r ! i) \<longrightarrow> j = i"
    using own assms(2,3) by (metis option.inject)
  have "(rid, j) \<in> set (inflight (done_delete i r)) \<longleftrightarrow> (rid, j) \<in> set (inflight r) \<and> j \<noteq> i" for rid j
    using uniq inv assms(2,3) by (auto simp: done_delete_def AList.delete_eq reg_inv_def)
  with own[OF assms(2,3)] uniq show ?thesis by blast
qed

theorem registry_unique_witness:
  defines "r \<equiv> snd (registry_Begin ''a'' NewRegistry)"
  shows "map_of (inflight r) (rc_id (ctxs r ! 0)) = Some 0"
proof -
  have "reg_step\<^sup>*\<^sup>* NewRegistry r"
    unfolding r_def by (intro r_into_rtranclp reg_step.begin_req[of "''a''"]) (rule surjective_pairing)
  moreover have "0 < length (ctxs r)" "registered (rc_phase (ctxs r ! 0))"
    by (simp_all add: r_def registry_Begin_def NewRegistry_def registered_def)
  ultimately show ?thesis using registry_unique by blast
qed

lemma wait_drained:
  assumes inv: "reg_inv r" and "registry_Wait_returns r"
  shows "(\<forall>c \<in> set (ctxs r). rc_phase c = Finished \<and> rc_cancelled c) \<and> inflight r = []"
proof -
  have fin: "\<forall>c \<in> set (ctxs r). rc_phase c = Finished"
    using assms by (auto simp: reg_inv_def registry_Wait_returns_def filter_empty_conv)
  moreover have "\<forall>c \<in> set (ctxs r). rc_cancelled c" using inv fin by (fastforce simp: reg_inv_def)
  moreover have "(rid, i) \<notin> set (inflight r)" for rid i
  proof
    assume "(rid, i) \<in> set (inflight r)"
    then have "i < length (ctxs r)" "registered (rc_phase (ctxs r ! i))" using inv unfolding reg_inv_def by blast+
    then show False using fin by (simp add: registered_def)
  qed
  then have "inflight r = []" by (cases "inflight r") auto
  ultimately show ?thesis by simp
qed

text \<open>No goroutine leak. In every reachable registry, \<open>Wait\<close> returns (the wait group is at zero)
  only when every request ever begun has finished its \<open>done\<close>; then every request context is
  cancelled and no request is registered.\<close>

theorem wait_means_all_done:
  assumes "reg_step\<^sup>*\<^sup>* NewRegistry r" and "registry_Wait_returns r"
  shows "(\<forall>c \<in> set (ctxs r). rc_phase c = Finished \<and> rc_cancelled c) \<and> inflight r = []"
  by (rule wait_drained[OF reg_reachable_inv[OF assms(1)] assms(2)])

theorem wait_means_all_done_witness:
  defines "r \<equiv> done_wg 0 (done_delete 0 (done_cancel 0 (snd (registry_Begin ''a'' NewRegistry))))"
  shows "inflight r = [] \<and> rc_cancelled (ctxs r ! 0)"
proof -
  let ?r1 = "snd (registry_Begin ''a'' NewRegistry)"
  have 1: "reg_step NewRegistry ?r1" by (rule reg_step.begin_req[of "''a''"]) (rule surjective_pairing)
  have 2: "reg_step ?r1 (done_cancel 0 ?r1)"
    by (rule reg_step.cancel_self) (simp_all add: registry_Begin_def NewRegistry_def)
  have 3: "reg_step (done_cancel 0 ?r1) (done_delete 0 (done_cancel 0 ?r1))"
    by (rule reg_step.unregister) (simp_all add: registry_Begin_def NewRegistry_def ctx_defs)
  have 4: "reg_step (done_delete 0 (done_cancel 0 ?r1)) r"
    unfolding r_def by (rule reg_step.finish) (simp_all add: registry_Begin_def NewRegistry_def ctx_defs)
  have "reg_step\<^sup>*\<^sup>* NewRegistry r" using 1 2 3 4 by (meson converse_rtranclp_into_rtranclp r_into_rtranclp)
  moreover have "registry_Wait_returns r" "0 < length (ctxs r)" by (simp_all add: r_def registry_Wait_returns_def registry_Begin_def NewRegistry_def ctx_defs)
  ultimately show ?thesis using wait_means_all_done by (metis nth_mem)
qed

lemma cancel_fold:
  "\<forall>j \<in> set is. j < length (ctxs r) \<Longrightarrow> i < length (ctxs r) \<Longrightarrow>
     ctxs (fold cancel_ctx is r) ! i = (if i \<in> set is then (ctxs r ! i)\<lparr>rc_cancelled := True\<rparr> else ctxs r ! i)"
  by (induction "is" arbitrary: r) (auto simp: cancel_ctx_def nth_list_update)

text \<open>Who gets cancelled. \<open>Stop\<close> finds a request exactly when one is registered under the id, and
  cancels that request and no other; \<open>CancelAll\<close> cancels every registered request and no other.\<close>

theorem stop_and_cancel_all:
  assumes "reg_step\<^sup>*\<^sup>* NewRegistry r" and "i < length (ctxs r)"
  shows "(fst (registry_Stop rid r) \<longleftrightarrow> rid \<in> fst ` set (inflight r)) \<and>
     (rc_cancelled (ctxs (snd (registry_Stop rid r)) ! i) \<longleftrightarrow> rc_cancelled (ctxs r ! i) \<or> (rid, i) \<in> set (inflight r)) \<and>
     (rc_cancelled (ctxs (registry_CancelAll r) ! i) \<longleftrightarrow> rc_cancelled (ctxs r ! i) \<or> i \<in> snd ` set (inflight r))"
proof -
  have inv: "reg_inv r" using assms(1) by (rule reg_reachable_inv)
  have dist: "distinct (map fst (inflight r))" using inv by (simp add: reg_inv_def)
  have "\<forall>j \<in> set (map snd (inflight r)). j < length (ctxs r)" using inv by (auto simp: reg_inv_def)
  then have all: "rc_cancelled (ctxs (registry_CancelAll r) ! i) \<longleftrightarrow> rc_cancelled (ctxs r ! i) \<or> i \<in> snd ` set (inflight r)"
    using cancel_fold[of "map snd (inflight r)" r i] assms(2) by (simp add: registry_CancelAll_def)
  show ?thesis
  proof (cases "map_of (inflight r) rid")
    case None
    then have "rid \<notin> fst ` set (inflight r)" by (simp add: map_of_eq_None_iff)
    with None all show ?thesis by (force simp: registry_Stop_def)
  next
    case (Some j)
    then have mem: "(rid, k) \<in> set (inflight r) \<longleftrightarrow> k = j" for k using dist by (metis map_of_SomeD map_of_is_SomeI option.inject)
    have st: "registry_Stop rid r = (True, cancel_ctx j r)" using Some by (simp add: registry_Stop_def)
    have "rid \<in> fst ` set (inflight r)" using mem by (metis fst_conv image_eqI)
    moreover have "j < length (ctxs r)" using mem[of j] inv unfolding reg_inv_def by blast
    then have "rc_cancelled (ctxs (cancel_ctx j r) ! i) \<longleftrightarrow> rc_cancelled (ctxs r ! i) \<or> i = j"
      using assms(2) by (auto simp: cancel_ctx_def nth_list_update)
    ultimately show ?thesis using all mem st by simp
  qed
qed

theorem stop_and_cancel_all_witness:
  "rc_cancelled (ctxs (registry_CancelAll (snd (registry_Begin ''a'' NewRegistry))) ! 0)"
proof -
  let ?r = "snd (registry_Begin ''a'' NewRegistry)"
  have "reg_step\<^sup>*\<^sup>* NewRegistry ?r"
    by (intro r_into_rtranclp reg_step.begin_req[of "''a''"]) (rule surjective_pairing)
  moreover have "0 < length (ctxs ?r)" "0 \<in> snd ` set (inflight ?r)"
    by (simp_all add: registry_Begin_def NewRegistry_def)
  ultimately show ?thesis using stop_and_cancel_all by blast
qed



end
