(* ===== verification/Listener.thy ===== *)
theory Listener
  imports Mux Pipeline_Props
begin

text \<open>
  \<^verbatim>\<open>internal/listener/listener.go\<close>: one connection. The state holds what \<open>ServeConn\<close> keeps (session,
  registry, the bytes to read) and what its goroutines do: \<open>cn_jobs\<close> has for each request context the
  chat goroutine, before \<open>HandleChat\<close> has read the session, or with the frames it has still to send;
  \<open>cn_out\<close> lists the frames in the order the writer's lock let them through, each with the request
  goroutine that sent it (\<open>None\<close> for the read loop). The \<open>Handler\<close> interface is the record \<open>access\<close>;
  \<open>HandleChat\<close> is given by the frame sequences its returning runs can send. The deferred
  \<open>cancelConn\<close> and \<open>CancelAll\<close> are one step: they only set cancellation flags. Log lines are not modelled; the
  connection gauge and the other connections are in theory \<open>Server\<close>.
\<close>

section \<open>State\<close>

record 'w access =
  aAuthenticate :: "session \<Rightarrow> AuthRequest ptr \<Rightarrow> 'w \<Rightarrow> (bool \<times> string) \<times> session"
  aHandleReset :: "session \<Rightarrow> ResetRequest ptr \<Rightarrow> 'w \<Rightarrow> ServerEnvelope list \<times> 'w"
  aHandleChat :: "session \<Rightarrow> ChatRequest ptr \<Rightarrow> ServerEnvelope list \<Rightarrow> bool"

datatype job = Starting "ChatRequest ptr" | Sending "ServerEnvelope list"

datatype conn_phase = Serving | Draining | Closed

record 'w conn =
  cn_sess :: session
  cn_reg :: registry
  cn_in :: reader
  cn_out :: "(nat option \<times> ServerEnvelope) list"
  cn_jobs :: "job list"
  cn_phase :: conn_phase
  cn_world :: 'w

definition DefaultIdleTimeout :: int where
  "DefaultIdleTimeout = 60 * second"

record server =
  idleTimeout :: int
  connSeq :: "64 word"

definition listener_New :: server where
  "listener_New = \<lparr>idleTimeout = DefaultIdleTimeout, connSeq = 0\<rparr>"

definition SetIdleTimeout :: "int \<Rightarrow> server \<Rightarrow> server" where
  "SetIdleTimeout d s = s\<lparr>idleTimeout := d\<rparr>"

definition nextConnID :: "server \<Rightarrow> string \<times> server" where
  "nextConnID s = (let n = connSeq s + 1 in (''conn-'' @ FormatInt (uint n), s\<lparr>connSeq := n\<rparr>))"

text \<open>The start of \<open>ServeConn\<close>.\<close>

definition conn_open :: "string \<Rightarrow> string \<Rightarrow> int \<Rightarrow> reader \<Rightarrow> 'w \<Rightarrow> 'w conn" where
  "conn_open connID addr now inp w =
     \<lparr>cn_sess = session_New connID addr now, cn_reg = NewRegistry, cn_in = inp, cn_out = [], cn_jobs = [],
      cn_phase = Serving, cn_world = w\<rparr>"

section \<open>Dispatch\<close>

definition conn_send :: "ServerEnvelope \<Rightarrow> 'w conn \<Rightarrow> 'w conn" where
  "conn_send env c = c\<lparr>cn_out := cn_out c @ [(None, env)]\<rparr>"

definition listener_handleChat :: "ChatRequest ptr \<Rightarrow> 'w conn \<Rightarrow> 'w conn" where
  "listener_handleChat req c =
     (let reqID = chat_GetRequestId req in
      if reqID = [] then conn_send (errorMsg [] ''BAD_REQUEST'' ''request_id is required'') c
      else if \<not> authed (cn_sess c) then conn_send (errorMsg reqID ''UNAUTHENTICATED'' ''authenticate before chatting'') c
      else (case registry_Begin reqID (cn_reg c) of
              (None, r) \<Rightarrow> conn_send (errorMsg reqID ''BAD_REQUEST'' ''duplicate request_id in flight'') (c\<lparr>cn_reg := r\<rparr>)
            | (Some i, r) \<Rightarrow> c\<lparr>cn_reg := r, cn_jobs := cn_jobs c @ [Starting req]\<rparr>))"

definition listener_handleReset :: "'w access \<Rightarrow> ResetRequest ptr \<Rightarrow> 'w conn \<Rightarrow> 'w conn" where
  "listener_handleReset h req c =
     (let reqID = reset_GetRequestId req in
      if reqID = [] then conn_send (errorMsg [] ''BAD_REQUEST'' ''request_id is required'') c
      else if \<not> authed (cn_sess c) then conn_send (errorMsg reqID ''UNAUTHENTICATED'' ''authenticate before resetting'') c
      else (case aHandleReset h (cn_sess c) req (cn_world c) of
              (fs, w) \<Rightarrow> c\<lparr>cn_out := cn_out c @ map (Pair None) fs, cn_world := w\<rparr>))"

definition dispatch :: "'w access \<Rightarrow> ClientEnvelope ptr \<Rightarrow> 'w conn \<Rightarrow> 'w conn" where
  "dispatch h env c =
     (case client_GetBody env of
        Some ClientEnvelope_Ping \<Rightarrow> conn_send pong c
      | Some (ClientEnvelope_Auth req) \<Rightarrow>
          (case aAuthenticate h (cn_sess c) req (cn_world c) of
             ((ok, reason), sess) \<Rightarrow> conn_send (authResult ok reason) (c\<lparr>cn_sess := sess\<rparr>))
      | Some (ClientEnvelope_Stop req) \<Rightarrow> c\<lparr>cn_reg := snd (registry_Stop (stop_GetRequestId req) (cn_reg c))\<rparr>
      | Some (ClientEnvelope_Chat req) \<Rightarrow> listener_handleChat req c
      | Some (ClientEnvelope_Reset req) \<Rightarrow> listener_handleReset h req c
      | None \<Rightarrow> c)"

section \<open>The connection\<close>

definition conn_close :: "'w conn \<Rightarrow> 'w conn" where
  "conn_close c = c\<lparr>cn_phase := Draining, cn_reg := registry_CancelAll (cn_reg c)\<rparr>"

text \<open>One round of the read loop: whether setting the read deadline failed and whether \<open>connCtx\<close> was
  done are its arguments.\<close>

definition serve_once ::
  "(byte list \<Rightarrow> string + ClientEnvelope) \<Rightarrow> 'w access \<Rightarrow> bool \<Rightarrow> bool \<Rightarrow> 'w conn \<Rightarrow> 'w conn" where
  "serve_once unmarshal h deadlineErr ctxErr c =
     (if deadlineErr then conn_close c
      else case ReadClientEnvelope unmarshal (cn_in c) of
        (Inl e, r) \<Rightarrow> conn_close (c\<lparr>cn_in := r\<rparr>)
      | (Inr env, r) \<Rightarrow> if ctxErr then conn_close (c\<lparr>cn_in := r\<rparr>) else dispatch h (Some env) (c\<lparr>cn_in := r\<rparr>))"

definition ctx_phase :: "'w conn \<Rightarrow> nat \<Rightarrow> phase" where
  "ctx_phase c i = rc_phase (ctxs (cn_reg c) ! i)"

text \<open>\<open>ServeConn\<close> and its goroutines. \<open>leave\<close>, \<open>unregister\<close> and \<open>finish\<close> are the parts of the deferred \<open>done\<close>;
  \<open>close\<close> is the end of \<open>ServeConn\<close>, after \<open>registry.Wait\<close>.\<close>

inductive conn_step :: "(byte list \<Rightarrow> string + ClientEnvelope) \<Rightarrow> 'w access \<Rightarrow> 'w conn \<Rightarrow> 'w conn \<Rightarrow> bool"
  for unmarshal h where
  serve: "cn_phase c = Serving \<Longrightarrow> conn_step unmarshal h c (serve_once unmarshal h deadlineErr ctxErr c)"
| start: "i < length (cn_jobs c) \<Longrightarrow> cn_jobs c ! i = Starting req \<Longrightarrow> aHandleChat h (cn_sess c) req fs \<Longrightarrow>
    conn_step unmarshal h c (c\<lparr>cn_jobs := (cn_jobs c)[i := Sending fs]\<rparr>)"
| emit: "i < length (cn_jobs c) \<Longrightarrow> cn_jobs c ! i = Sending (f # fs) \<Longrightarrow>
    conn_step unmarshal h c (c\<lparr>cn_out := cn_out c @ [(Some i, f)], cn_jobs := (cn_jobs c)[i := Sending fs]\<rparr>)"
| leave: "i < length (cn_jobs c) \<Longrightarrow> cn_jobs c ! i = Sending [] \<Longrightarrow> ctx_phase c i = Running \<Longrightarrow>
    conn_step unmarshal h c (c\<lparr>cn_reg := done_cancel i (cn_reg c)\<rparr>)"
| unregister: "i < length (cn_jobs c) \<Longrightarrow> ctx_phase c i = CancelledSelf \<Longrightarrow>
    conn_step unmarshal h c (c\<lparr>cn_reg := done_delete i (cn_reg c)\<rparr>)"
| finish: "i < length (cn_jobs c) \<Longrightarrow> ctx_phase c i = Unregistered \<Longrightarrow>
    conn_step unmarshal h c (c\<lparr>cn_reg := done_wg i (cn_reg c)\<rparr>)"
| close: "cn_phase c = Draining \<Longrightarrow> registry_Wait_returns (cn_reg c) \<Longrightarrow> conn_step unmarshal h c (c\<lparr>cn_phase := Closed\<rparr>)"

datatype read_exit = ExitEOF | ExitTruncated | ExitIdleTimeout | ExitReadError

text \<open>The log line \<open>logReadExit\<close> picks.\<close>

definition logReadExit :: "codec_error \<Rightarrow> read_exit" where
  "logReadExit e =
     (if e = CodecIO EOF then ExitEOF
      else if e = CodecIO ErrUnexpectedEOF then ExitTruncated
      else if e = CodecIO ErrTimeout then ExitIdleTimeout else ExitReadError)"

section \<open>The pipeline as the handler\<close>

definition fresh_request :: "'w \<Rightarrow> 'w chat_state" where
  "fresh_request w = \<lparr>cs_world = w, cs_trace = [], cs_filter = NewOutputFilter AllowAll, cs_outputBlocked = False,
     cs_taskID = [], cs_streamCancelled = False, cs_start = 0, cs_firstDelta = False\<rparr>"

definition pipeline_access :: "'w handler \<Rightarrow> 'w request_env \<Rightarrow> 'w access" where
  "pipeline_access h E =
     \<lparr>aAuthenticate = pipeline_Authenticate h,
      aHandleReset = (\<lambda>sess req w. let s = HandleReset h E sess req (fresh_request w) in (sent (cs_trace s), cs_world s)),
      aHandleChat = (\<lambda>sess req fs. \<exists>E' w s. HandleChat h E' sess req (fresh_request w) = Some s \<and> fs = sent (cs_trace s))\<rparr>"

section \<open>Accepting connections\<close>

text \<open>What \<open>Accept\<close> gives: a connection, an error that is a timeout, or another error. \<open>ctxDone\<close> is
  \<open>ctx.Err() \<noteq> nil\<close>. The loop returns the error and the connections it handed to a \<open>ServeConn\<close> goroutine; it may
  run forever.\<close>

datatype 'c accepted = Accepted 'c | AcceptTimeout string | AcceptErr string

partial_function (option) accept_loop ::
  "('w \<Rightarrow> 'c accepted \<times> 'w) \<Rightarrow> ('w \<Rightarrow> bool) \<Rightarrow> 'c list \<Rightarrow> 'w \<Rightarrow> ((string option \<times> 'c list) \<times> 'w) option" where
  "accept_loop accept ctxDone served w =
     (case accept w of
        (Accepted c, w1) \<Rightarrow> accept_loop accept ctxDone (served @ [c]) w1
      | (AcceptTimeout e, w1) \<Rightarrow>
          if ctxDone w1 then Some ((None, served), w1) else accept_loop accept ctxDone served w1
      | (AcceptErr e, w1) \<Rightarrow>
          if ctxDone w1 then Some ((None, served), w1) else Some ((Some e, served), w1))"

declare accept_loop.simps [code]

definition ListenAndServe ::
  "(string \<Rightarrow> 'w \<Rightarrow> string option \<times> 'w) \<Rightarrow> ('w \<Rightarrow> 'c accepted \<times> 'w) \<Rightarrow> ('w \<Rightarrow> bool) \<Rightarrow> string \<Rightarrow> 'w \<Rightarrow>
   ((string option \<times> 'c list) \<times> 'w) option" where
  "ListenAndServe listen accept ctxDone addr w =
     (case listen addr w of
        (Some e, w1) \<Rightarrow> Some ((Some e, []), w1)
      | (None, w1) \<Rightarrow> accept_loop accept ctxDone [] w1)"

text \<open>A listener that gives a list of results and is then closed by the cancelled context: the loop
  returns, every connection accepted before the first fatal error is served, once and in order, and
  the error is that one, or none after the cancellation.\<close>

fun script_accept :: "'c accepted list option \<Rightarrow> 'c accepted \<times> 'c accepted list option" where
  "script_accept (Some (x # xs)) = (x, Some xs)"
| "script_accept _ = (AcceptErr ''use of closed network connection'', None)"

fun fatal :: "'c accepted \<Rightarrow> bool" where
  "fatal (AcceptErr _) = True"
| "fatal _ = False"

fun accepted_conn :: "'c accepted \<Rightarrow> 'c option" where
  "accepted_conn (Accepted c) = Some c"
| "accepted_conn _ = None"

definition fatal_error :: "'c accepted list \<Rightarrow> string option" where
  "fatal_error xs = (case dropWhile (Not \<circ> fatal) xs of AcceptErr e # _ \<Rightarrow> Some e | _ \<Rightarrow> None)"

lemma accept_loop_script:
  "\<exists>w. accept_loop script_accept (\<lambda>w. w = None) served (Some xs) =
     Some ((fatal_error xs, served @ List.map_filter accepted_conn (takeWhile (Not \<circ> fatal) xs)), w)"
proof (induction xs arbitrary: served)
  case Nil
  show ?case by (subst accept_loop.simps) (simp add: fatal_error_def map_filter_simps comp_def)
next
  case (Cons x xs)
  show ?case
  proof (cases x)
    case (Accepted c)
    then show ?thesis using Cons[of "served @ [c]"] by (subst accept_loop.simps) (simp add: fatal_error_def map_filter_simps comp_def)
  next
    case (AcceptTimeout e)
    then show ?thesis using Cons[of served] by (subst accept_loop.simps) (simp add: fatal_error_def map_filter_simps comp_def)
  next
    case (AcceptErr e)
    then show ?thesis by (subst accept_loop.simps) (simp add: fatal_error_def map_filter_simps comp_def)
  qed
qed

end
