(* ===== verification/Runtime.thy ===== *)
theory Runtime
  imports Config Listener
begin

text \<open>
  \<^verbatim>\<open>internal/gateway/runtime.go\<close> and \<^verbatim>\<open>internal/telemetry/telemetry.go\<close>: the gateway put together. \<open>Build\<close> turns a
  configuration into a handler over the world \<open>gw_world\<close>: the limiter object, the Redis server and the
  network. Everything the process gets from outside the repository (PEM and JWT parsing, the Redis
  client, the HTTP transport, the metrics registry, randomness, the Unicode table) is one record,
  \<open>platform\<close>. A call on a request's context and one on a detached context reach Redis through
  different clients, since only the first can fail because the request was cancelled.

  What \<open>Build\<close>, \<open>Run\<close> and \<open>Close\<close> do to process-wide resources is the list of \<open>effect\<close>s they return.
\<close>

section \<open>The world and the platform\<close>

text \<open>The histograms use the library's default buckets.\<close>

datatype collector_kind = CounterVec | Counter | Gauge | Histogram

record collector =
  co_Kind :: collector_kind
  co_Name :: string
  co_Help :: string
  co_Labels :: "string list"

record ('s, 'n) gw_world =
  gw_limiter :: redisLimiter
  gw_redis :: 's
  gw_net :: 'n

record ('s, 'n, 'k, 'b) platform =
  pf_pemDecode :: "string \<Rightarrow> string option"
  pf_parsePKIX :: "string \<Rightarrow> 'k public_key option"
  pf_parsePKCS1 :: "string \<Rightarrow> 'k option"
  pf_jwt :: "('k, ('s, 'n) gw_world) jwt_parse"
  pf_parseDuration :: "string \<Rightarrow> int option"
  pf_rand :: "byte list option"
  pf_unixNano :: int
  pf_lower :: "nat \<Rightarrow> nat"
  pf_register :: "collector list \<Rightarrow> collector \<Rightarrow> string option"
  pf_redis :: "string \<Rightarrow> 's redis"
  pf_detached :: "string \<Rightarrow> 's redis"
  pf_now :: "'s \<Rightarrow> int"
  pf_lockRand :: "'s \<Rightarrow> byte list option"
  pf_wait :: "'s \<Rightarrow> string option \<times> 's"
  pf_ctxErr :: "('s, 'n) gw_world \<Rightarrow> string option"
  pf_stream :: "int \<Rightarrow> (bool \<times> 'n, 'b) http"
  pf_stop :: "int \<Rightarrow> ('n, 'b) http"
  pf_marshalUser :: "string \<Rightarrow> string + string"
  pf_pathEscape :: "string \<Rightarrow> string"

section \<open>Redis behind the handler's interfaces\<close>

definition with_limiter ::
  "(redisLimiter \<Rightarrow> 's \<Rightarrow> 'a \<times> redisLimiter \<times> 's) \<Rightarrow> ('s, 'n) gw_world \<Rightarrow> 'a \<times> ('s, 'n) gw_world" where
  "with_limiter f w = (case f (gw_limiter w) (gw_redis w) of (x, l, s) \<Rightarrow> (x, w\<lparr>gw_limiter := l, gw_redis := s\<rparr>))"

definition with_redis :: "('s \<Rightarrow> 'a \<times> 's) \<Rightarrow> ('s, 'n) gw_world \<Rightarrow> 'a \<times> ('s, 'n) gw_world" where
  "with_redis f w = (case f (gw_redis w) of (x, s) \<Rightarrow> (x, w\<lparr>gw_redis := s\<rparr>))"

definition redis_limiter :: "'s redis \<Rightarrow> 's redis \<Rightarrow> ('s \<Rightarrow> int) \<Rightarrow> ('s, 'n) gw_world limiter_if" where
  "redis_limiter R Rd now =
     \<lparr>lAllow = (\<lambda>p n. with_limiter (limiter_Allow R now p n)),
      lRecord = (\<lambda>p n. with_limiter (limiter_Record Rd now p n)),
      lRecordFailure = with_limiter (limiter_RecordFailure Rd now),
      lRelease = with_limiter (limiter_Release Rd now)\<rparr>"

definition redis_store ::
  "'s redis \<Rightarrow> 's redis \<Rightarrow> ('s \<Rightarrow> string option \<times> 's) \<Rightarrow> ('s \<Rightarrow> byte list option) \<Rightarrow> ('s, 'n) gw_world store_if" where
  "redis_store R Rd wait lockRand =
     \<lparr>sGet = (\<lambda>p n. with_redis (GetConversation R p n)),
      sSet = (\<lambda>detached p n c ttl. with_redis (SetConversation (if detached then Rd else R) p n c ttl)),
      sDelete = (\<lambda>p n. with_redis (DeleteConversation R p n)),
      sLock = (\<lambda>p n ttl w.
        (case AcquireConversationLock R wait (lockRand (gw_redis w)) p n ttl (gw_redis w) of
           None \<Rightarrow> None
         | Some (r, s) \<Rightarrow> Some (r, w\<lparr>gw_redis := s\<rparr>))),
      sUnlock = (\<lambda>u w. w\<lparr>gw_redis := snd (call_unlock Rd u (gw_redis w))\<rparr>)\<rparr>"

section \<open>The network behind the Dify client\<close>

text \<open>A transport over a part of a larger world: \<open>get\<close> reads the part and \<open>put\<close> replaces it.\<close>

definition via :: "('v \<Rightarrow> 'm) \<Rightarrow> ('m \<Rightarrow> 'v \<Rightarrow> 'v) \<Rightarrow> ('m \<Rightarrow> 'a \<times> 'm) \<Rightarrow> 'v \<Rightarrow> 'a \<times> 'v" where
  "via get put f v = (case f (get v) of (x, m) \<Rightarrow> (x, put m v))"

definition lift_http :: "('v \<Rightarrow> 'm) \<Rightarrow> ('m \<Rightarrow> 'v \<Rightarrow> 'v) \<Rightarrow> ('m, 'b) http \<Rightarrow> ('v, 'b) http" where
  "lift_http get put H =
     \<lparr>newRequestErr = newRequestErr H, httpDo = (\<lambda>rq. via get put (httpDo H rq)), readLimited = (\<lambda>n b. via get put (readLimited H n b)),
      scanLine = (\<lambda>b. via get put (scanLine H b)), sleepTimer = (\<lambda>d. via get put (sleepTimer H d)), marshalPayload = marshalPayload H,
      decodeResponse = (\<lambda>b. via get put (decodeResponse H b)), decodeEvent = decodeEvent H\<rparr>"

definition net_stream :: "(bool \<times> 'n, 'b) http \<Rightarrow> (bool \<times> ('s, 'n) gw_world, 'b) http" where
  "net_stream = lift_http (\<lambda>(c, w). (c, gw_net w)) (\<lambda>(c, n) (_, w). (c, w\<lparr>gw_net := n\<rparr>))"

definition net_stop :: "('n, 'b) http \<Rightarrow> (('s, 'n) gw_world, 'b) http" where
  "net_stop = lift_http gw_net (\<lambda>n w. w\<lparr>gw_net := n\<rparr>)"

section \<open>Telemetry and the admin server\<close>

definition collectors :: "collector list" where
  "collectors =
     [\<lparr>co_Kind = CounterVec, co_Name = ''gateway_requests_total'', co_Help = ''Total gateway requests by status.'', co_Labels = [''status'']\<rparr>,
      \<lparr>co_Kind = Histogram, co_Name = ''gateway_upstream_latency_seconds'', co_Help = ''Dify upstream request latency in seconds.'', co_Labels = []\<rparr>,
      \<lparr>co_Kind = Histogram, co_Name = ''gateway_first_token_latency_seconds'', co_Help = ''Latency to first streamed token in seconds.'', co_Labels = []\<rparr>,
      \<lparr>co_Kind = Counter, co_Name = ''gateway_tokens_total'', co_Help = ''Total upstream tokens consumed.'', co_Labels = []\<rparr>,
      \<lparr>co_Kind = Counter, co_Name = ''gateway_cost_usd_total'', co_Help = ''Total estimated upstream cost in USD.'', co_Labels = []\<rparr>,
      \<lparr>co_Kind = Gauge, co_Name = ''gateway_active_connections'', co_Help = ''Currently active client connections.'', co_Labels = []\<rparr>,
      \<lparr>co_Kind = Gauge, co_Name = ''gateway_inflight_upstream'', co_Help = ''Currently inflight upstream requests.'', co_Labels = []\<rparr>,
      \<lparr>co_Kind = Counter, co_Name = ''gateway_ratelimited_total'', co_Help = ''Total requests rejected by rate limiting.'', co_Labels = []\<rparr>,
      \<lparr>co_Kind = Gauge, co_Name = ''gateway_circuit_state'', co_Help = ''Circuit breaker state: 0 closed, 1 half-open, 2 open.'', co_Labels = []\<rparr>]"

datatype admin_handler = MetricsHandler "collector list" | HealthzHandler | ReadyzHandler

type_synonym admin_mux = "string \<rightharpoonup> admin_handler"

text \<open>The registration loop: \<open>register\<close> is told what the registry holds.\<close>

fun register_all :: "(collector list \<Rightarrow> collector \<Rightarrow> string option) \<Rightarrow> collector list \<Rightarrow> collector list \<Rightarrow> string + collector list" where
  "register_all register done [] = Inr done"
| "register_all register done (c # cs) =
     (case register done c of Some e \<Rightarrow> Inl e | None \<Rightarrow> register_all register (done @ [c]) cs)"

definition telemetry_Init :: "(collector list \<Rightarrow> collector \<Rightarrow> string option) \<Rightarrow> admin_mux \<Rightarrow> string + admin_mux" where
  "telemetry_Init register mux =
     (case register_all register [] collectors of
        Inl e \<Rightarrow> Inl e
      | Inr names \<Rightarrow> Inr (mux(''/metrics'' \<mapsto> MetricsHandler names)))"

definition Redact :: "string \<Rightarrow> string" where
  "Redact v = (if v = [] then [] else ''[REDACTED]'')"

definition addHealthHandlers :: "admin_mux \<Rightarrow> admin_mux" where
  "addHealthHandlers mux = mux(''/healthz'' \<mapsto> HealthzHandler, ''/readyz'' \<mapsto> ReadyzHandler)"

text \<open>Status and body of the two probes; \<open>ping\<close> is the client's, under the 500 ms context.\<close>

definition healthz :: "int \<times> string" where
  "healthz = (200, ''ok'' @ [CHR 0x0A])"

definition readyz :: "('s \<Rightarrow> redis_error option \<times> 's) \<Rightarrow> 's \<Rightarrow> (int \<times> string) \<times> 's" where
  "readyz ping s =
     (case ping s of
        (Some e, s') \<Rightarrow> ((503, ''redis unavailable'' @ [CHR 0x0A]), s')
      | (None, s') \<Rightarrow> ((200, ''ok'' @ [CHR 0x0A]), s'))"

section \<open>Building the gateway\<close>

datatype effect =
    OpenRedis string | CloseRedis
  | StartAdmin string | StartListener string | ShutdownAdmin

datatype build_error =
    AuthFailed auth_error | LimiterFailed limiter_error | RouterFailed string | TelemetryFailed string

record ('s, 'n) Runtime =
  rt_Config :: Config
  rt_Redis :: "string option"
  rt_AdminMux :: admin_mux
  rt_Handler :: "('s, 'n) gw_world handler"
  rt_Limiter :: redisLimiter
  rt_Listener :: server

definition zeroCircuit :: CircuitConfig where
  "zeroCircuit = \<lparr>Window = 0, MinSamples = 0, FailureThreshold = 0, OpenDuration = 0\<rparr>"

definition limiter_config :: "Config \<Rightarrow> limiterConfig" where
  "limiter_config c =
     \<lparr>RatePerPlayer = cfg_RatePerPlayer c, TokenBudgetDaily = cfg_TokenBudgetDaily c,
      MaxInflightUpstream = cfg_MaxInflightUpstream c, InflightLease = 0, CircuitCfg = zeroCircuit\<rparr>"

definition upstream_timeout :: "Config \<Rightarrow> int" where
  "upstream_timeout c = wrap64 (UpstreamTimeoutSec c * second)"

definition build_moderator :: "(nat \<Rightarrow> nat) \<Rightarrow> Config \<Rightarrow> moderator" where
  "build_moderator lower c =
     (if ModerationEnabled c
      then policy_moderator (NewPolicyModerator (KeywordPolicy_Allowed lower (NewKeywordPolicy lower [])))
      else AllowAll)"

definition upstreamRetryBaseBackoff :: int where "upstreamRetryBaseBackoff = 500 * millisecond"
definition upstreamRetryMaxBackoff :: int where "upstreamRetryMaxBackoff = 5 * second"

definition build_handler ::
  "('s, 'n, 'k, 'b) platform \<Rightarrow> Config \<Rightarrow> 'k jwtAuthenticator \<Rightarrow> difyRouter \<Rightarrow> ('s, 'n) gw_world handler" where
  "build_handler pf c au router =
     (let R = pf_redis pf (RedisAddr c); Rd = pf_detached pf (RedisAddr c); timeout = upstream_timeout c in
      pipeline_New (Some (auth_Verify (pf_jwt pf) au)) (Some (redis_limiter R Rd (pf_now pf)))
        (Some (redis_store R Rd (pf_wait pf) (pf_lockRand pf)))
        (Some (assembler_Build (pf_ctxErr pf) (assembler_New DefaultContract [])))
        (Some (build_moderator (pf_lower pf) c))
        (Some (router_dify (net_stream (pf_stream pf timeout)) (net_stop (pf_stop pf timeout)) upstreamRetryBaseBackoff upstreamRetryMaxBackoff
           (pf_marshalUser pf) (pf_pathEscape pf) router)) 0 0)"

definition Build :: "('s, 'n, 'k, 'b) platform \<Rightarrow> Config \<Rightarrow> (build_error + ('s, 'n) Runtime) \<times> effect list" where
  "Build pf c =
     (case auth_New (pf_pemDecode pf) (pf_parsePKIX pf) (pf_parsePKCS1 pf) (AuthJWTPubKey c) of
        Inl e \<Rightarrow> (Inl (AuthFailed e), [])
      | Inr au \<Rightarrow>
          (let opened = [OpenRedis (RedisAddr c)] in
           case limiter_New (pf_parseDuration pf) (pf_rand pf) (pf_unixNano pf) True (limiter_config c) of
             Inl e \<Rightarrow> (Inl (LimiterFailed e), opened @ [CloseRedis])
           | Inr lm \<Rightarrow>
               (case NewDifyRouter (DifyBaseURL c) (DifyAppKeys c) of
                  Inl e \<Rightarrow> (Inl (RouterFailed e), opened @ [CloseRedis])
                | Inr router \<Rightarrow>
                    (case telemetry_Init (pf_register pf) Map.empty of
                       Inl e \<Rightarrow> (Inl (TelemetryFailed e), opened @ [CloseRedis])
                     | Inr mux \<Rightarrow>
                         (Inr \<lparr>rt_Config = c, rt_Redis = Some (RedisAddr c), rt_AdminMux = addHealthHandlers mux,
                               rt_Handler = build_handler pf c au router, rt_Limiter = lm,
                               rt_Listener = listener_New\<rparr>, opened)))))"

section \<open>Running it\<close>

text \<open>What \<open>Run\<close> can receive first: the end of the context, or the return of one of the two servers with
  or without an error.\<close>

datatype serve_error = ErrServerClosed | ServeErr string

datatype run_event = CtxDone | AdminExit "serve_error option" | ListenerExit "string option"

definition admin_error :: "serve_error option \<Rightarrow> string option" where
  "admin_error e = (case e of Some (ServeErr m) \<Rightarrow> Some (''admin server: '' @ m) | _ \<Rightarrow> None)"

definition runtime_Run :: "('s, 'n) Runtime option \<Rightarrow> run_event \<Rightarrow> string option \<times> effect list" where
  "runtime_Run r ev =
     (case r of
        None \<Rightarrow> (Some ''gateway: runtime is nil'', [])
      | Some rt \<Rightarrow>
          (let started = [StartAdmin (GatewayAdminAddr (rt_Config rt)), StartListener (GatewayAddr (rt_Config rt))];
               received = (\<lambda>err. case err of
                 Some m \<Rightarrow> (Some m, started @ [ShutdownAdmin])
               | None \<Rightarrow> (None, started))
           in case ev of
                CtxDone \<Rightarrow> (None, started @ [ShutdownAdmin])
              | AdminExit e \<Rightarrow> received (admin_error e)
              | ListenerExit e \<Rightarrow> received (map_option (\<lambda>m. ''gateway listener: '' @ m) e)))"

definition runtime_Close :: "('s, 'n) Runtime option \<Rightarrow> effect list" where
  "runtime_Close r = (case r of None \<Rightarrow> [] | Some rt \<Rightarrow> (case rt_Redis rt of None \<Rightarrow> [] | Some _ \<Rightarrow> [CloseRedis]))"

definition gateway_Run ::
  "('s, 'n, 'k, 'b) platform \<Rightarrow> Config \<Rightarrow> run_event \<Rightarrow> (build_error + string option) \<times> effect list" where
  "gateway_Run pf c ev =
     (case Build pf c of
        (Inl e, fx) \<Rightarrow> (Inl e, fx)
      | (Inr rt, fx) \<Rightarrow>
          (case runtime_Run (Some rt) ev of (err, fx') \<Rightarrow> (Inr err, fx @ fx' @ runtime_Close (Some rt))))"

text \<open>\<^verbatim>\<open>cmd/gateway/main.go\<close>: how the process ends.\<close>

datatype process_end = ExitNormally | FatalConfig "config_error list" | FatalBuild build_error | FatalRun string

definition gateway_main :: "('s, 'n, 'k, 'b) platform \<Rightarrow> environment \<Rightarrow> run_event \<Rightarrow> process_end \<times> effect list" where
  "gateway_main pf env ev =
     (case Load env of
        Inl errs \<Rightarrow> (FatalConfig errs, [])
      | Inr c \<Rightarrow>
          (case gateway_Run pf c ev of
             (Inl e, fx) \<Rightarrow> (FatalBuild e, fx)
           | (Inr (Some m), fx) \<Rightarrow> (FatalRun m, fx)
           | (Inr None, fx) \<Rightarrow> (ExitNormally, fx)))"

section \<open>Construction\<close>

lemma zeroCircuit_ok: "\<exists>cb. newCircuitBreaker zeroCircuit = Inr cb"
  by (simp add: newCircuitBreaker_def circuit_defaults_def zeroCircuit_def circuit_default_defs)

text \<open>On a well-formed configuration only the rate can be refused by the limiter, and nothing by the
  router.\<close>

lemma limiter_New_loaded:
  assumes "config_wf c"
  shows "(\<exists>l. limiter_New pd rand nano True (limiter_config c) = Inr l) \<longleftrightarrow> (\<exists>r. parseRate pd (cfg_RatePerPlayer c) = Inr r)"
proof -
  obtain cb where "newCircuitBreaker zeroCircuit = Inr cb" using zeroCircuit_ok by blast
  then show ?thesis
    using assms by (auto simp: limiter_New_def limiter_config_def config_wf_def defaultInflightLease_def Let_def split: sum.splits)
qed

lemma router_clients_ok: "keys_wf ks \<Longrightarrow> \<exists>m'. router_clients base ks m = Some m'"
  by (induction base ks m rule: router_clients.induct) (auto simp: keys_wf_def Let_def)

lemma Load_base_trimmed: "Load env = Inr c \<Longrightarrow> TrimSpace (DifyBaseURL c) = DifyBaseURL c"
  by (auto simp: Load_def Let_def split: if_splits)

lemma NewDifyRouter_loaded:
  assumes "Load env = Inr c"
  shows "\<exists>r. NewDifyRouter (DifyBaseURL c) (DifyAppKeys c) = Inr r"
proof -
  have wf: "config_wf c" by (rule Load_wf[OF assms])
  obtain m where "router_clients (DifyBaseURL c) (DifyAppKeys c) Map.empty = Some m"
    using wf router_clients_ok[of "DifyAppKeys c" "DifyBaseURL c" Map.empty] by (auto simp: config_wf_def)
  then show ?thesis using wf Load_base_trimmed[OF assms] by (simp add: NewDifyRouter_def config_wf_def)
qed

text \<open>Prometheus: a registry accepts a collector whose name it does not hold yet.\<close>

definition registry_law :: "(collector list \<Rightarrow> collector \<Rightarrow> string option) \<Rightarrow> bool" where
  "registry_law register \<longleftrightarrow> (\<forall>held c. co_Name c \<notin> co_Name ` set held \<longrightarrow> register held c = None)"

lemma register_all_ok:
  "registry_law register \<Longrightarrow> distinct (map co_Name (held @ cs)) \<Longrightarrow> register_all register held cs = Inr (held @ cs)"
  by (induction register held cs rule: register_all.induct) (auto simp: registry_law_def)

lemma telemetry_Init_ok:
  "registry_law register \<Longrightarrow> telemetry_Init register mux = Inr (mux(''/metrics'' \<mapsto> MetricsHandler collectors))"
  using register_all_ok[of register "[]" collectors] by (simp add: telemetry_Init_def collectors_def)

lemma Build_loaded:
  assumes "Load env = Inr c" and "registry_law (pf_register pf)"
  shows "(\<exists>rt fx. Build pf c = (Inr rt, fx)) \<longleftrightarrow>
     (\<exists>au. auth_New (pf_pemDecode pf) (pf_parsePKIX pf) (pf_parsePKCS1 pf) (AuthJWTPubKey c) = Inr au) \<and>
     (\<exists>r. parseRate (pf_parseDuration pf) (cfg_RatePerPlayer c) = Inr r)"
proof -
  obtain r where "NewDifyRouter (DifyBaseURL c) (DifyAppKeys c) = Inr r" using NewDifyRouter_loaded[OF assms(1)] by blast
  then show ?thesis
    using limiter_New_loaded[OF Load_wf[OF assms(1)], of "pf_parseDuration pf" "pf_rand pf" "pf_unixNano pf"] telemetry_Init_ok[OF assms(2)]
    by (auto simp: Build_def Let_def split: sum.splits)
qed

text \<open>A platform and an environment for the witnesses: the in-memory Redis, and a transport whose
  every request fails.\<close>

definition dead_http :: "('m, unit) http" where
  "dead_http = \<lparr>newRequestErr = (\<lambda>_ _. None), httpDo = (\<lambda>_ w. (Inl (''no route'', None), w)), readLimited = (\<lambda>_ _ w. ([], w)),
     scanLine = (\<lambda>_ w. (ScanEOF, w)), sleepTimer = (\<lambda>_ w. (None, w)), marshalPayload = (\<lambda>_. Inr []), decodeResponse = (\<lambda>_ w. (Inl [], w)),
     decodeEvent = (\<lambda>_. Inl [])\<rparr>"

definition demo_platform :: "(mem, unit, unit, unit) platform" where
  "demo_platform =
     \<lparr>pf_pemDecode = Some, pf_parsePKIX = (\<lambda>_. Some (RSAKey ())), pf_parsePKCS1 = (\<lambda>_. None),
      pf_jwt = (\<lambda>_ _ token _. JwtToken True token), pf_parseDuration = (\<lambda>d. if d = ''2s'' then Some (2 * second) else None),
      pf_rand = Some [1, 2], pf_unixNano = 0, pf_lower = (\<lambda>x. x), pf_register = (\<lambda>held c. if co_Name c \<in> co_Name ` set held then Some ''duplicate'' else None),
      pf_redis = (\<lambda>_. mem_redis), pf_detached = (\<lambda>_. mem_redis), pf_now = (\<lambda>_. 5 * second), pf_lockRand = (\<lambda>_. Some [7]),
      pf_wait = (\<lambda>s. (Some ''context canceled'', s)), pf_ctxErr = (\<lambda>_. None), pf_stream = (\<lambda>_. dead_http), pf_stop = (\<lambda>_. dead_http),
      pf_marshalUser = Inr, pf_pathEscape = (\<lambda>x. x)\<rparr>"

definition demo_environment :: environment where
  "demo_environment = (\<lambda>_. [])(''DIFY_BASE_URL'' := ''http://dify'', ''REDIS_ADDR'' := ''redis:6379'', ''AUTH_JWT_PUBKEY'' := ''pem'',
     ''DIFY_APP_KEYS'' := ''default=k1'', ''MODERATION_ENABLED'' := ''true'')"

lemma demo_Load: "\<exists>c. Load demo_environment = Inr c \<and> AuthJWTPubKey c = ''pem'' \<and> cfg_RatePerPlayer c = ''1r/2s'' \<and> RedisAddr c = ''redis:6379''"
proof -
  have trim: "TrimSpace ''http://dify'' = ''http://dify''" "TrimSpace ''redis:6379'' = ''redis:6379''" "TrimSpace ''pem'' = ''pem''"
      "TrimSpace ''default=k1'' = ''default=k1''" "TrimSpace ''true'' = ''true''" "TrimSpace ''default'' = ''default''" "TrimSpace ''k1'' = ''k1''"
    by (simp_all add: TrimSpace_graphic is_graphic_def)
  have [simp]: "TrimSpace [] = []" by code_simp
  have "split_on (CHR '';'') ''default=k1'' = [''default=k1'']" by code_simp
  moreover have "strings_Cut ''default=k1'' ''='' = Some (''default'', ''k1'')" by code_simp
  ultimately have keys: "parseAppKeys ''default=k1'' = Inr [(''default'', ''k1'')]" by (simp add: parseAppKeys_def trim)
  have "ParseBool ''true'' = Some True" by code_simp
  then have "load_errors demo_environment = []"
    by (simp add: load_errors_def demo_environment_def trim keys missing_if_def normalizePEMEnv_def errs_of_def int_setting_def bool_setting_def)
  then show ?thesis
    by (simp add: Load_def demo_environment_def trim envString_def normalizePEMEnv_def defaultRatePerPlayer_def)
qed

lemma demo_rate: "parseRate (pf_parseDuration demo_platform) ''1r/2s'' = Inr \<lparr>rl_limit = 1, rl_window = 2 * second\<rparr>"
proof -
  have "TrimSpace ''1r/2s'' = ''1r/2s''" "TrimSpace ''1'' = ''1''" "TrimSpace ''2s'' = ''2s''"
    by (simp_all add: TrimSpace_graphic is_graphic_def)
  moreover have "strings_Cut ''1r/2s'' ''r/'' = Some (''1'', ''2s'')" "ParseInt ''1'' = Some 1" by code_simp+
  ultimately show ?thesis by (simp add: parseRate_def demo_platform_def)
qed

lemma demo_auth: "auth_New (pf_pemDecode demo_platform) (pf_parsePKIX demo_platform) (pf_parsePKCS1 demo_platform) ''pem'' =
    Inr \<lparr>pubKey = RSAKey (), validMethods = [''RS256'', ''RS384'', ''RS512'', ''PS256'', ''PS384'', ''PS512'']\<rparr>"
  by (simp add: auth_New_def parsePublicKey_def demo_platform_def)

lemma demo_registry: "registry_law (pf_register demo_platform)"
  by (simp add: registry_law_def demo_platform_def)

lemma demo_Build: "\<exists>c rt fx. Load demo_environment = Inr c \<and> Build demo_platform c = (Inr rt, fx) \<and> RedisAddr c = ''redis:6379''"
proof -
  obtain c where c: "Load demo_environment = Inr c" "AuthJWTPubKey c = ''pem''" "cfg_RatePerPlayer c = ''1r/2s''" "RedisAddr c = ''redis:6379''"
    using demo_Load by blast
  then show ?thesis using Build_loaded[OF c(1) demo_registry] demo_auth demo_rate by auto
qed

text \<open>C38: what can stop the gateway from starting. On a configuration that \<open>Load\<close> accepted, \<open>Build\<close> succeeds exactly
  when the public key is usable and the rate string parses: the budget, the inflight bound, the
  circuit defaults, the base URL and the key map, checked again by the limiter and the router,
  cannot fail any more, and the metrics are registered under distinct names.\<close>

theorem Load_then_Build:
  assumes "Load env = Inr c" and "registry_law (pf_register pf)"
  shows "(\<exists>rt fx. Build pf c = (Inr rt, fx)) \<longleftrightarrow>
     (\<exists>au. auth_New (pf_pemDecode pf) (pf_parsePKIX pf) (pf_parsePKCS1 pf) (AuthJWTPubKey c) = Inr au) \<and>
     (\<exists>r. parseRate (pf_parseDuration pf) (cfg_RatePerPlayer c) = Inr r)"
  by (rule Build_loaded[OF assms])

theorem Load_then_Build_witness:
  "\<exists>c rt fx. Load demo_environment = Inr c \<and> Build demo_platform c = (Inr rt, fx)"
proof -
  obtain c where c: "Load demo_environment = Inr c" "AuthJWTPubKey c = ''pem''" "cfg_RatePerPlayer c = ''1r/2s''" using demo_Load by blast
  then show ?thesis using Load_then_Build[OF c(1) demo_registry] demo_auth demo_rate by auto
qed

section \<open>Redis is closed\<close>

fun is_redis :: "effect \<Rightarrow> bool" where
  "is_redis (OpenRedis _) = True"
| "is_redis CloseRedis = True"
| "is_redis _ = False"

lemma Build_redis:
  "Build pf c = (r, fx) \<Longrightarrow>
   (case r of Inl (AuthFailed _) \<Rightarrow> fx = [] | Inl _ \<Rightarrow> fx = [OpenRedis (RedisAddr c), CloseRedis]
    | Inr rt \<Rightarrow> fx = [OpenRedis (RedisAddr c)] \<and> rt_Redis rt = Some (RedisAddr c))"
  by (auto simp: Build_def Let_def split: sum.splits)

lemma runtime_Run_no_redis: "filter is_redis (snd (runtime_Run r ev)) = []"
  by (auto simp: runtime_Run_def Let_def split: option.splits run_event.splits)

text \<open>C39: the Redis client does not leak. On every path of \<open>Run\<close> (a bad key, a rate that does not parse, a
  failing metrics registration, a cancelled context, a server that stops), either no client was
  opened, because the public key was refused first, or exactly one was opened and it is closed
  afterwards, once.\<close>

theorem gateway_Run_closes_redis:
  "filter is_redis (snd (gateway_Run pf c ev)) = [OpenRedis (RedisAddr c), CloseRedis] \<or>
   (\<exists>e. gateway_Run pf c ev = (Inl (AuthFailed e), []))"
proof -
  obtain r fx where b: "Build pf c = (r, fx)" by (cases "Build pf c")
  show ?thesis
  proof (cases r)
    case (Inl e)
    then show ?thesis using b Build_redis[OF b] by (cases e) (auto simp: gateway_Run_def)
  next
    case (Inr rt)
    then show ?thesis using b Build_redis[OF b] runtime_Run_no_redis[of "Some rt" ev]
      by (auto simp: gateway_Run_def runtime_Close_def split: prod.splits)
  qed
qed

section \<open>Moderation as built\<close>

lemma empty_policy: "KeywordPolicy_Allowed lower (NewKeywordPolicy lower []) t"
  by (simp add: KeywordPolicy_Allowed_def NewKeywordPolicy_def)

lemma Build_handler:
  assumes "Build pf c = (Inr rt, fx)"
  obtains au router where "rt_Handler rt = build_handler pf c au router"
  using assms by (auto simp: Build_def Let_def split: sum.splits)

text \<open>The built gateway does not moderate. Whatever \<open>MODERATION_ENABLED\<close> says, the handler \<open>Build\<close> makes accepts
  every query and every output segment: the keyword list it passes to the policy is empty.\<close>

theorem build_moderation_inert:
  assumes "Build pf c = (Inr rt, fx)"
  shows "mCheckInput (h_moderator (rt_Handler rt)) q = (True, []) \<and> mCheckOutput (h_moderator (rt_Handler rt)) seg = (True, [])"
proof -
  obtain au router where h: "rt_Handler rt = build_handler pf c au router" by (rule Build_handler[OF assms])
  show ?thesis
    by (simp add: h build_handler_def pipeline_New_def Let_def build_moderator_def AllowAll_def policy_moderator_def NewPolicyModerator_def
        PolicyModerator_CheckInput_def PolicyModerator_CheckOutput_def empty_policy)
qed

theorem build_moderation_inert_witness:
  "\<exists>c rt fx. Build demo_platform c = (Inr rt, fx) \<and> ModerationEnabled c \<and> mCheckInput (h_moderator (rt_Handler rt)) ''anything'' = (True, [])"
proof -
  obtain c rt fx where b: "Load demo_environment = Inr c" "Build demo_platform c = (Inr rt, fx)" using demo_Build by blast
  have "TrimSpace ''true'' = ''true''" "ParseBool ''true'' = Some True" by (simp add: TrimSpace_graphic is_graphic_def) code_simp
  then have "ModerationEnabled c"
    using b(1) by (auto simp: Load_def Let_def value_or_def bool_setting_def demo_environment_def split: if_splits)
  then show ?thesis using b(2) build_moderation_inert[OF b(2), of "''anything''" "[]"] by blast
qed

section \<open>The upstream timeout\<close>

text \<open>\<open>UPSTREAM_TIMEOUT_SEC\<close> is converted to nanoseconds without a bound: ten billion seconds, a positive
  integer \<open>Load\<close> accepts, becomes a negative duration.\<close>

lemma upstream_timeout_overflows: "UpstreamTimeoutSec c = 10000000000 \<Longrightarrow> upstream_timeout c < 0"
  by (simp add: upstream_timeout_def wrap64_def)

end
