(* ===== verification/Limiter_Props.thy ===== *)
theory Limiter_Props
  imports Limiter
begin

text \<open>
  What the limiter guarantees across gateway processes that share one Redis: the in-flight
  semaphore never exceeds its bound, the sliding window never admits more than its limit, and the
  exact decision and bookkeeping of \<open>Allow\<close>, \<open>Record\<close>, \<open>RecordFailure\<close> and \<open>Release\<close> when the
  server answers. Processes interleave at the granularity of one Redis round trip, which is where
  the code can be preempted with an effect on shared state.
\<close>

section \<open>Processes sharing a server\<close>

text \<open>One step of one process, a whole method or one of its round trips, or a step of the server
  that lets leases lapse.\<close>

inductive limiter_system ::
  "'s redis \<Rightarrow> ('s \<Rightarrow> string \<Rightarrow> rval option) \<Rightarrow> ('s \<Rightarrow> int) \<Rightarrow>
   (nat \<Rightarrow> redisLimiter) \<times> 's \<Rightarrow> (nat \<Rightarrow> redisLimiter) \<times> 's \<Rightarrow> bool"
  for R view now where
  allow: "limiter_Allow R now p est (ps i) s = (r, l', s') \<Longrightarrow>
     limiter_system R view now (ps, s) (ps(i := l'), s')"
| recorded: "limiter_Record R now p used (ps i) s = (e, l', s') \<Longrightarrow>
     limiter_system R view now (ps, s) (ps(i := l'), s')"
| failed: "limiter_RecordFailure R now (ps i) s = (e, l', s') \<Longrightarrow>
     limiter_system R view now (ps, s) (ps(i := l'), s')"
| released: "limiter_Release R now (ps i) s = (e, l', s') \<Longrightarrow>
     limiter_system R view now (ps, s) (ps(i := l'), s')"
| acquire: "acquireInflight R now (ps i) s = (e, l', s') \<Longrightarrow>
     limiter_system R view now (ps, s) (ps(i := l'), s')"
| release: "releaseInflight R now (ps i) s = (e, l', s') \<Longrightarrow>
     limiter_system R view now (ps, s) (ps(i := l'), s')"
| rate: "allowRate R now p (ps i) s = (e, l', s') \<Longrightarrow>
     limiter_system R view now (ps, s) (ps(i := l'), s')"
| tokens: "recordTokens R now p n s = (e, s') \<Longrightarrow> limiter_system R view now (ps, s) (ps, s')"
| budget: "checkBudget R now p est (ps i) s = (e, s') \<Longrightarrow> limiter_system R view now (ps, s) (ps, s')"
| lapse: "no_str (view s' inflightKey) \<Longrightarrow>
     zset_of (view s' inflightKey) \<subseteq>\<^sub>m zset_of (view s inflightKey) \<Longrightarrow>
     limiter_system R view now (ps, s) (ps, s')"

lemma maxInflight_methods [simp]:
  "maxInflight (fst (snd (releaseInflight R now l s))) = maxInflight l"
  "maxInflight (fst (snd (allowRate R now p l s))) = maxInflight l"
  "maxInflight (fst (snd (acquireInflight R now l s))) = maxInflight l"
  "maxInflight (onCircuit f l) = maxInflight l" "maxInflight (countLimited l) = maxInflight l"
  by (auto simp: releaseInflight_def allowRate_def acquireInflight_def next_serial_def onCircuit_def
      countLimited_def Let_def split: prod.splits sum.splits)

lemma maxInflight_of:
  "releaseInflight R now l s = (e, l', s') \<Longrightarrow> maxInflight l' = maxInflight l"
  "allowRate R now p l s = (e, l', s') \<Longrightarrow> maxInflight l' = maxInflight l"
  "acquireInflight R now l s = (e, l', s') \<Longrightarrow> maxInflight l' = maxInflight l"
  by (metis fst_conv maxInflight_methods snd_conv)+

lemma maxInflight_limiter:
  "limiter_Allow R now p est l s = (r, l', s') \<Longrightarrow> maxInflight l' = maxInflight l"
  "limiter_Record R now p n l s = (e, l', s') \<Longrightarrow> maxInflight l' = maxInflight l"
  "limiter_RecordFailure R now l s = (e, l', s') \<Longrightarrow> maxInflight l' = maxInflight l"
  "limiter_Release R now l s = (e, l', s') \<Longrightarrow> maxInflight l' = maxInflight l"
  by (auto simp: limiter_Allow_def limiter_Record_def limiter_RecordFailure_def limiter_Release_def
      Let_def dest!: maxInflight_of split: if_splits prod.splits option.splits bool.splits)

definition bounded_system ::
  "('s \<Rightarrow> string \<Rightarrow> rval option) \<Rightarrow> int \<Rightarrow> (nat \<Rightarrow> redisLimiter) \<times> 's \<Rightarrow> bool" where
  "bounded_system view M = (\<lambda>(ps, s). (\<forall>i. maxInflight (ps i) = M) \<and> inflight_ok view M s)"

context redis_server
begin

lemma lapse_ok:
  assumes "inflight_ok view M s" "no_str (view s' inflightKey)"
    "zset_of (view s' inflightKey) \<subseteq>\<^sub>m zset_of (view s inflightKey)"
  shows "inflight_ok view M s'"
proof -
  have "card (dom (zset_of (view s' inflightKey))) \<le> card (dom (zset_of (view s inflightKey)))"
    using assms(3) zset_finite by (intro card_mono) (auto dest: map_le_implies_dom_le)
  with assms show ?thesis by (simp add: inflight_ok_def)
qed

lemma limiter_system_bounded:
  "limiter_system R view now x y \<Longrightarrow> bounded_system view M x \<Longrightarrow> bounded_system view M y"
proof (induction rule: limiter_system.induct)
  case (allow p est ps i s r l' s')
  then show ?case
    using limiter_methods_inflight_ok(1)[of M s "ps i" now p est]
    by (auto simp: bounded_system_def dest: maxInflight_limiter)
next
  case (recorded p used ps i s e l' s')
  then show ?case
    using limiter_methods_inflight_ok(2)[of M s now p used "ps i"]
    by (auto simp: bounded_system_def dest: maxInflight_limiter)
next
  case (failed ps i s e l' s')
  then show ?case
    using limiter_methods_inflight_ok(3)[of M s now "ps i"]
    by (auto simp: bounded_system_def dest: maxInflight_limiter)
next
  case (released ps i s e l' s')
  then show ?case
    using limiter_methods_inflight_ok(4)[of M s now "ps i"]
    by (auto simp: bounded_system_def dest: maxInflight_limiter)
next
  case (acquire ps i s e l' s')
  then show ?case using inflight_ok_methods(1)[of "ps i" s now]
    by (auto simp: bounded_system_def dest: maxInflight_of)
next
  case (release ps i s e l' s')
  then show ?case using inflight_ok_methods(2)[of M s now "ps i"]
    by (auto simp: bounded_system_def dest: maxInflight_of)
next
  case (rate p ps i s e l' s')
  then show ?case using inflight_ok_methods(3)[of M s now p "ps i"]
    by (auto simp: bounded_system_def dest: maxInflight_of)
next
  case (tokens p n s e s' ps)
  then show ?case using inflight_ok_methods(4)[of M s now p n] by (auto simp: bounded_system_def)
next
  case (budget p est ps i s e s')
  then show ?case using inflight_ok_methods(5)[of M s now p est "ps i"]
    by (auto simp: bounded_system_def)
next
  case (lapse s' s ps)
  then show ?case using lapse_ok by (auto simp: bounded_system_def)
qed

lemma limiter_system_reachable:
  "(limiter_system R view now)\<^sup>*\<^sup>* x y \<Longrightarrow> bounded_system view M x \<Longrightarrow> bounded_system view M y"
  by (induction rule: rtranclp_induct) (auto intro: limiter_system_bounded)

end

text \<open>C17: the in-flight semaphore. Any number of gateway processes configured with the same
  \<open>MaxInflightUpstream\<close> and sharing one Redis, in any interleaving of their methods and single
  round trips, with retried and failed calls and lapsing leases, never hold more than that many
  slots.\<close>

theorem inflight_bound:
  assumes "redis_server R view pttl"
    and "\<forall>i. maxInflight (ps i) = M" and "inflight_ok view M s"
    and "(limiter_system R view now)\<^sup>*\<^sup>* (ps, s) (ps', s')"
  shows "int (card (dom (zset_of (view s' inflightKey)))) \<le> M"
proof -
  have "bounded_system view M (ps', s')"
    using redis_server.limiter_system_reachable[OF assms(1) assms(4)] assms(2,3)
    by (simp add: bounded_system_def)
  then show ?thesis by (simp add: bounded_system_def inflight_ok_def)
qed

definition sample_limiter :: redisLimiter where
  "sample_limiter = \<lparr>lim_rate = \<lparr>rl_limit = 1, rl_window = 2 * second\<rparr>, tokenBudget = 1000,
     maxInflight = 2, inflightTTL = 120 * second, circuit = default_breaker, instanceID = ''i'',
     memberSerial = 0, rateLimitedTotal = 0, inflightGauge = 0\<rparr>"

definition empty_mem :: mem where
  "empty_mem = \<lparr>kv = Map.empty, ttls = Map.empty\<rparr>"

lemma mem_view_empty [simp]: "mem_view empty_mem k = None"
  by (simp add: mem_view_def empty_mem_def)

lemma sample_limiter_simps [simp]:
  "maxInflight sample_limiter = 2" "memberSerial sample_limiter = 0" "circuit sample_limiter = default_breaker"
  "lim_rate sample_limiter = \<lparr>rl_limit = 1, rl_window = 2 * second\<rparr>" "instanceID sample_limiter = ''i''"
  by (simp_all add: sample_limiter_def)

theorem inflight_bound_witness:
  "int (card (dom (zset_of (mem_view
     (snd (snd (limiter_Allow mem_redis (\<lambda>_. 5 * second) ''p'' 3 sample_limiter empty_mem))) inflightKey)))) \<le> 2"
proof -
  let ?now = "\<lambda>_::mem. 5 * second"
  obtain r l' s' where a: "limiter_Allow mem_redis ?now ''p'' 3 sample_limiter empty_mem = (r, l', s')"
    by (metis prod_cases3)
  then have "(limiter_system mem_redis mem_view ?now)\<^sup>*\<^sup>* ((\<lambda>_. sample_limiter), empty_mem)
      ((\<lambda>_. sample_limiter)(0 := l'), s')"
    by (intro r_into_rtranclp limiter_system.allow[where i = 0]) simp
  then have "int (card (dom (zset_of (mem_view s' inflightKey)))) \<le> 2"
    by (intro inflight_bound[OF mr.redis_server_axioms]) (simp_all add: inflight_ok_def)
  with a show ?thesis by simp
qed

section \<open>The sliding window\<close>

lemma split_at_last:
  "c \<notin> set ys \<Longrightarrow> c \<notin> set ys' \<Longrightarrow> xs @ c # ys = xs' @ c # ys' \<longleftrightarrow> xs = xs' \<and> ys = ys'"
proof (induction ys arbitrary: ys' rule: rev_induct)
  case Nil
  then show ?case by (cases ys' rule: rev_cases) auto
next
  case (snoc y ys)
  then show ?case
    by (cases ys' rule: rev_cases) (auto simp flip: append_Cons append_assoc)
qed

lemma unat_less_64: "unat (w :: 64 word) < 2 ^ 64"
  using unsigned_less[of w, where ?'a = nat] by simp

lemma FormatInt_no_colon: "CHR '':'' \<notin> set (FormatInt a)"
  by (simp add: FormatInt_def nat_str_no_colon)

lemma member_token_inj:
  "member_token a x n = member_token b y m \<longleftrightarrow> a = b \<and> x = y \<and> n = m"
proof -
  have "member_token a x n = member_token b y m \<longleftrightarrow>
      (a @ CHR '':'' # FormatInt x) @ CHR '':'' # nat_str (unat n) =
      (b @ CHR '':'' # FormatInt y) @ CHR '':'' # nat_str (unat m)"
    by (simp add: member_token_def)
  also have "\<dots> \<longleftrightarrow> a = b \<and> x = y \<and> n = m"
    unfolding split_at_last[OF nat_str_no_colon nat_str_no_colon]
      split_at_last[OF FormatInt_no_colon FormatInt_no_colon] by (auto simp: word_unat_eq_iff)
  finally show ?thesis .
qed

text \<open>The history of one player's window: processes \<open>ps\<close> call \<open>allowRate\<close> and the server drops
  expired members. \<open>hist\<close> lists the admitted calls: process, member serial, time in
  milliseconds. Clocks agree and do not run backwards; no process has issued \<open>2 ^ 64\<close> members.\<close>

inductive rate_trace ::
  "'s redis \<Rightarrow> ('s \<Rightarrow> string \<Rightarrow> rval option) \<Rightarrow> ('s \<Rightarrow> int) \<Rightarrow> string \<Rightarrow> rateLimit \<Rightarrow>
   (nat \<Rightarrow> redisLimiter) \<Rightarrow> 's \<Rightarrow> (nat \<times> nat \<times> int) list \<Rightarrow> bool"
  for R view now p rt where
  start: "view s (rateKey p) = None \<Longrightarrow> \<forall>i. memberSerial (ps i) = 0 \<and> lim_rate (ps i) = rt \<Longrightarrow>
     inj (\<lambda>i. instanceID (ps i)) \<Longrightarrow> rate_trace R view now p rt ps s []"
| call: "rate_trace R view now p rt ps s hist \<Longrightarrow> memberSerial (ps i) \<noteq> - 1 \<Longrightarrow>
     allowRate R now p (ps i) s = (r, l', s') \<Longrightarrow> now s \<le> now s' \<Longrightarrow>
     rate_trace R view now p rt (ps(i := l')) s'
       (if r = None then (i, unat (memberSerial l'), unix_milli (now s)) # hist else hist)"
| elapse: "rate_trace R view now p rt ps s hist \<Longrightarrow> now s \<le> now s' \<Longrightarrow> no_str (view s' (rateKey p)) \<Longrightarrow>
     zset_of (view s' (rateKey p)) \<subseteq>\<^sub>m zset_of (view s (rateKey p)) \<Longrightarrow>
     \<forall>m sc. zset_of (view s (rateKey p)) m = Some sc \<longrightarrow>
       unix_milli (now s') - millis_at_least_1 (rl_window rt) < sc \<longrightarrow>
       zset_of (view s' (rateKey p)) m = Some sc \<Longrightarrow>
     rate_trace R view now p rt ps s' hist"

definition in_window :: "int \<Rightarrow> int \<Rightarrow> nat \<times> nat \<times> int \<Rightarrow> bool" where
  "in_window W T e = (case e of (i, n, ms) \<Rightarrow> T - W < ms \<and> ms \<le> T)"

definition log_token :: "(nat \<Rightarrow> redisLimiter) \<Rightarrow> nat \<times> nat \<times> int \<Rightarrow> string" where
  "log_token ps e = (case e of (i, n, ms) \<Rightarrow> member_token (instanceID (ps i)) ms (word_of_nat n))"

definition rate_inv ::
  "('s \<Rightarrow> string \<Rightarrow> rval option) \<Rightarrow> ('s \<Rightarrow> int) \<Rightarrow> string \<Rightarrow> rateLimit \<Rightarrow>
   (nat \<Rightarrow> redisLimiter) \<Rightarrow> 's \<Rightarrow> (nat \<times> nat \<times> int) list \<Rightarrow> bool" where
  "rate_inv view now p rt ps s hist \<longleftrightarrow>
     (let W = millis_at_least_1 (rl_window rt); z = zset_of (view s (rateKey p)) in
      (\<forall>i. lim_rate (ps i) = rt) \<and> inj (\<lambda>i. instanceID (ps i)) \<and>
      no_str (view s (rateKey p)) \<and> int (card (dom z)) \<le> rl_limit rt \<and>
      distinct (map (\<lambda>(i, n, ms). (i, n)) hist) \<and>
      (\<forall>(i, n, ms) \<in> set hist. n \<le> unat (memberSerial (ps i)) \<and> ms \<le> unix_milli (now s) \<and>
         (unix_milli (now s) - W < ms \<longrightarrow> z (log_token ps (i, n, ms)) = Some ms)) \<and>
      (\<forall>T. int (length (filter (in_window W T) hist)) \<le> rl_limit rt))"

context redis_server
begin

text \<open>What a run of the window script keeps, retries included: the bound, and every other member
  whose score lies above the cutoff.\<close>

lemma rate_script_keeps:
  fixes s0 :: 's and m k :: string and limit :: int
  assumes "0 < w" "cutoff < nowMs"
  defines "P \<equiv> (\<lambda>s. no_str (view s k) \<and> int (card (dom (zset_of (view s k)))) \<le> limit \<and>
     (\<forall>m' sc. m' \<noteq> m \<longrightarrow> cutoff < sc \<longrightarrow> zset_of (view s0 k) m' = Some sc \<longrightarrow> zset_of (view s k) m' = Some sc))"
  assumes "P s"
  shows "P (snd (rateLimitScript R k nowMs cutoff limit m w s))"
proof -
  let ?z = "outside 0 cutoff (zset_of (view s k))"
  have "finite (dom ?z)" using zset_finite by (simp add: finite_dom_outside)
  moreover have "\<forall>m' sc. m' \<noteq> m \<longrightarrow> cutoff < sc \<longrightarrow> zset_of (view s0 k) m' = Some sc \<longrightarrow> ?z m' = Some sc"
    using assms(4) by (auto simp: P_def outside_Some_iff)
  moreover have "card (dom ?z) \<le> card (dom (zset_of (view s k)))"
    using zset_finite by (simp add: card_dom_outside_le)
  ultimately show ?thesis
    using assms(1,4) rate_script(2)[of s k w nowMs cutoff limit m] card_dom_upd_le[of ?z m nowMs]
    by (auto simp: P_def)
qed

lemma allowRate_effect:
  assumes ar: "allowRate R now p l s = (r, l', s')" and "no_str (view s (rateKey p))"
    and "int (card (dom (zset_of (view s (rateKey p))))) \<le> rl_limit (lim_rate l)"
  defines "W \<equiv> millis_at_least_1 (rl_window (lim_rate l))"
  shows "l' = next_serial l"
    and "no_str (view s' (rateKey p))"
    and "int (card (dom (zset_of (view s' (rateKey p))))) \<le> rl_limit (lim_rate l)"
    and "m' \<noteq> fresh_token l (now s) \<Longrightarrow> unix_milli (now s) - W < sc \<Longrightarrow>
      zset_of (view s (rateKey p)) m' = Some sc \<Longrightarrow> zset_of (view s' (rateKey p)) m' = Some sc"
    and "r = None \<Longrightarrow> zset_of (view s' (rateKey p)) (fresh_token l (now s)) = Some (unix_milli (now s))"
proof -
  let ?k = "rateKey p" and ?t = "unix_milli (now s)" and ?m = "fresh_token l (now s)"
  let ?f = "rateLimitScript R ?k ?t (?t - W) (rl_limit (lim_rate l)) ?m W"
  define P where "P s1 \<longleftrightarrow> no_str (view s1 ?k) \<and> int (card (dom (zset_of (view s1 ?k)))) \<le> rl_limit (lim_rate l) \<and>
     (\<forall>m' sc. m' \<noteq> ?m \<longrightarrow> ?t - W < sc \<longrightarrow> zset_of (view s ?k) m' = Some sc \<longrightarrow> zset_of (view s1 ?k) m' = Some sc)" for s1
  have W: "0 < W" by (simp add: W_def)
  then have keeps: "P s1 \<Longrightarrow> P (snd (?f s1))" for s1
    unfolding P_def using rate_script_keeps[of W "?t - W" ?t s1 ?k _ ?m s] by simp
  have P0: "P s" using assms(2,3) by (simp add: P_def)
  have s': "s' = snd (rRun R ?f s)" using allowRate_world[of now p l s] ar by (simp add: W_def)
  have "P s'" unfolding s' by (rule run_preserves[where P = P]) (fact keeps, fact P0)
  then show "no_str (view s' ?k)" "int (card (dom (zset_of (view s' ?k)))) \<le> rl_limit (lim_rate l)"
    and "m' \<noteq> ?m \<Longrightarrow> ?t - W < sc \<Longrightarrow> zset_of (view s ?k) m' = Some sc \<Longrightarrow> zset_of (view s' ?k) m' = Some sc"
    by (auto simp: P_def)
  show "l' = next_serial l" using ar by (auto simp: allowRate_def Let_def split: prod.splits sum.splits)
  assume "r = None"
  then obtain v where v: "rRun R ?f s = (Inr v, s')" "v \<noteq> 0"
    using ar by (auto simp: allowRate_def Let_def fresh_token_def W_def split: prod.splits sum.splits if_splits)
  then obtain n where n: "?f (((snd \<circ> ?f) ^^ n) s) = (v, s')" using run_ok by blast
  have "P (((snd \<circ> ?f) ^^ n) s)" by (induction n) (auto simp: P0 keeps)
  then show "zset_of (view s' ?k) ?m = Some ?t"
    using n v(2) rate_script[of "((snd \<circ> ?f) ^^ n) s" ?k W ?t "?t - W" "rl_limit (lim_rate l)" ?m] W
    by (auto simp: P_def split: if_splits)
qed

lemma rate_inv_bound_window:
  assumes inv: "distinct (map (\<lambda>(i, n, ms). (i, n)) hist)" "inj (\<lambda>i. instanceID (ps i))"
    and le: "\<forall>(i, n, ms) \<in> set hist. n \<le> unat (memberSerial (ps i)) \<and> ms \<le> t \<and>
      (t - W < ms \<longrightarrow> z (log_token ps (i, n, ms)) = Some ms)"
    and z: "finite (dom z)" "int (card (dom z)) \<le> limit" and "t \<le> T"
  shows "int (length (filter (in_window W T) hist)) \<le> limit"
proof -
  let ?h = "filter (in_window W T) hist"
  have bound: "n < 2 ^ 64" if "(i, n, ms) \<in> set hist" for i n ms
    using le that unat_less_64[of "memberSerial (ps i)"] by fastforce
  have inj: "inj_on (log_token ps) (set hist)"
  proof (rule inj_onI, goal_cases)
    case (1 x y)
    obtain i n ms j k ms' where xy: "x = (i, n, ms)" "y = (j, k, ms')" by (metis prod_cases3)
    then have "instanceID (ps i) = instanceID (ps j)" "ms = ms'" "word_of_nat n = (word_of_nat k :: 64 word)"
      using 1(3) by (auto simp: log_token_def member_token_inj)
    moreover have "n < 2 ^ 64" "k < 2 ^ 64" using 1 xy bound by blast+
    ultimately show ?case
      using inv(2) xy by (metis injD unat_word_of_nat_64)
  qed
  have dist: "distinct hist" using inv(1) by (simp add: distinct_map)
  have "set (map (log_token ps) ?h) \<subseteq> dom z"
  proof
    fix tok assume "tok \<in> set (map (log_token ps) ?h)"
    then obtain i n ms where e: "(i, n, ms) \<in> set hist" "T - W < ms" "tok = log_token ps (i, n, ms)"
      by (auto simp: in_window_def)
    with le \<open>t \<le> T\<close> have "z tok = Some ms" by fastforce
    then show "tok \<in> dom z" by blast
  qed
  moreover have "distinct (map (log_token ps) ?h)"
    using dist inj by (simp add: distinct_map inj_on_subset[OF inj])
  ultimately have "length ?h \<le> card (dom z)"
    using z(1) by (metis card_mono distinct_card length_map)
  with z(2) show ?thesis by linarith
qed

lemma log_token_fresh:
  assumes "inj (\<lambda>i. instanceID (ps i))" "n \<le> unat (memberSerial (ps j))" "k = Suc (unat (memberSerial (ps i)))" "k < 2 ^ 64"
  shows "log_token ps (j, n, ms) \<noteq> log_token ps (i, k, t)"
proof
  assume "log_token ps (j, n, ms) = log_token ps (i, k, t)"
  then have "instanceID (ps j) = instanceID (ps i)" "(word_of_nat n :: 64 word) = word_of_nat k" by (auto simp: log_token_def member_token_inj)
  moreover have "n < 2 ^ 64" using assms(2) unat_less_64[of "memberSerial (ps j)"] by simp
  ultimately have "j = i" "n = k" using assms(1,4) by (metis injD, metis unat_word_of_nat_64)
  with assms(2,3) show False by simp
qed

lemma rate_inv_call:
  assumes inv: "rate_inv view now p rt ps s hist" and "memberSerial (ps i) \<noteq> - 1"
    and ar: "allowRate R now p (ps i) s = (r, l', s')" and mono: "now s \<le> now s'"
  defines "h \<equiv> (if r = None then (i, unat (memberSerial l'), unix_milli (now s)) # hist else hist)"
  shows "rate_inv view now p rt (ps(i := l')) s' h"
proof -
  let ?W = "millis_at_least_1 (rl_window rt)" and ?t = "unix_milli (now s)" and ?ps = "ps(i := l')"
  note I = inv[unfolded rate_inv_def Let_def]
  have rt: "lim_rate (ps i) = rt" using I by blast
  note E = allowRate_effect[OF ar, unfolded rt]
  have l': "l' = next_serial (ps i)" using E(1) I by blast
  have serial: "unat (memberSerial l') = Suc (unat (memberSerial (ps i)))"
    using assms(2) unatSuc[of "memberSerial (ps i)"] by (simp add: l' next_serial_def eq_neg_iff_add_eq_0 add.commute)
  have same: "instanceID (?ps j) = instanceID (ps j)" "lim_rate (?ps j) = lim_rate (ps j)" for j
    by (simp_all add: l' next_serial_def)
  have tok: "log_token ?ps e = log_token ps e" for e
    unfolding log_token_def same by simp
  have tt: "?t \<le> unix_milli (now s')" using mono by (simp add: unix_milli_def zdiv_mono1)
  have old: "unat (memberSerial (ps j)) \<le> unat (memberSerial (?ps j))" for j using serial by simp
  have fresh: "fresh_token (ps i) (now s) = log_token ps (i, unat (memberSerial l'), ?t)"
    by (simp add: fresh_token_def log_token_def l' next_serial_def)
  have neq: "log_token ps (j, n, ms) \<noteq> fresh_token (ps i) (now s)" if "(j, n, ms) \<in> set hist" for j n ms
    unfolding fresh using that I serial unat_less_64[of "memberSerial l'"] by (intro log_token_fresh) auto
  have hist': "\<forall>(j, n, ms) \<in> set hist. n \<le> unat (memberSerial (?ps j)) \<and> ms \<le> ?t \<and>
      (?t - ?W < ms \<longrightarrow> zset_of (view s' (rateKey p)) (log_token ?ps (j, n, ms)) = Some ms)"
    using I neq E(4) old unfolding tok by (fastforce intro: le_trans)
  have new: "\<forall>(j, n, ms) \<in> set h. n \<le> unat (memberSerial (?ps j)) \<and> ms \<le> ?t \<and>
      (?t - ?W < ms \<longrightarrow> zset_of (view s' (rateKey p)) (log_token ?ps (j, n, ms)) = Some ms)"
    using hist' E(5) I unfolding h_def tok by (auto simp: fresh)
  have dist: "distinct (map (\<lambda>(i, n, ms). (i, n)) h)"
  proof -
    have "(i, unat (memberSerial l')) \<notin> set (map (\<lambda>(i, n, ms). (i, n)) hist)"
      using I serial by fastforce
    then show ?thesis using I by (simp add: h_def)
  qed
  have inj: "inj (\<lambda>i. instanceID (?ps i))" unfolding same using I by blast
  have "int (length (filter (in_window ?W T) h)) \<le> rl_limit rt" for T
  proof (cases "?t \<le> T")
    case True
    then show ?thesis
      using rate_inv_bound_window[OF dist inj new] zset_finite E(3) I by blast
  next
    case False
    then have "filter (in_window ?W T) h = filter (in_window ?W T) hist"
      by (simp add: h_def in_window_def)
    then show ?thesis using I by simp
  qed
  moreover have "\<forall>(j, n, ms) \<in> set h. n \<le> unat (memberSerial (?ps j)) \<and> ms \<le> unix_milli (now s') \<and>
      (unix_milli (now s') - ?W < ms \<longrightarrow> zset_of (view s' (rateKey p)) (log_token ?ps (j, n, ms)) = Some ms)"
    using new tt by fastforce
  ultimately show ?thesis
    using I E(2,3) dist inj unfolding rate_inv_def Let_def same by blast
qed

lemma rate_trace_inv:
  assumes "0 \<le> rl_limit rt"
  shows "rate_trace R view now p rt ps s hist \<Longrightarrow> rate_inv view now p rt ps s hist"
proof (induction rule: rate_trace.induct)
  case (start s ps)
  then show ?case using assms by (simp add: rate_inv_def)
next
  case (call ps s hist i r l' s')
  then show ?case using rate_inv_call by blast
next
  case (elapse ps s hist s')
  have "unix_milli (now s) \<le> unix_milli (now s')" using elapse by (simp add: unix_milli_def zdiv_mono1)
  moreover have "card (dom (zset_of (view s' (rateKey p)))) \<le> card (dom (zset_of (view s (rateKey p))))"
    using elapse(4) zset_finite by (intro card_mono) (auto dest: map_le_implies_dom_le)
  ultimately show ?case
    using elapse unfolding rate_inv_def Let_def by fastforce
qed

end

text \<open>C18: the sliding window. Over any history of \<open>allowRate\<close> calls for one player by any number
  of processes with the configured rate, distinct instance ids and a common clock, with failed and
  retried calls and with the server dropping expired members, at most \<open>limit\<close> calls are admitted
  in any window of the configured length, wherever it is placed in time.\<close>

theorem rate_window_bound:
  assumes "redis_server R view pttl" and "0 \<le> rl_limit rt"
    and "rate_trace R view now p rt ps s hist"
  shows "int (length (filter (in_window (millis_at_least_1 (rl_window rt)) T) hist)) \<le> rl_limit rt"
  using redis_server.rate_trace_inv[OF assms] by (simp add: rate_inv_def Let_def)

definition sample_procs :: "nat \<Rightarrow> redisLimiter" where
  "sample_procs i = sample_limiter\<lparr>instanceID := nat_str i\<rparr>"

lemma sample_call: "fst (allowRate mem_redis (\<lambda>_. 5 * second) ''p'' (sample_procs 0) empty_mem) = None"
  by (simp add: allowRate_def sample_procs_def mem_redis_def rateLimitScript_def empty_mem_def mem_zset_def
      mem_put_def millis_at_least_1_def unix_milli_def next_serial_def)

theorem rate_window_bound_witness:
  "\<exists>ps s. rate_trace mem_redis mem_view (\<lambda>_. 5 * second) ''p'' \<lparr>rl_limit = 1, rl_window = 2 * second\<rparr> ps s [(0, 1, 5000)] \<and>
     length (filter (in_window 2000 6000) [(0, 1, 5000)]) \<le> 1"
proof -
  let ?now = "\<lambda>_::mem. 5 * second" and ?rt = "\<lparr>rl_limit = 1, rl_window = 2 * second\<rparr>"
  obtain l' s' where a: "allowRate mem_redis ?now ''p'' (sample_procs 0) empty_mem = (None, l', s')"
    using sample_call by (metis fst_conv prod_cases3)
  have "memberSerial l' = 1"
    using a by (auto simp: allowRate_def Let_def sample_procs_def next_serial_def split: prod.splits sum.splits)
  moreover have "rate_trace mem_redis mem_view ?now ''p'' ?rt sample_procs empty_mem []"
    by (rule rate_trace.start) (auto simp: sample_procs_def inj_def)
  ultimately have tr: "rate_trace mem_redis mem_view ?now ''p'' ?rt (sample_procs(0 := l')) s' [(0, 1, 5000)]"
    using rate_trace.call[where ps = sample_procs and i = 0 and r = None and hist = "[]", OF _ _ a]
    by (simp add: sample_procs_def unix_milli_def)
  then show ?thesis
    using rate_window_bound[OF mr.redis_server_axioms _ tr, of 6000] by (auto simp: millis_at_least_1_def)
qed

section \<open>Decisions when the server answers\<close>

text \<open>Slots whose lease is still running at time \<open>t\<close>, calls of the player still in the window, and
  the tokens the player has used on the day of \<open>t\<close>.\<close>

definition live_slots :: "('s \<Rightarrow> string \<Rightarrow> rval option) \<Rightarrow> int \<Rightarrow> 's \<Rightarrow> nat" where
  "live_slots view t s = card (dom (outside 0 (unix_milli t) (zset_of (view s inflightKey))))"

definition window_calls :: "('s \<Rightarrow> string \<Rightarrow> rval option) \<Rightarrow> string \<Rightarrow> int \<Rightarrow> int \<Rightarrow> 's \<Rightarrow> nat" where
  "window_calls view p W t s = card (dom (outside 0 (unix_milli t - W) (zset_of (view s (rateKey p)))))"

definition used_tokens :: "('s \<Rightarrow> string \<Rightarrow> rval option) \<Rightarrow> string \<Rightarrow> int \<Rightarrow> 's \<Rightarrow> int option" where
  "used_tokens view p t s = (case str_of (view s (budgetKey p t)) of None \<Rightarrow> Some 0 | Some v \<Rightarrow> ParseInt v)"

text \<open>What \<open>Allow\<close> should answer, the guards in order.\<close>

definition allow_spec ::
  "('s \<Rightarrow> string \<Rightarrow> rval option) \<Rightarrow> int \<Rightarrow> string \<Rightarrow> int \<Rightarrow> redisLimiter \<Rightarrow> 's \<Rightarrow> limiter_error option" where
  "allow_spec view t p est l s =
     (if p = [] then Some (LimiterErr ''limiter: player ID is required'')
      else if est < 0 then Some (LimiterErr ''limiter: estimated tokens cannot be negative'')
      else if \<not> circuit_ready t (circuit l) then Some ErrCircuitOpen
      else case used_tokens view p t s of
        None \<Rightarrow> Some (LimiterErr ''limiter: parse token budget'')
      | Some used \<Rightarrow>
          if tokenBudget l < wrap64 (used + est) then Some ErrBudgetExceeded
          else if maxInflight l \<le> int (live_slots view t s) then Some ErrInflightFull
          else if rl_limit (lim_rate l) \<le>
              int (window_calls view p (millis_at_least_1 (rl_window (lim_rate l))) t s)
            then Some ErrRateLimited
          else None)"

lemma outside_id: "(\<And>m sc. z m = Some sc \<Longrightarrow> \<not> (lo \<le> sc \<and> sc \<le> hi)) \<Longrightarrow> outside lo hi z = z"
  by (auto simp: outside_def fun_eq_iff split: option.splits)

locale redis_reliable = redis_once +
  assumes run_total: "\<exists>r s'. rRun R f s = (Inr r, s')"
    and get_total: "\<exists>x s'. rGet R k s = (Inr x, s')"
begin

lemma run_eq: "rRun R f s = (case f s of (r, s') \<Rightarrow> (Inr r, s'))"
proof -
  obtain r s' where r: "rRun R f s = (Inr r, s')" using run_total by blast
  then have "f s = (r, s')" by (rule run_once)
  with r show ?thesis by simp
qed

lemma checkBudget_result:
  assumes "no_zset (view s (budgetKey p (now s)))" "now s = t"
  shows "\<exists>s'. checkBudget R now p est l s =
      ((case used_tokens view p t s of
          None \<Rightarrow> Some (LimiterErr ''limiter: parse token budget'')
        | Some u \<Rightarrow> if tokenBudget l < wrap64 (u + est) then Some ErrBudgetExceeded else None), s') \<and>
      view s' = view s"
proof -
  obtain x s' where g: "rGet R (budgetKey p (now s)) s = (Inr x, s')" using get_total by blast
  then have "view s' = view s" "x = str_of (view s (budgetKey p t))"
    using get_call[OF g] assms get_view[OF g] by simp_all
  with g assms(2) show ?thesis
    by (auto simp: checkBudget_def currentBudget_def used_tokens_def wrap64_def split: option.splits)
qed

lemma acquireInflight_result:
  assumes "no_str (view s inflightKey)" "now s = t"
  defines "z \<equiv> outside 0 (unix_milli t) (zset_of (view s inflightKey))"
  shows "\<exists>l' s'. acquireInflight R now l s =
      (if maxInflight l \<le> int (live_slots view t s) then Some ErrInflightFull else None, l', s') \<and>
      view s' = (view s)(inflightKey :=
        zval (if maxInflight l \<le> int (live_slots view t s) then z
              else z(fresh_token l t \<mapsto> unix_milli t + millis_at_least_1 (inflightTTL l)))) \<and>
      circuit l' = circuit l \<and> lim_rate l' = lim_rate l"
proof -
  let ?lease = "millis_at_least_1 (inflightTTL l)"
  let ?r = "acquireInflightScript R inflightKey (unix_milli t) (maxInflight l) (unix_milli t + ?lease) (fresh_token l t) ?lease s"
  note a = acquire_script[OF assms(1) millis_pos(1)[of "inflightTTL l"], of "unix_milli t" "maxInflight l" "unix_milli t + ?lease" "fresh_token l t"]
  obtain v s' where r: "?r = (v, s')" by (cases ?r)
  have "acquireInflight R now l s =
     (if v < 0 then (Some ErrInflightFull, next_serial l, s') else (None, (next_serial l)\<lparr>inflightGauge := v\<rparr>, s'))"
    using r assms(2) by (simp add: acquireInflight_def run_eq Let_def fresh_token_def)
  with a r show ?thesis
    by (auto simp: live_slots_def z_def next_serial_def split: if_splits)
qed

lemma allowRate_result:
  fixes l :: redisLimiter
  assumes "no_str (view s (rateKey p))" "now s = t"
  defines "W \<equiv> millis_at_least_1 (rl_window (lim_rate l))"
  shows "\<exists>l' s'. allowRate R now p l s =
      (if rl_limit (lim_rate l) \<le> int (window_calls view p W t s) then Some ErrRateLimited else None, l', s') \<and>
      (\<forall>k. k \<noteq> rateKey p \<longrightarrow> view s' k = view s k) \<and> circuit l' = circuit l"
proof -
  let ?r = "rateLimitScript R (rateKey p) (unix_milli t) (unix_milli t - W) (rl_limit (lim_rate l)) (fresh_token l t) W s"
  have W: "0 < W" by (simp add: W_def)
  note a = rate_script[OF assms(1) W, of "unix_milli t" "unix_milli t - W" "rl_limit (lim_rate l)" "fresh_token l t"]
  obtain v s' where r: "?r = (v, s')" by (cases ?r)
  have "allowRate R now p l s = (if v = 0 then Some ErrRateLimited else None, next_serial l, s')"
    using r assms(2) by (simp add: allowRate_def run_eq Let_def fresh_token_def W_def)
  with a r show ?thesis
    by (auto simp: window_calls_def next_serial_def split: if_splits)
qed

lemma releaseInflight_result:
  assumes "no_str (view s inflightKey)" "now s = t"
  shows "\<exists>n s'. releaseInflight R now l s = (None, l\<lparr>inflightGauge := n\<rparr>, s') \<and>
      no_str (view s' inflightKey) \<and> n = int (live_slots view t s') \<and>
      live_slots view t s' = live_slots view t s - 1 \<and>
      (\<forall>k. k \<noteq> inflightKey \<longrightarrow> view s' k = view s k)"
proof -
  let ?z = "outside 0 (unix_milli t) (zset_of (view s inflightKey))"
  obtain n s' where r: "releaseInflightScript R inflightKey (unix_milli t) s = (n, s')"
    by (cases "releaseInflightScript R inflightKey (unix_milli t) s")
  then obtain z' where z': "view s' = (view s)(inflightKey := zval z')" "n = int (card (dom z'))"
      "if ?z = Map.empty then z' = Map.empty else \<exists>m sc. ?z m = Some sc \<and> z' = ?z(m := None)"
    using release_script_view[OF assms(1), of "unix_milli t", unfolded r fst_conv snd_conv] that by metis
  have fin: "finite (dom ?z)" using zset_finite by (simp add: finite_dom_outside)
  have "outside 0 (unix_milli t) z' = z'"
    using z'(3) by (intro outside_id) (auto simp: outside_Some_iff split: if_splits)
  moreover have "card (dom z') = card (dom ?z) - 1"
    using z'(3) fin by (auto split: if_splits simp: card_Diff_singleton domI)
  ultimately show ?thesis
    using r z' assms(2) by (auto simp: releaseInflight_def run_eq live_slots_def)
qed

lemma live_slots_add:
  assumes "fresh_token l t \<notin> dom (outside 0 (unix_milli t) (zset_of (view s inflightKey)))"
    and "view s' inflightKey = zval ((outside 0 (unix_milli t) (zset_of (view s inflightKey)))
      (fresh_token l t \<mapsto> unix_milli t + millis_at_least_1 d))"
  shows "live_slots view t s' = Suc (live_slots view t s)"
proof -
  let ?z = "outside 0 (unix_milli t) (zset_of (view s inflightKey))"
  have "outside 0 (unix_milli t) (?z(fresh_token l t \<mapsto> unix_milli t + millis_at_least_1 d)) =
      ?z(fresh_token l t \<mapsto> unix_milli t + millis_at_least_1 d)"
    using not_le[THEN iffD2, OF millis_pos(1)[of d]]
    by (auto simp: outside_def fun_eq_iff simp del: not_le split: option.splits)
  moreover have "finite (dom ?z)" using zset_finite by (simp add: finite_dom_outside)
  ultimately show ?thesis
    using assms card_dom_upd_fresh[of ?z "fresh_token l t"] by (simp add: live_slots_def)
qed

lemma live_slots_purge:
  "view s' inflightKey = zval (outside 0 (unix_milli t) (zset_of (view s inflightKey))) \<Longrightarrow>
   live_slots view t s' = live_slots view t s"
  by (simp add: live_slots_def outside_def fun_eq_iff cong: option.case_cong)
    (rule arg_cong[where f = card], auto split: option.splits if_splits)

lemma live_slots_same: "view s' inflightKey = view s inflightKey \<Longrightarrow> live_slots view t s' = live_slots view t s"
  by (simp add: live_slots_def)

lemma fresh_token_circuit: "fresh_token (l\<lparr>circuit := c\<rparr>) t = fresh_token l t"
  by (simp add: fresh_token_def next_serial_def)

lemma Allow_past_budget:
  assumes clock: "\<And>s. now s = t"
    and types: "no_str (view s inflightKey)" "no_str (view s (rateKey p))"
    and fresh: "fresh_token l t \<notin> dom (outside 0 (unix_milli t) (zset_of (view s inflightKey)))"
    and p: "p = TrimSpace p0" and ok: "\<not> (p = [] \<or> est < 0 \<or> \<not> circuit_ready t (circuit l))"
    and b: "checkBudget R now p est l s = (None, s1)" "view s1 = view s"
    and budget: "\<exists>u. used_tokens view p t s = Some u \<and> \<not> tokenBudget l < wrap64 (u + est)"
  shows "\<exists>l' s'. limiter_Allow R now p0 est l s = ((allow_spec view t p est l s = None, allow_spec view t p est l s), l', s') \<and>
     live_slots view t s' = live_slots view t s + (if allow_spec view t p est l s = None then 1 else 0) \<and>
     no_str (view s' inflightKey)"
proof -
  obtain c where c: "circuit_allow t (circuit l) = (True, c)"
    using ok allow_eq_ready[of t "circuit l"] by (cases "circuit_allow t (circuit l)") auto
  let ?l = "l\<lparr>circuit := c\<rparr>"
  obtain l2 s2 where a: "acquireInflight R now ?l s1 =
      (if maxInflight l \<le> int (live_slots view t s) then Some ErrInflightFull else None, l2, s2)"
    and v2: "view s2 = (view s)(inflightKey :=
      zval (if maxInflight l \<le> int (live_slots view t s) then outside 0 (unix_milli t) (zset_of (view s inflightKey))
            else (outside 0 (unix_milli t) (zset_of (view s inflightKey)))
              (fresh_token l t \<mapsto> unix_milli t + millis_at_least_1 (inflightTTL l))))"
    and l2: "circuit l2 = c" "lim_rate l2 = lim_rate l"
    using acquireInflight_result[of s1 now t ?l] types(1) b(2) clock
    by (auto simp: fresh_token_circuit live_slots_same[of s1 s])
  show ?thesis
  proof (cases "maxInflight l \<le> int (live_slots view t s)")
    case full: True
    then have "live_slots view t s2 = live_slots view t s" using v2 by (intro live_slots_purge) simp
    moreover have "no_str (view s2 inflightKey)" using v2 by simp
    ultimately show ?thesis using full budget ok b(1) a c p
      by (auto simp: limiter_Allow_def allow_spec_def Let_def clock)
  next
    case free: False
    then have slots2: "live_slots view t s2 = Suc (live_slots view t s)"
      using v2 fresh by (intro live_slots_add[where d = "inflightTTL l"]) simp_all
    define W where "W = millis_at_least_1 (rl_window (lim_rate l))"
    have same: "window_calls view p W t s2 = window_calls view p W t s"
      using v2 by (simp add: window_calls_def)
    obtain l3 s3 where r: "allowRate R now p l2 s2 =
        (if rl_limit (lim_rate l) \<le> int (window_calls view p W t s) then Some ErrRateLimited else None, l3, s3)"
      and v3: "\<forall>k. k \<noteq> rateKey p \<longrightarrow> view s3 k = view s2 k"
      using allowRate_result[of s2 p now t l2] types(2) v2 same l2 clock by (auto simp: W_def)
    have slots3: "live_slots view t s3 = Suc (live_slots view t s)"
      using v3 slots2 by (simp add: live_slots_same[of s3 s2])
    obtain n s4 where rel: "releaseInflight R now l3 s3 = (None, l3\<lparr>inflightGauge := n\<rparr>, s4)"
      and slots4: "live_slots view t s4 = live_slots view t s" "no_str (view s4 inflightKey)"
      using releaseInflight_result[of s3 now t l3] v2 v3 slots3 clock by auto
    moreover have "no_str (view s3 inflightKey)" using v2 v3 by simp
    ultimately show ?thesis
      using budget free ok b(1) a c r slots3 p
      by (auto simp: limiter_Allow_def allow_spec_def Let_def clock W_def[symmetric])
  qed
qed

lemma Allow_guarded:
  assumes clock: "\<And>s. now s = t"
    and types: "no_str (view s inflightKey)" "no_str (view s (rateKey p))" "no_zset (view s (budgetKey p t))"
    and fresh: "fresh_token l t \<notin> dom (outside 0 (unix_milli t) (zset_of (view s inflightKey)))"
    and p: "p = TrimSpace p0"
  shows "\<exists>l' s'. limiter_Allow R now p0 est l s = ((allow_spec view t p est l s = None, allow_spec view t p est l s), l', s') \<and>
     live_slots view t s' = live_slots view t s + (if allow_spec view t p est l s = None then 1 else 0) \<and>
     no_str (view s' inflightKey)"
proof (cases "p = [] \<or> est < 0 \<or> \<not> circuit_ready t (circuit l)")
  case True
  then show ?thesis using p types(1) by (auto simp: limiter_Allow_def allow_spec_def clock)
next
  case False
  obtain s1 where b: "checkBudget R now p est l s =
      ((case used_tokens view p t s of
          None \<Rightarrow> Some (LimiterErr ''limiter: parse token budget'')
        | Some u \<Rightarrow> if tokenBudget l < wrap64 (u + est) then Some ErrBudgetExceeded else None), s1)"
      and v1: "view s1 = view s"
    using checkBudget_result[of s p now t est l] types(3) by (auto simp: clock)
  show ?thesis
  proof (cases "\<exists>u. used_tokens view p t s = Some u \<and> \<not> tokenBudget l < wrap64 (u + est)")
    case False
    with \<open>\<not> (p = [] \<or> _)\<close> b p v1 types(1) show ?thesis
      by (auto simp: limiter_Allow_def allow_spec_def Let_def clock live_slots_def split: option.splits)
  next
    case True
    then have "checkBudget R now p est l s = (None, s1)" using b by auto
    then show ?thesis by (rule Allow_past_budget[OF clock types(1,2) fresh p False _ v1 True])
  qed
qed

end

interpretation mrr: redis_reliable mem_redis mem_view mem_pttl
  by unfold_locales (auto simp: mem_redis_def split: prod.splits)

text \<open>C19: the decision of \<open>Allow\<close>. While Redis answers and the clock stands still, \<open>Allow\<close> admits a
  request exactly when the breaker is ready, the day's tokens plus the estimate fit the budget,
  fewer than \<open>MaxInflightUpstream\<close> leases are live and fewer than the limit of calls are in the
  player's window; otherwise it returns the error of the first guard that fails, in that order. An
  admitted request holds exactly one slot more than before and a refused one none, also when the
  rate check fails after the slot was taken.\<close>

theorem Allow_decision:
  fixes est :: int
  assumes "redis_reliable R view pttl" and "\<forall>s. now s = t"
    and "no_str (view s inflightKey)" "no_str (view s (rateKey (TrimSpace p)))"
    and "no_zset (view s (budgetKey (TrimSpace p) t))"
    and "fresh_token l t \<notin> dom (outside 0 (unix_milli t) (zset_of (view s inflightKey)))"
  defines "e \<equiv> allow_spec view t (TrimSpace p) est l s"
  shows "\<exists>l' s'. limiter_Allow R now p est l s = ((e = None, e), l', s') \<and>
     live_slots view t s' = live_slots view t s + (if e = None then 1 else 0)"
  unfolding e_def
  using redis_reliable.Allow_guarded[OF assms(1), where now = now and est = est, OF assms(2)[rule_format] assms(3-6) refl] by blast

theorem Allow_decision_witness:
  "\<exists>l' s'. limiter_Allow mem_redis (\<lambda>_. 5 * second) ''p'' 3 sample_limiter empty_mem = ((True, None), l', s') \<and>
     live_slots mem_view (5 * second) s' = 1"
proof -
  have "circuit_ready (5 * second) default_breaker" by (simp add: circuit_ready_def default_breaker_def)
  moreover have "TrimSpace ''p'' = ''p''" by (simp add: TrimSpace_graphic is_graphic_def)
  ultimately have "allow_spec mem_view (5 * second) ''p'' 3 sample_limiter empty_mem = None"
    by (simp add: allow_spec_def used_tokens_def live_slots_def window_calls_def dom_outside)
      (simp add: sample_limiter_def wrap64_def)
  then show ?thesis
    using Allow_decision[OF mrr.redis_reliable_axioms, of "\<lambda>_. 5 * second" "5 * second" empty_mem "''p''" sample_limiter 3]
      \<open>TrimSpace ''p'' = ''p''\<close>
    by (auto simp: dom_outside live_slots_def)
qed

section \<open>Settling a request\<close>

lemma circuit_of_methods:
  "acquireInflight R now l s = (e, l', s') \<Longrightarrow> circuit l' = circuit l"
  "releaseInflight R now l s = (e, l', s') \<Longrightarrow> circuit l' = circuit l"
  "allowRate R now p l s = (e, l', s') \<Longrightarrow> circuit l' = circuit l"
  by (auto simp: acquireInflight_def releaseInflight_def allowRate_def next_serial_def Let_def
      split: prod.splits sum.splits if_splits)

lemma circuit_countLimited [simp]: "circuit (countLimited l) = circuit l" "circuit (onCircuit f l) = f (circuit l)"
  by (simp_all add: countLimited_def onCircuit_def)

lemma allow_then_cancel:
  "circuit_allow t c = (b, c') \<Longrightarrow> \<not> b \<Longrightarrow> c' = c"
  "circuit_allow t c = (b, c') \<Longrightarrow> cancelProbe c' = c \<or> state (cancelProbe c') = CircuitHalfOpen \<and> \<not> probeActive (cancelProbe c')"
  by (auto simp: circuit_op_defs split: CircuitState.splits if_splits)

text \<open>A refused request strands no probe, whatever Redis does. When \<open>Allow\<close> does not admit a
  request, the breaker is as it was, or it is half-open with no probe outstanding, so the next
  caller can be the probe.\<close>

theorem Allow_refused_no_probe:
  assumes "limiter_Allow R now p est l s = ((False, e), l', s')"
  shows "circuit l' = circuit l \<or> (state (circuit l') = CircuitHalfOpen \<and> \<not> probeActive (circuit l'))"
  using assms
  by (auto simp: limiter_Allow_def Let_def dest: allow_then_cancel dest!: circuit_of_methods
      split: if_splits prod.splits option.splits bool.splits)

theorem Allow_refused_no_probe_witness:
  "let l' = fst (snd (limiter_Allow mem_redis (\<lambda>_. 0) '' '' 3 sample_limiter empty_mem)) in
   circuit l' = circuit sample_limiter \<or> (state (circuit l') = CircuitHalfOpen \<and> \<not> probeActive (circuit l'))"
proof -
  have "limiter_Allow mem_redis (\<lambda>_. 0) '' '' 3 sample_limiter empty_mem =
      ((False, Some (LimiterErr ''limiter: player ID is required'')), sample_limiter, empty_mem)"
    by (simp add: limiter_Allow_def TrimSpace_space)
  from Allow_refused_no_probe[OF this] this show ?thesis by simp
qed

context redis_reliable
begin

lemma recordTokens_inflight: "view (snd (recordTokens R now p n s)) inflightKey = view s inflightKey"
proof -
  let ?f = "recordBudgetScript R (budgetKey p (now s)) n (millis_at_least_1 (durationUntilNextUTCDay (now s)))"
  have "snd (rRun R ?f s) = snd (?f s)" by (simp add: run_eq split: prod.splits)
  then show ?thesis by (simp add: recordTokens_world script_frames(2))
qed

lemma recordTokens_slots: "live_slots view t (snd (recordTokens R now p n s)) = live_slots view t s"
  by (rule live_slots_same[OF recordTokens_inflight])

lemma recordTokens_result:
  assumes "no_zset (view s (budgetKey p t))" "now s = t" "used_tokens view p t s = Some u"
    and "in_int64 n" "in_int64 (u + n)"
  shows "\<exists>s'. recordTokens R now p n s = (None, s') \<and> used_tokens view p t s' = Some (u + n) \<and>
     (n \<noteq> 0 \<longrightarrow> pttl s' (budgetKey p t) = Some (millis_at_least_1 (durationUntilNextUTCDay t))) \<and>
     view s' inflightKey = view s inflightKey \<and> no_zset (view s' (budgetKey p t))"
proof (cases "n = 0")
  case True
  then show ?thesis using assms by (auto simp: recordTokens_def)
next
  case False
  let ?k = "budgetKey p t" and ?ms = "millis_at_least_1 (durationUntilNextUTCDay t)"
  obtain v s1 where i: "cINCRBY R ?k n s = (v, s1)" by (cases "cINCRBY R ?k n s")
  have v1: "view s1 = (view s)(?k := Some (RStr (FormatInt (u + n))))"
  proof (cases "view s ?k")
    case None
    then show ?thesis using incrby_new[of s ?k n] i assms by (simp add: used_tokens_def)
  next
    case (Some x)
    then obtain str where "x = RStr str" using assms(1) by (cases x) (auto simp: no_zset_def)
    with Some show ?thesis using incrby_old[of s ?k str u n] i assms by (simp add: used_tokens_def)
  qed
  have v2: "view (cPEXPIRE R ?k ?ms s1) = view s1" by (simp add: pexpire_view)
  moreover have "pttl (cPEXPIRE R ?k ?ms s1) ?k = Some ?ms" using v1 by (intro pexpire_ttl) auto
  ultimately show ?thesis
    using False i v1 assms(2,5)
    by (auto simp: recordTokens_def run_eq recordBudgetScript_def used_tokens_def ParseInt_FormatInt)
qed

end

text \<open>The token budget adds up. While Redis answers and the clock stands still, \<open>Record\<close> with a
  non-negative count raises the player's counter of that UTC day by exactly that count, and leaves
  the counter with a time to live that ends at the next UTC midnight, at most a day away, so that a
  counter never outlives its day.\<close>

theorem Record_adds_tokens:
  assumes "redis_reliable R view pttl" and "\<forall>s. now s = t"
    and "TrimSpace p \<noteq> []" and "0 < n" "in_int64 n" "in_int64 (u + n)"
    and "no_str (view s inflightKey)" "no_zset (view s (budgetKey (TrimSpace p) t))"
    and "used_tokens view (TrimSpace p) t s = Some u"
  shows "\<exists>l' s'. limiter_Record R now p n l s = (None, l', s') \<and>
     used_tokens view (TrimSpace p) t s' = Some (u + n) \<and>
     (\<exists>ms. pttl s' (budgetKey (TrimSpace p) t) = Some ms \<and> 0 < ms \<and> ms \<le> 24 * 3600 * 1000)"
proof -
  note L = redis_reliable.releaseInflight_result[OF assms(1)] redis_reliable.recordTokens_result[OF assms(1)]
  obtain g s1 where r: "releaseInflight R now l s = (None, l\<lparr>inflightGauge := g\<rparr>, s1)"
      "\<forall>k. k \<noteq> inflightKey \<longrightarrow> view s1 k = view s k"
    using L(1)[of s now t l] assms(2,7) by auto
  then have v: "view s1 (budgetKey (TrimSpace p) t) = view s (budgetKey (TrimSpace p) t)" by simp
  then obtain s2 where "recordTokens R now (TrimSpace p) n s1 = (None, s2)"
      "used_tokens view (TrimSpace p) t s2 = Some (u + n)"
      "pttl s2 (budgetKey (TrimSpace p) t) = Some (millis_at_least_1 (durationUntilNextUTCDay t))"
    using L(2)[of s1 "TrimSpace p" t now u n] assms by (auto simp: used_tokens_def)
  moreover have "millis_at_least_1 (durationUntilNextUTCDay t) \<le> 24 * 3600 * 1000"
    using next_day_pos[of t] by (auto simp: millis_at_least_1_def day_ns_def)
  ultimately show ?thesis
    using r assms(3,4) by (auto simp: limiter_Record_def Let_def)
qed

theorem Record_adds_tokens_witness:
  "\<exists>l' s'. limiter_Record mem_redis (\<lambda>_. 0) ''p'' 7 sample_limiter empty_mem = (None, l', s') \<and>
     used_tokens mem_view ''p'' 0 s' = Some 7"
proof -
  have "TrimSpace ''p'' = ''p''" by (simp add: TrimSpace_graphic is_graphic_def)
  then show ?thesis
    using Record_adds_tokens[OF mrr.redis_reliable_axioms, of "\<lambda>_. 0" 0 "''p''" 7 0 empty_mem sample_limiter]
    by (auto simp: used_tokens_def in_int64_def min_int64_def max_int64_def)
qed

context redis_reliable
begin

lemma settle_result:
  assumes clock: "\<And>s. now s = t" and "no_str (view s inflightKey)" and "TrimSpace p \<noteq> []"
  defines "freed \<equiv> (\<lambda>l' s'. inflightGauge l' = int (live_slots view t s') \<and>
      live_slots view t s' = live_slots view t s - 1 \<and> no_str (view s' inflightKey))"
  shows "case limiter_Record R now p n l s of (e, l', s') \<Rightarrow> circuit l' = circuit_record t True (circuit l) \<and> freed l' s'"
    and "case limiter_RecordFailure R now l s of (e, l', s') \<Rightarrow> e = None \<and> circuit l' = circuit_record t False (circuit l) \<and> freed l' s'"
    and "case limiter_Release R now l s of (e, l', s') \<Rightarrow> e = None \<and> circuit l' = cancelProbe (circuit l) \<and> freed l' s'"
proof -
  note L = releaseInflight_result[OF assms(2), of now t, OF clock]
  obtain g s1 where r: "releaseInflight R now l s = (None, l\<lparr>inflightGauge := g\<rparr>, s1)" "freed (l\<lparr>inflightGauge := g\<rparr>) s1"
    using L[of l] by (auto simp: freed_def)
  obtain g' s1' where r': "releaseInflight R now (onCircuit cancelProbe l) s =
      (None, (onCircuit cancelProbe l)\<lparr>inflightGauge := g'\<rparr>, s1')" "freed ((onCircuit cancelProbe l)\<lparr>inflightGauge := g'\<rparr>) s1'"
    using L[of "onCircuit cancelProbe l"] by (auto simp: freed_def)
  have g: "freed (onCircuit f l') s' = freed l' s'" for f l' s' by (simp add: freed_def onCircuit_def)
  have t: "freed l' (snd (recordTokens R now q m s1)) = freed l' s1" for l' q m
    by (simp add: freed_def recordTokens_slots recordTokens_inflight)
  show "case limiter_RecordFailure R now l s of (e, l', s') \<Rightarrow> e = None \<and> circuit l' = circuit_record t False (circuit l) \<and> freed l' s'"
    using r g clock by (simp add: limiter_RecordFailure_def)
  show "case limiter_Release R now l s of (e, l', s') \<Rightarrow> e = None \<and> circuit l' = cancelProbe (circuit l) \<and> freed l' s'"
    using r' by (simp add: limiter_Release_def)
  obtain e2 s2 where k: "recordTokens R now (TrimSpace p) n s1 = (e2, s2)" by (cases "recordTokens R now (TrimSpace p) n s1")
  then show "case limiter_Record R now p n l s of (e, l', s') \<Rightarrow> circuit l' = circuit_record t True (circuit l) \<and> freed l' s'"
    using r g t[of "l\<lparr>inflightGauge := g\<rparr>" "TrimSpace p" n] clock assms(3) by (simp add: limiter_Record_def Let_def)
qed

end

text \<open>Settling a request. While Redis answers, each of \<open>Record\<close>, \<open>RecordFailure\<close> and \<open>Release\<close>
  frees exactly one live slot (none when there is none), publishes the number of live slots in the
  gauge, and feeds the breaker a success, a failure, or nothing but the end of its probe; \<open>Record\<close>
  does so also when the token count is invalid.\<close>

theorem settle_frees_one_slot:
  assumes "redis_reliable R view pttl" and "\<forall>s. now s = t"
    and "no_str (view s inflightKey)" and "TrimSpace p \<noteq> []"
  defines "freed \<equiv> (\<lambda>l' s'. inflightGauge l' = int (live_slots view t s') \<and>
      live_slots view t s' = live_slots view t s - 1)"
  shows "(case limiter_Record R now p n l s of (e, l', s') \<Rightarrow>
        circuit l' = circuit_record t True (circuit l) \<and> freed l' s') \<and>
     (case limiter_RecordFailure R now l s of (e, l', s') \<Rightarrow>
        e = None \<and> circuit l' = circuit_record t False (circuit l) \<and> freed l' s') \<and>
     (case limiter_Release R now l s of (e, l', s') \<Rightarrow>
        e = None \<and> circuit l' = cancelProbe (circuit l) \<and> freed l' s')"
proof -
  note r = redis_reliable.settle_result[OF assms(1), of now t s p, OF assms(2)[rule_format] assms(3,4)]
  show ?thesis
    using r(1)[of l n] r(2)[of l] r(3)[of l] unfolding freed_def by (auto split: prod.splits)
qed

theorem settle_frees_one_slot_witness:
  "case limiter_RecordFailure mem_redis (\<lambda>_. 0) sample_limiter empty_mem of (e, l', s') \<Rightarrow>
     e = None \<and> inflightGauge l' = int (live_slots mem_view 0 s')"
proof -
  have "TrimSpace ''p'' = ''p''" by (simp add: TrimSpace_graphic is_graphic_def)
  then show ?thesis
    using settle_frees_one_slot[OF mrr.redis_reliable_axioms, of "\<lambda>_. 0" 0 empty_mem "''p''" sample_limiter 7]
    by (auto split: prod.splits)
qed

end
