(* ===== verification/Listener_Props.thy ===== *)
theory Listener_Props
  imports Listener
begin

text \<open>
  What holds of a connection in every interleaving of its read loop and its request goroutines. The
  interface between access layer and handler is the locale \<open>access_handler\<close>; the invariant of a
  connection, and that a closing connection can always finish, are proved in it once. The pipeline
  is its instance (theory \<open>Access_Guarantees\<close>).
\<close>

section \<open>The registry under the operations of a connection\<close>

lemma nth_update_any: "xs[i := y] ! j = (if j = i \<and> i < length xs then y else xs ! j)"
  by (cases "i < length xs") (auto simp: nth_list_update list_update_beyond)

lemma ctxs_ops [simp]:
  "length (ctxs (done_cancel i r)) = length (ctxs r)" "length (ctxs (done_delete i r)) = length (ctxs r)"
  "length (ctxs (done_wg i r)) = length (ctxs r)"
  "rc_id (ctxs (cancel_ctx i r) ! j) = rc_id (ctxs r ! j)" "rc_phase (ctxs (cancel_ctx i r) ! j) = rc_phase (ctxs r ! j)"
  "rc_id (ctxs (done_cancel i r) ! j) = rc_id (ctxs r ! j)" "rc_id (ctxs (done_delete i r) ! j) = rc_id (ctxs r ! j)"
  "rc_id (ctxs (done_wg i r) ! j) = rc_id (ctxs r ! j)"
  by (simp_all add: ctx_defs nth_update_any)

lemma phase_ops:
  "i < length (ctxs r) \<Longrightarrow> rc_phase (ctxs (done_cancel i r) ! j) = (if j = i then CancelledSelf else rc_phase (ctxs r ! j))"
  "i < length (ctxs r) \<Longrightarrow> rc_phase (ctxs (done_delete i r) ! j) = (if j = i then Unregistered else rc_phase (ctxs r ! j))"
  "i < length (ctxs r) \<Longrightarrow> rc_phase (ctxs (done_wg i r) ! j) = (if j = i then Finished else rc_phase (ctxs r ! j))"
  by (simp_all add: ctx_defs nth_list_update)

text \<open>Cancelling moves no request and changes no phase.\<close>

definition same_requests :: "registry \<Rightarrow> registry \<Rightarrow> bool" where
  "same_requests r r' \<longleftrightarrow> length (ctxs r') = length (ctxs r) \<and>
     (\<forall>j. rc_id (ctxs r' ! j) = rc_id (ctxs r ! j) \<and> rc_phase (ctxs r' ! j) = rc_phase (ctxs r ! j))"

lemma same_requests_Stop: "same_requests r (snd (registry_Stop rid r))"
  by (auto simp: same_requests_def registry_Stop_def split: option.splits)

lemma same_requests_fold: "same_requests r (fold cancel_ctx is r)"
  by (induction "is" arbitrary: r) (auto simp: same_requests_def)

lemma same_requests_CancelAll: "same_requests r (registry_CancelAll r)"
  by (simp add: registry_CancelAll_def same_requests_fold)

lemma reg_inv_Stop: "reg_inv r \<Longrightarrow> reg_inv (snd (registry_Stop rid r))"
proof (cases "map_of (inflight r) rid")
  case (Some i)
  assume inv: "reg_inv r"
  then have "i < length (ctxs r)" using map_of_SomeD[OF Some] unfolding reg_inv_def by blast
  then show ?thesis using Some inv by (simp add: registry_Stop_def reg_inv_cancel)
qed (simp add: registry_Stop_def)

lemma reg_inv_fold: "reg_inv r \<Longrightarrow> \<forall>j \<in> set is. j < length (ctxs r) \<Longrightarrow> reg_inv (fold cancel_ctx is r)"
  by (induction "is" arbitrary: r) (auto simp: reg_inv_cancel)

lemma reg_inv_CancelAll: "reg_inv r \<Longrightarrow> reg_inv (registry_CancelAll r)"
  unfolding registry_CancelAll_def by (rule reg_inv_fold) (auto simp: reg_inv_def)

section \<open>The contract between access layer and handler\<close>

text \<open>What the access layer itself answers, with no business of a player in it.\<close>

definition gate_frame :: "ServerEnvelope \<Rightarrow> bool" where
  "gate_frame f \<longleftrightarrow> f = pong \<or> (\<exists>ok why. f = authResult ok why) \<or>
     (\<exists>rid m. f = errorMsg rid ''BAD_REQUEST'' m \<or> f = errorMsg rid ''UNAUTHENTICATED'' m)"

lemma gate_frames [simp]:
  "gate_frame pong" "gate_frame (authResult ok why)" "gate_frame (errorMsg rid ''BAD_REQUEST'' m)"
  "gate_frame (errorMsg rid ''UNAUTHENTICATED'' m)"
  by (auto simp: gate_frame_def)

text \<open>\<open>vouched\<close> are the players the authenticator has accepted a token for.\<close>

locale access_handler =
  fixes h :: "'w access" and vouched :: "string \<Rightarrow> bool"
  assumes auth_binds: "aAuthenticate h s req w = ((ok, why), s') \<Longrightarrow>
      (if ok then authed s' \<and> vouched (playerID s') else s' = s)"
    and chat_replies: "aHandleChat h s creq fs \<Longrightarrow> f \<in> set fs \<Longrightarrow> env_request f = Some (chat_GetRequestId creq)"
begin

definition session_ok :: "'w conn \<Rightarrow> bool" where
  "session_ok c \<longleftrightarrow> (if authed (cn_sess c) then vouched (playerID (cn_sess c))
     else cn_jobs c = [] \<and> list_all gate_frame (map snd (cn_out c)))"

text \<open>What a goroutine will send belongs to its request.\<close>

fun job_ok :: "string \<Rightarrow> job \<Rightarrow> bool" where
  "job_ok rid (Starting req) \<longleftrightarrow> chat_GetRequestId req = rid"
| "job_ok rid (Sending fs) \<longleftrightarrow> (\<forall>f \<in> set fs. env_request f = Some rid)"

definition jobs_ok :: "'w conn \<Rightarrow> bool" where
  "jobs_ok c \<longleftrightarrow> length (cn_jobs c) = length (ctxs (cn_reg c)) \<and>
     (\<forall>i < length (cn_jobs c). job_ok (rc_id (ctxs (cn_reg c) ! i)) (cn_jobs c ! i) \<and>
        (ctx_phase c i \<noteq> Running \<longrightarrow> cn_jobs c ! i = Sending []))"

text \<open>A request whose id a later one reuses is no longer registered, and has sent all its frames
  before the later one sends any.\<close>

definition reuse_ok :: "'w conn \<Rightarrow> bool" where
  "reuse_ok c \<longleftrightarrow> (\<forall>i j. i < j \<longrightarrow> j < length (ctxs (cn_reg c)) \<longrightarrow>
     rc_id (ctxs (cn_reg c) ! i) = rc_id (ctxs (cn_reg c) ! j) \<longrightarrow> \<not> registered (ctx_phase c i))"

definition out_ok :: "'w conn \<Rightarrow> bool" where
  "out_ok c \<longleftrightarrow> (\<forall>k i f. k < length (cn_out c) \<longrightarrow> cn_out c ! k = (Some i, f) \<longrightarrow>
       i < length (ctxs (cn_reg c)) \<and> env_request f = Some (rc_id (ctxs (cn_reg c) ! i)) \<and>
       (\<forall>l j g. k < l \<longrightarrow> l < length (cn_out c) \<longrightarrow> cn_out c ! l = (Some j, g) \<longrightarrow>
          rc_id (ctxs (cn_reg c) ! j) = rc_id (ctxs (cn_reg c) ! i) \<longrightarrow> i \<le> j))"

definition closed_ok :: "'w conn \<Rightarrow> bool" where
  "closed_ok c \<longleftrightarrow> (cn_phase c = Closed \<longrightarrow> registry_Wait_returns (cn_reg c))"

definition conn_inv :: "'w conn \<Rightarrow> bool" where
  "conn_inv c \<longleftrightarrow> reg_inv (cn_reg c) \<and> session_ok c \<and> jobs_ok c \<and> reuse_ok c \<and> out_ok c \<and> closed_ok c"

lemmas conn_defs = conn_inv_def session_ok_def jobs_ok_def reuse_ok_def out_ok_def closed_ok_def ctx_phase_def

lemma conn_inv_open: "conn_inv (conn_open connID addr now inp w)"
  by (simp add: conn_defs conn_open_def reg_inv_def NewRegistry_def session_New_def)

text \<open>Frames of the read loop, and cancellations, do not disturb the goroutines.\<close>

lemma out_ok_loop: "out_ok c \<Longrightarrow> out_ok (c\<lparr>cn_out := cn_out c @ map (Pair None) fs, cn_world := w\<rparr>)"
  by (auto simp: out_ok_def nth_append split: if_splits)

lemma conn_inv_loop: "conn_inv c \<Longrightarrow> authed (cn_sess c) \<or> list_all gate_frame fs \<Longrightarrow> conn_inv (c\<lparr>cn_out := cn_out c @ map (Pair None) fs, cn_world := w\<rparr>)"
  using out_ok_loop[where c = c and fs = fs and w = w]
  by (auto simp: conn_inv_def session_ok_def jobs_ok_def reuse_ok_def closed_ok_def ctx_phase_def comp_def)

lemma conn_inv_send: "conn_inv c \<Longrightarrow> gate_frame env \<Longrightarrow> conn_inv (conn_send env c)"
  using conn_inv_loop[where c = c and fs = "[env]" and w = "cn_world c"] by (simp add: conn_send_def)

lemma conn_inv_cancel:
  assumes "conn_inv c" "same_requests (cn_reg c) r" "reg_inv r" "ph \<noteq> Closed"
  shows "conn_inv (c\<lparr>cn_phase := ph, cn_reg := r\<rparr>)"
  using assms by (auto simp: conn_defs same_requests_def)

lemma conn_inv_handleChat:
  assumes "conn_inv c" "cn_phase c = Serving"
  shows "conn_inv (listener_handleChat req c)"
proof (cases "chat_GetRequestId req = [] \<or> \<not> authed (cn_sess c)")
  case True
  then show ?thesis using assms(1) conn_inv_send by (auto simp: listener_handleChat_def Let_def)
next
  case False
  let ?rid = "chat_GetRequestId req"
  show ?thesis
  proof (cases "map_of (inflight (cn_reg c)) ?rid")
    case (Some i)
    then show ?thesis using False assms(1) conn_inv_send
      by (simp add: listener_handleChat_def Let_def registry_Begin_def)
  next
    case None
    obtain r where r: "registry_Begin ?rid (cn_reg c) = (Some (length (ctxs (cn_reg c))), r)"
      and ctxs: "ctxs r = ctxs (cn_reg c) @ [\<lparr>rc_id = ?rid, rc_cancelled = False, rc_phase = Running\<rparr>]"
      using None by (auto simp: registry_Begin_def Let_def)
    have inv: "reg_inv (cn_reg c)" using assms(1) by (simp add: conn_inv_def)
    have "reg_inv r" using reg_inv_Begin[OF inv r] .
    moreover have "\<not> registered (rc_phase (ctxs (cn_reg c) ! i))" if "i < length (ctxs (cn_reg c))" "rc_id (ctxs (cn_reg c) ! i) = ?rid" for i
      using own_entry[OF inv that(1)] that(2) None by auto
    ultimately show ?thesis
      using assms False r ctxs
      by (simp add: listener_handleChat_def Let_def conn_defs) (auto simp: nth_append less_Suc_eq)
  qed
qed

lemma conn_inv_dispatch:
  assumes inv: "conn_inv c" and ph: "cn_phase c = Serving"
  shows "conn_inv (dispatch h env c)"
proof (cases "client_GetBody env")
  case (Some body)
  show ?thesis
  proof (cases body)
    case (ClientEnvelope_Auth req)
    obtain ok why s where a: "aAuthenticate h (cn_sess c) req (cn_world c) = ((ok, why), s)" by (metis surj_pair)
    have "conn_inv (c\<lparr>cn_sess := s\<rparr>)"
      using inv auth_binds[OF a] by (cases ok) (auto simp: conn_defs)
    then show ?thesis using Some ClientEnvelope_Auth a conn_inv_send by (simp add: dispatch_def)
  next
    case (ClientEnvelope_Chat req)
    then show ?thesis using Some conn_inv_handleChat[OF inv ph] by (simp add: dispatch_def)
  next
    case (ClientEnvelope_Stop req)
    have "conn_inv (c\<lparr>cn_phase := cn_phase c, cn_reg := snd (registry_Stop (stop_GetRequestId req) (cn_reg c))\<rparr>)"
      using inv ph by (intro conn_inv_cancel same_requests_Stop reg_inv_Stop) (simp_all add: conn_inv_def)
    then show ?thesis using Some ClientEnvelope_Stop by (simp add: dispatch_def)
  next
    case ClientEnvelope_Ping
    then show ?thesis using Some inv conn_inv_send by (simp add: dispatch_def)
  next
    case (ClientEnvelope_Reset req)
    obtain fs w where "aHandleReset h (cn_sess c) req (cn_world c) = (fs, w)" by (cases "aHandleReset h (cn_sess c) req (cn_world c)")
    then have "conn_inv (listener_handleReset h req c)"
      using conn_inv_send[OF inv] conn_inv_loop[OF inv, where fs = fs and w = w] by (cases "authed (cn_sess c)") (simp_all add: listener_handleReset_def Let_def)
    then show ?thesis using Some ClientEnvelope_Reset by (simp add: dispatch_def)
  qed
qed (use inv in \<open>simp add: dispatch_def\<close>)

lemma conn_inv_serve:
  assumes inv: "conn_inv c" and ph: "cn_phase c = Serving"
  shows "conn_inv (serve_once unmarshal h deadlineErr ctxErr c)"
proof -
  have inp: "conn_inv (c\<lparr>cn_in := r\<rparr>)" for r using inv by (simp add: conn_defs)
  have cl: "conn_inv (conn_close c')" if "conn_inv c'" for c'
    unfolding conn_close_def using that
    by (intro conn_inv_cancel same_requests_CancelAll reg_inv_CancelAll) (simp_all add: conn_inv_def)
  show ?thesis
    using inv ph inp cl conn_inv_dispatch[OF inp]
    by (auto simp: serve_once_def split: prod.splits sum.splits)
qed

lemma conn_inv_start:
  assumes "conn_inv c" "i < length (cn_jobs c)" "cn_jobs c ! i = Starting req" "aHandleChat h (cn_sess c) req fs"
  shows "conn_inv (c\<lparr>cn_jobs := (cn_jobs c)[i := Sending fs]\<rparr>)"
  using assms chat_replies[OF assms(4)]
  by (fastforce simp: conn_inv_def session_ok_def jobs_ok_def reuse_ok_def out_ok_def closed_ok_def ctx_phase_def nth_list_update)

lemma conn_inv_emit:
  assumes inv: "conn_inv c" and i: "i < length (cn_jobs c)" "cn_jobs c ! i = Sending (f # fs)"
  shows "conn_inv (c\<lparr>cn_out := cn_out c @ [(Some i, f)], cn_jobs := (cn_jobs c)[i := Sending fs]\<rparr>)"
proof -
  let ?id = "\<lambda>j. rc_id (ctxs (cn_reg c) ! j)"
  have job: "job_ok (?id i) (cn_jobs c ! i)" "ctx_phase c i = Running" "i < length (ctxs (cn_reg c))"
    using inv i unfolding conn_inv_def jobs_ok_def by auto
  then have f: "env_request f = Some (?id i)" using i(2) by simp
  have late: "j \<le> i" if "j < length (ctxs (cn_reg c))" "?id j = ?id i" for j
    using inv that job(2,3) unfolding conn_inv_def reuse_ok_def by (metis not_le registered_def)
  have old: "i' < length (ctxs (cn_reg c))" "env_request g = Some (?id i')"
    "\<forall>l j g'. k < l \<longrightarrow> l < length (cn_out c) \<longrightarrow> cn_out c ! l = (Some j, g') \<longrightarrow> ?id j = ?id i' \<longrightarrow> i' \<le> j"
    if "k < length (cn_out c)" "cn_out c ! k = (Some i', g)" for k i' g
    using inv that unfolding conn_inv_def out_ok_def by blast+
  have "out_ok (c\<lparr>cn_out := cn_out c @ [(Some i, f)], cn_jobs := (cn_jobs c)[i := Sending fs]\<rparr>)"
    unfolding out_ok_def
    using job(3) f late old by (auto simp: nth_append less_Suc_eq)
  then show ?thesis
    using inv job i by (auto simp: conn_inv_def session_ok_def jobs_ok_def reuse_ok_def closed_ok_def ctx_phase_def nth_list_update)
qed

lemma conn_inv_done:
  assumes inv: "conn_inv c" and i: "i < length (cn_jobs c)"
  shows "cn_jobs c ! i = Sending [] \<Longrightarrow> ctx_phase c i = Running \<Longrightarrow> conn_inv (c\<lparr>cn_reg := done_cancel i (cn_reg c)\<rparr>)"
    and "ctx_phase c i = CancelledSelf \<Longrightarrow> conn_inv (c\<lparr>cn_reg := done_delete i (cn_reg c)\<rparr>)"
    and "ctx_phase c i = Unregistered \<Longrightarrow> conn_inv (c\<lparr>cn_reg := done_wg i (cn_reg c)\<rparr>)"
proof -
  have len: "i < length (ctxs (cn_reg c))" using inv i by (simp add: conn_inv_def jobs_ok_def)
  have reg: "reg_inv (cn_reg c)" using inv by (simp add: conn_inv_def)
  have keep: "conn_inv (c\<lparr>cn_reg := r\<rparr>)"
    if r: "reg_inv r" "length (ctxs r) = length (ctxs (cn_reg c))" "\<And>j. rc_id (ctxs r ! j) = rc_id (ctxs (cn_reg c) ! j)"
      "\<And>j. j \<noteq> i \<Longrightarrow> rc_phase (ctxs r ! j) = rc_phase (ctxs (cn_reg c) ! j)"
      "registered (rc_phase (ctxs r ! i)) \<Longrightarrow> registered (ctx_phase c i)" "cn_jobs c ! i = Sending []" "cn_phase c \<noteq> Closed" for r
  proof -
    have "jobs_ok (c\<lparr>cn_reg := r\<rparr>)"
      using inv r by (auto simp: conn_inv_def jobs_ok_def ctx_phase_def) metis
    moreover have "reuse_ok (c\<lparr>cn_reg := r\<rparr>)"
      using inv r unfolding conn_inv_def reuse_ok_def ctx_phase_def by (metis (no_types, lifting) conn.select_convs(2) conn.update_convs(2) conn.cases)
    ultimately show ?thesis
      using inv r by (simp add: conn_inv_def session_ok_def out_ok_def closed_ok_def)
  qed
  have open_phase: "cn_phase c \<noteq> Closed" if "ctx_phase c i \<noteq> Finished"
  proof
    assume "cn_phase c = Closed"
    then have "wg (cn_reg c) = 0" using inv by (simp add: conn_inv_def closed_ok_def registry_Wait_returns_def)
    then have "\<forall>x \<in> set (ctxs (cn_reg c)). rc_phase x = Finished" using reg by (auto simp: reg_inv_def filter_empty_conv)
    then show False using that len by (simp add: ctx_phase_def)
  qed
  have sent: "cn_jobs c ! i = Sending []" if "ctx_phase c i \<noteq> Running"
    using inv that i by (simp add: conn_inv_def jobs_ok_def)
  show "conn_inv (c\<lparr>cn_reg := done_cancel i (cn_reg c)\<rparr>)" if "cn_jobs c ! i = Sending []" "ctx_phase c i = Running"
    using that len reg open_phase
    by (intro keep reg_inv_done_cancel) (simp_all add: phase_ops registered_def ctx_phase_def)
  show "conn_inv (c\<lparr>cn_reg := done_delete i (cn_reg c)\<rparr>)" if "ctx_phase c i = CancelledSelf"
    using that len reg open_phase sent
    by (intro keep reg_inv_done_delete) (simp_all add: phase_ops registered_def ctx_phase_def)
  show "conn_inv (c\<lparr>cn_reg := done_wg i (cn_reg c)\<rparr>)" if "ctx_phase c i = Unregistered"
    using that len reg open_phase sent
    by (intro keep reg_inv_done_wg) (simp_all add: phase_ops registered_def ctx_phase_def)
qed

lemma conn_step_inv: "conn_step unmarshal h c c' \<Longrightarrow> conn_inv c \<Longrightarrow> conn_inv c'"
proof (induction rule: conn_step.induct)
  case (close c)
  then show ?case by (simp add: conn_defs)
qed (auto intro: conn_inv_serve conn_inv_start conn_inv_emit conn_inv_done)

lemma conn_reachable_inv: "(conn_step unmarshal h)\<^sup>*\<^sup>* (conn_open connID addr now inp w) c \<Longrightarrow> conn_inv c"
  by (induction rule: rtranclp_induct) (auto intro: conn_inv_open conn_step_inv)

text \<open>Letting one goroutine run to its end, with everything else left alone.\<close>

definition only_request :: "nat \<Rightarrow> 'w conn \<Rightarrow> 'w conn \<Rightarrow> bool" where
  "only_request i c c' \<longleftrightarrow> cn_phase c' = cn_phase c \<and> length (cn_jobs c') = length (cn_jobs c) \<and>
     (\<forall>j. j \<noteq> i \<longrightarrow> ctx_phase c' j = ctx_phase c j)"

lemma only_request_trans: "only_request i a b \<Longrightarrow> only_request i b c \<Longrightarrow> only_request i a c"
  by (simp add: only_request_def)

lemma sends_all:
  "i < length (cn_jobs c) \<Longrightarrow> cn_jobs c ! i = Sending fs \<Longrightarrow>
   \<exists>c'. (conn_step u h)\<^sup>*\<^sup>* c c' \<and> only_request i c c' \<and> ctx_phase c' i = ctx_phase c i \<and> cn_jobs c' ! i = Sending []"
proof (induction fs arbitrary: c)
  case Nil
  then show ?case by (intro exI[of _ c]) (simp add: only_request_def)
next
  case (Cons f fs)
  let ?c = "c\<lparr>cn_out := cn_out c @ [(Some i, f)], cn_jobs := (cn_jobs c)[i := Sending fs]\<rparr>"
  have step: "conn_step u h c ?c" using Cons.prems by (rule conn_step.emit)
  have "only_request i c ?c" by (simp add: only_request_def ctx_phase_def)
  moreover obtain c' where "(conn_step u h)\<^sup>*\<^sup>* ?c c'" "only_request i ?c c'" "ctx_phase c' i = ctx_phase ?c i" "cn_jobs c' ! i = Sending []"
    using Cons.IH[of ?c] Cons.prems by auto
  ultimately show ?case
    using step only_request_trans by (intro exI[of _ c']) (auto simp: ctx_phase_def intro: converse_rtranclp_into_rtranclp)
qed

lemma request_returns:
  assumes i: "i < length (cn_jobs c)" and ret: "\<And>s req. \<exists>fs. aHandleChat h s req fs"
  shows "\<exists>c'. (conn_step u h)\<^sup>*\<^sup>* c c' \<and> only_request i c c' \<and> ctx_phase c' i = ctx_phase c i \<and> cn_jobs c' ! i = Sending []"
proof (cases "cn_jobs c ! i")
  case (Sending fs)
  then show ?thesis using sends_all i by blast
next
  case (Starting req)
  obtain fs where fs: "aHandleChat h (cn_sess c) req fs" using ret by blast
  let ?c = "c\<lparr>cn_jobs := (cn_jobs c)[i := Sending fs]\<rparr>"
  have step: "conn_step u h c ?c" by (rule conn_step.start[OF i Starting fs])
  have "only_request i c ?c" by (simp add: only_request_def ctx_phase_def)
  moreover obtain c' where "(conn_step u h)\<^sup>*\<^sup>* ?c c'" "only_request i ?c c'" "ctx_phase c' i = ctx_phase ?c i" "cn_jobs c' ! i = Sending []"
    using sends_all[of i ?c fs u] i by auto
  ultimately show ?thesis
    using step only_request_trans by (intro exI[of _ c']) (auto simp: ctx_phase_def intro: converse_rtranclp_into_rtranclp)
qed

lemma done_runs:
  assumes "conn_inv c" "i < length (cn_jobs c)" "cn_jobs c ! i = Sending []"
  shows "\<exists>c'. (conn_step u h)\<^sup>*\<^sup>* c c' \<and> only_request i c c' \<and> ctx_phase c' i = Finished"
proof -
  have finish: "\<exists>c'. (conn_step u h)\<^sup>*\<^sup>* c c' \<and> only_request i c c' \<and> ctx_phase c' i = Finished"
    if "i < length (cn_jobs c)" "i < length (ctxs (cn_reg c))" "ctx_phase c i = Unregistered" for c
    using conn_step.finish[OF that(1,3), of u h] that
    by (intro exI[of _ "c\<lparr>cn_reg := done_wg i (cn_reg c)\<rparr>"]) (auto simp: only_request_def ctx_phase_def phase_ops)
  have unregister: "\<exists>c'. (conn_step u h)\<^sup>*\<^sup>* c c' \<and> only_request i c c' \<and> ctx_phase c' i = Finished"
    if cs: "i < length (cn_jobs c)" "i < length (ctxs (cn_reg c))" "ctx_phase c i = CancelledSelf" for c
  proof -
    let ?c = "c\<lparr>cn_reg := done_delete i (cn_reg c)\<rparr>"
    have "only_request i c ?c" using cs by (simp add: only_request_def ctx_phase_def phase_ops)
    moreover obtain c' where "(conn_step u h)\<^sup>*\<^sup>* ?c c'" "only_request i ?c c'" "ctx_phase c' i = Finished"
      using finish[of ?c] cs by (auto simp: ctx_phase_def phase_ops)
    ultimately show ?thesis
      using conn_step.unregister[OF cs(1,3), of u h] only_request_trans by (meson converse_rtranclp_into_rtranclp)
  qed
  have len: "i < length (ctxs (cn_reg c))" using assms by (simp add: conn_inv_def jobs_ok_def)
  show ?thesis
  proof (cases "ctx_phase c i")
    case Running
    let ?c = "c\<lparr>cn_reg := done_cancel i (cn_reg c)\<rparr>"
    have "only_request i c ?c" using len by (simp add: only_request_def ctx_phase_def phase_ops)
    moreover obtain c' where "(conn_step u h)\<^sup>*\<^sup>* ?c c'" "only_request i ?c c'" "ctx_phase c' i = Finished"
      using unregister[of ?c] assms len by (auto simp: ctx_phase_def phase_ops)
    ultimately show ?thesis
      using conn_step.leave[OF assms(2,3) Running, of u h] only_request_trans by (meson converse_rtranclp_into_rtranclp)
  next
    case Finished
    then show ?thesis by (intro exI[of _ c]) (simp add: only_request_def)
  qed (use finish unregister assms(2) len in blast)+
qed

lemma conn_steps_inv: "(conn_step u h)\<^sup>*\<^sup>* c c' \<Longrightarrow> conn_inv c \<Longrightarrow> conn_inv c'"
  by (induction rule: rtranclp_induct) (auto intro: conn_step_inv)

lemma drains:
  assumes inv: "conn_inv c" and ret: "\<And>s req. \<exists>fs. aHandleChat h s req fs" and ph: "cn_phase c = Draining"
  shows "\<exists>c'. (conn_step u h)\<^sup>*\<^sup>* c c' \<and> cn_phase c' = Closed"
proof -
  have "\<exists>c'. (conn_step u h)\<^sup>*\<^sup>* c c' \<and> cn_phase c' = Draining \<and> length (cn_jobs c') = length (cn_jobs c) \<and>
      (\<forall>j < k. ctx_phase c' j = Finished)" if "k \<le> length (cn_jobs c)" for k
    using that
  proof (induction k)
    case 0
    then show ?case using ph by (intro exI[of _ c]) simp
  next
    case (Suc k)
    then obtain c1 where c1: "(conn_step u h)\<^sup>*\<^sup>* c c1" "cn_phase c1 = Draining" "length (cn_jobs c1) = length (cn_jobs c)"
      "\<forall>j < k. ctx_phase c1 j = Finished" by auto
    have k: "k < length (cn_jobs c1)" using Suc.prems c1(3) by simp
    obtain c2 where c2: "(conn_step u h)\<^sup>*\<^sup>* c1 c2" "only_request k c1 c2" "cn_jobs c2 ! k = Sending []"
      using request_returns[OF k ret, of u] by blast
    have "k < length (cn_jobs c2)" "conn_inv c2"
      using k c2(2) conn_steps_inv[OF c2(1) conn_steps_inv[OF c1(1) inv]] by (simp_all add: only_request_def)
    then obtain c3 where c3: "(conn_step u h)\<^sup>*\<^sup>* c2 c3" "only_request k c2 c3" "ctx_phase c3 k = Finished"
      using done_runs[OF _ _ c2(3), of u] by blast
    have "only_request k c1 c3" using only_request_trans[OF c2(2) c3(2)] .
    then have "cn_phase c3 = Draining \<and> length (cn_jobs c3) = length (cn_jobs c) \<and> (\<forall>j < Suc k. ctx_phase c3 j = Finished)"
      using c1 c3(3) by (auto simp: only_request_def less_Suc_eq)
    then show ?case using c1(1) c2(1) c3(1) by (meson rtranclp_trans)
  qed
  then obtain c1 where c1: "(conn_step u h)\<^sup>*\<^sup>* c c1" "cn_phase c1 = Draining" "\<forall>j < length (cn_jobs c1). ctx_phase c1 j = Finished"
    by (metis order_refl)
  have "conn_inv c1" using conn_steps_inv[OF c1(1) inv] .
  then have "registry_Wait_returns (cn_reg c1)"
    using c1(3) by (auto simp: conn_inv_def jobs_ok_def reg_inv_def registry_Wait_returns_def ctx_phase_def filter_empty_conv in_set_conv_nth)
  then have "conn_step u h c1 (c1\<lparr>cn_phase := Closed\<rparr>)" by (rule conn_step.close[OF c1(2)])
  then show ?thesis using c1(1) by (intro exI[of _ "c1\<lparr>cn_phase := Closed\<rparr>"]) simp
qed

text \<open>Nothing is left of a closed connection.\<close>

lemma closed_conn:
  assumes "conn_inv c" "cn_phase c = Closed"
  shows "set (cn_jobs c) \<subseteq> {Sending []}" "inflight (cn_reg c) = []" "\<forall>x \<in> set (ctxs (cn_reg c)). rc_phase x = Finished \<and> rc_cancelled x"
    "\<not> conn_step unmarshal h c c'"
proof -
  have reg: "reg_inv (cn_reg c)" "registry_Wait_returns (cn_reg c)" and jobs: "jobs_ok c"
    using assms by (auto simp: conn_inv_def closed_ok_def)
  note fin = wait_drained[OF reg]
  have j: "cn_jobs c ! i = Sending [] \<and> ctx_phase c i = Finished" if "i < length (cn_jobs c)" for i
    using jobs fin that by (simp add: jobs_ok_def ctx_phase_def)
  then show "set (cn_jobs c) \<subseteq> {Sending []}" "\<not> conn_step unmarshal h c c'"
    using assms(2) by (auto simp: in_set_conv_nth elim!: conn_step.cases)
  show "inflight (cn_reg c) = []" "\<forall>x \<in> set (ctxs (cn_reg c)). rc_phase x = Finished \<and> rc_cancelled x" using fin by blast+
qed

end

end
