(* ===== verification/Chat_Guarantees.thy ===== *)
theory Chat_Guarantees
  imports Pipeline_Props
begin

text \<open>
  The guarantees of \<open>HandleChat\<close> with the router as its Dify client, for every transport, limiter, store
  and context assembler: each is read off \<open>HandleChat_trace\<close>. The last section runs the handler
  on a concrete request; the witnesses rest on that run.
\<close>

section \<open>Requests that return\<close>

text \<open>\<open>left\<close> bounds the lines of the response body still to be read. Sending a frame does not add
  any.\<close>

definition finite_body :: "(bool \<times> 'w, 'b) http \<Rightarrow> 'w request_env \<Rightarrow> ('w \<Rightarrow> nat) \<Rightarrow> bool" where
  "finite_body H E left \<longleftrightarrow>
     (\<forall>b x l y. scanLine H b x = (ScanLine l, y) \<longrightarrow> left (snd y) < left (snd x)) \<and>
     (\<forall>e w. left (snd (re_send E e w)) \<le> left w)"

lemma on_delta_left:
  assumes "finite_body H E left"
  shows "left (cs_world (on_delta E reqID d s)) \<le> left (cs_world s)"
proof -
  obtain emit b fb f where "filter_Push d (cs_filter s) = ((emit, b, fb), f)" by (metis prod_cases3 surj_pair)
  then show ?thesis
    using assms by (simp add: on_delta_def Let_def finite_body_def send_blocked_def do_send_def metric_def note_call_def)
qed

lemma router_stream_returns:
  assumes "finite_body H E left"
  shows "dStream (router_dify H Hb base maxB mu pe r) req on_event (on_delta E reqID) s \<noteq> None"
  unfolding router_dify_def dify_if.simps
proof (rule router_returns[where m = "\<lambda>s. left (cs_world s)"])
  show "left (cs_world s') < left (cs_world s)" if "scanLine (stream_http H) b s = (ScanLine l, s')" for b s l s'
  proof -
    obtain x c w where x: "scanLine H b (cs_streamCancelled s, cs_world s) = (x, c, w)" by (metis surj_pair)
    then have "scanLine H b (cs_streamCancelled s, cs_world s) = (ScanLine l, c, w)" "s' = s\<lparr>cs_world := w\<rparr>"
      using that by (simp_all add: stream_http_def on_world_def)
    then show ?thesis using assms unfolding finite_body_def by fastforce
  qed
qed (simp_all add: on_event_def on_delta_left[OF assms])

lemma HandleChat_total:
  assumes "finite_body H E left" and d: "h_dify h = Some (router_dify H Hb base maxB mu pe r)"
    and lock: "\<forall>S p n t w. h_store h = Some S \<longrightarrow> sLock S p n t w \<noteq> None"
  shows "HandleChat h E sess req s \<noteq> None"
proof -
  have st: "chat_stream h E L S (router_dify H Hb base maxB mu pe r) reqID p n query inputs conv s1 \<noteq> None"
    for L S reqID p n query inputs conv s1
    using router_stream_returns[OF assms(1), of Hb base maxB mu pe r _ reqID]
    by (auto simp: chat_stream_def Let_def split: option.splits)
  have res: "(chat_resolved h E L S asm (router_dify H Hb base maxB mu pe r) reqID p n query conv s1 = None) = False"
    for L S asm reqID p n query conv s1
    using st by (auto simp: chat_resolved_def Let_def split: sum.splits prod.splits)
  have "(chat_admitted h E L S asm (router_dify H Hb base maxB mu pe r) reqID p n query cc s1 = None) = False"
    if "h_store h = Some S" for L S asm reqID p n query cc s1
  proof -
    have some: "(sLock S p n t w = None) = False" for t w using lock that by blast
    have "(resolveConversation h E S p n cc s1 = None) = False"
      by (auto simp: resolveConversation_def some split: prod.splits sum.splits option.splits)
    then show ?thesis by (auto simp: chat_admitted_def res split: option.splits)
  qed
  note adm = this
  show ?thesis
    by (cases "h_store h") (auto simp: HandleChat_def Let_def d adm simp del: not_None_eq split: option.splits prod.splits)
qed

section \<open>A concrete run\<close>

text \<open>A world of the lines still to come, a transport that hands them out, a limiter that admits and an
  empty store.\<close>

definition demo_event :: "string \<Rightarrow> sseEvent" where
  "demo_event x = \<lparr>ev_Event = (if x = ''end'' then ''message_end'' else ''message''), ev_TaskID = ''t'', ev_MessageID = ''m'',
     ev_ConversationID = ''c'', ev_Answer = ''Hi.'', ev_Code = [], ev_Message = [], ev_TotalTokens = 5\<rparr>"

definition demo_http :: "(bool \<times> string list, unit) http" where
  "demo_http = \<lparr>newRequestErr = \<lambda>_ _. None, httpDo = \<lambda>_ x. (Inr \<lparr>StatusCode = 200, RetryAfterHeader = [], Body = ()\<rparr>, fst x, [''data:m'', ''data:end'']),
     readLimited = \<lambda>_ _ x. ([], x),
     scanLine = \<lambda>_ (c, ls). (case ls of [] \<Rightarrow> (ScanEOF, c, []) | l # r \<Rightarrow> (ScanLine l, c, r)),
     sleepTimer = \<lambda>_ x. (None, x), marshalPayload = \<lambda>_. Inr [], decodeResponse = \<lambda>_ x. (Inl ''none'', x),
     decodeEvent = \<lambda>x. Inr (demo_event x)\<rparr>"

definition demo_stop :: "(string list, unit) http" where
  "demo_stop = \<lparr>newRequestErr = \<lambda>_ _. None, httpDo = \<lambda>_ x. (Inr \<lparr>StatusCode = 200, RetryAfterHeader = [], Body = ()\<rparr>, x),
     readLimited = \<lambda>_ _ x. ([], x), scanLine = \<lambda>_ x. (ScanEOF, x),
     sleepTimer = \<lambda>_ x. (None, x), marshalPayload = \<lambda>_. Inr [], decodeResponse = \<lambda>_ x. (Inl ''none'', x),
     decodeEvent = \<lambda>x. Inr (demo_event x)\<rparr>"

definition demo_router :: difyRouter where
  "demo_router = \<lparr>rt_clients = Map.empty, defaultClient = Some \<lparr>baseURL = ''http://d'', apiKey = ''k''\<rparr>\<rparr>"

definition demo_dify :: "string list dify_if" where
  "demo_dify = router_dify demo_http demo_stop 1 1 (\<lambda>_. Inr []) (\<lambda>x. x) demo_router"

definition demo_limiter :: "string list limiter_if" where
  "demo_limiter = \<lparr>lAllow = \<lambda>_ _ w. ((True, None), w), lRecord = \<lambda>_ _ w. (None, w), lRecordFailure = \<lambda>w. (None, w),
     lRelease = \<lambda>w. (None, w)\<rparr>"

definition demo_store :: "string list store_if" where
  "demo_store = \<lparr>sGet = \<lambda>_ _ w. (Inr [], w), sSet = \<lambda>_ _ _ _ _ w. (None, w), sDelete = \<lambda>_ _ w. (None, w),
     sLock = \<lambda>p n _ w. Some (Inr (releaser p n), w), sUnlock = \<lambda>_ w. w\<rparr>"

definition demo_verify :: "string \<Rightarrow> string list \<Rightarrow> auth_error + string" where
  "demo_verify token w = (if token = ''tok'' then Inr ''p1'' else Inl (ErrInvalidToken []))"

definition demo_handler :: "moderator \<Rightarrow> string list handler" where
  "demo_handler m = pipeline_New (Some demo_verify) (Some demo_limiter) (Some demo_store) (Some (\<lambda>_ _ w. ((Map.empty, None), w)))
     (Some m) (Some demo_dify) 0 0"

definition demo_env :: "string list request_env" where
  "demo_env = \<lparr>re_send = \<lambda>_ w. (True, w), re_ctxErr = \<lambda>_. None, re_untilDeadline = \<lambda>_. None, re_now = \<lambda>_. 0\<rparr>"

definition demo_start :: "string list chat_state" where
  "demo_start = \<lparr>cs_world = [''data:m'', ''data:end''], cs_trace = [], cs_filter = NewOutputFilter AllowAll,
     cs_outputBlocked = False, cs_taskID = [], cs_streamCancelled = False, cs_start = 0, cs_firstDelta = False\<rparr>"

definition demo_session :: session where
  "demo_session = session_Bind ''p1'' (session_New ''1'' ''a'' 0)"

definition demo_req :: "ChatRequest ptr" where
  "demo_req = Some \<lparr>ChatRequestId = ''r1'', ChatConversationId = [], ChatNpcId = ''bob'', ChatQuery = ''hello'',
     ChatContext = Map.empty\<rparr>"

definition demo_run :: "moderator \<Rightarrow> string list chat_state option" where
  "demo_run m = HandleChat (demo_handler m) demo_env demo_session demo_req demo_start"

lemma demo_finite: "finite_body demo_http demo_env length"
  by (auto simp: finite_body_def demo_http_def demo_env_def split: list.splits)

lemma demo_returns: "\<exists>s'. demo_run m = Some s'"
  using HandleChat_total[OF demo_finite, of "demo_handler m" demo_stop 1 1 "\<lambda>_. Inr []" "\<lambda>x. x" demo_router]
  by (auto simp: demo_run_def demo_handler_def pipeline_New_def demo_dify_def demo_store_def)

lemma demo_trim: "TrimSpace ''bob'' = ''bob''" "TrimSpace ''hello'' = ''hello''" "TrimSpace ''p1:bob'' = ''p1:bob''"
  "TrimSpace ''data:m'' = ''data:m''" "TrimSpace ''data:end'' = ''data:end''" "TrimSpace ''m'' = ''m''" "TrimSpace ''end'' = ''end''"
  "TrimSpace ''http://d'' = ''http://d''" "TrimSpace ''k'' = ''k''"
  by (simp_all add: TrimSpace_graphic is_graphic_def)

lemma demo_sse: "sse_data ''data:m'' = Some ''m''" "sse_data ''data:end'' = Some ''end''"
  by (simp_all add: sse_data_def demo_trim)

lemma demo_parse:
  assumes "cs_world s = [''data:m'', ''data:end'']" and "\<And>d s. cs_world (od d s) = cs_world s"
  shows "parseSSE (scanLine (stream_http demo_http) ()) (decodeEvent (stream_http demo_http)) on_event od s =
     Some ((\<lparr>res_Answer = [], res_ConversationID = ''c'', res_MessageID = ''m'', res_TotalTokens = 5\<rparr>, None),
       (od ''Hi.'' (on_event ''t'' ''c'' (s\<lparr>cs_world := [''data:end'']\<rparr>)))\<lparr>cs_world := []\<rparr>)"
  using assms unfolding parseSSE_def
  by (subst sse_loop.simps, simp add: stream_http_def demo_http_def on_world_def demo_sse sse_event_def demo_event_def zeroResult_def Let_def,
      subst sse_loop.simps, simp add: stream_http_def demo_http_def on_world_def demo_sse sse_event_def demo_event_def on_event_def)

lemma demo_stream:
  assumes "cs_world s = [''data:m'', ''data:end'']" and "\<And>d s. cs_world (od d s) = cs_world s"
  shows "dStream demo_dify (upstream_req ''p1'' ''bob'' ''hello'' i c) on_event od s =
     Some ((\<lparr>res_Answer = [], res_ConversationID = ''c'', res_MessageID = ''m'', res_TotalTokens = 5\<rparr>, None),
       (od ''Hi.'' (on_event ''t'' ''c'' (s\<lparr>cs_world := [''data:end'']\<rparr>)))\<lparr>cs_world := []\<rparr>)"
proof -
  let ?req = "upstream_req ''p1'' ''bob'' ''hello'' i c" and ?c = "\<lparr>baseURL = ''http://d'', apiKey = ''k''\<rparr>"
  have r: "clientForUser demo_router (rq_User ?req) = Inr ?c"
    by (simp add: clientForUser_def demo_router_def Let_def)
  have p: "prepare_chat (stream_http demo_http) ?c ''stream'' ''streaming'' ?req = Inr []"
    by (simp add: prepare_chat_def validateChatReq_def upstream_req_def userID_def demo_trim stream_http_def demo_http_def)
  have d: "doRequestWithRetry (stream_http demo_http) 1 1 ?c ''stream'' ''POST'' u [] a s =
      (Inr \<lparr>StatusCode = 200, RetryAfterHeader = [], Body = ()\<rparr>, s)" for u a
    using assms(1) by (cases s) (simp add: doRequestWithRetry_def retry_loop.simps doRequest_def stream_http_def demo_http_def on_world_def)
  show ?thesis
    by (simp add: demo_dify_def router_dify_def router_ChatStream_def r ChatStream_def p d demo_parse[OF assms])
qed

lemma demo_query: "\<not> queryTooLong ''hello''"
  by code_simp

lemma demo_cut: "cutAtLastTerminator ''Hi.'' = 3"
  by (simp add: cutAtLastTerminator_def last_index_any.simps decode_last_rune_def decode_rune_def lead_size_def sentenceTerminators_def)

lemma demo_push: "filter_Push ''Hi.'' (NewOutputFilter AllowAll) =
    ((''Hi.'', False, []), NewOutputFilter AllowAll\<lparr>overlap := lastRunes ''Hi.'' 32\<rparr>)"
  by (simp add: filter_Push_def drain_def NewOutputFilter_def next_segment_def demo_cut AllowAll_def DefaultOverlapRunes_def Let_def)

lemma demo_flush: "filter_Flush (NewOutputFilter AllowAll\<lparr>overlap := x\<rparr>) = (([], False, []), NewOutputFilter AllowAll\<lparr>overlap := x\<rparr>)"
  by (simp add: filter_Flush_def drain_def NewOutputFilter_def)

lemma demo_now: "re_now demo_env w = 0"
  by (simp add: demo_env_def)

lemma demo_delta_world: "cs_world (on_delta demo_env reqID d s) = cs_world s"
proof -
  obtain emit b fb f where "filter_Push d (cs_filter s) = ((emit, b, fb), f)" by (metis prod_cases3 surj_pair)
  then show ?thesis by (simp add: on_delta_def Let_def demo_env_def send_blocked_def do_send_def metric_def note_call_def)
qed

lemma demo_chat_stream:
  assumes "cs_world s = [''data:m'', ''data:end'']"
  shows "\<exists>s'. chat_stream (demo_handler AllowAll) demo_env demo_limiter demo_store demo_dify ''r1'' ''p1'' ''bob'' ''hello'' i [] s = Some s' \<and>
    cs_trace s' = cs_trace s @ [TStream (upstream_req ''p1'' ''bob'' ''hello'' i []), TFirstToken 0, TSend (chunk ''r1'' ''Hi.''),
      TUpstreamLatency 0, TRecord ''p1'' 5, TTokens 5, TSet ''p1'' ''bob'' ''c'', TSend (done_envelope ''r1'' ''c'' 5), TMetric ''ok'']"
  using assms
  by (simp add: chat_stream_def Let_def demo_stream[OF _ demo_delta_world] note_call_def demo_now
      stream_start_def first_token_def upstream_latency_def chat_succeeded_def chat_finish_def recordSuccess_def do_set_def demo_limiter_def demo_store_def demo_handler_def pipeline_New_def
      on_delta_def[of _ _ "''Hi.''"] on_event_def demo_push demo_flush do_send_def metric_def)

lemma demo_trace:
  "\<exists>s'. demo_run AllowAll = Some s' \<and> cs_trace s' =
     [TAllow ''p1'' True, TGet ''p1'' ''bob'', TLock ''p1'' ''bob'' True, TGet ''p1'' ''bob'', TBuild ''p1'' ''bob'',
      TCheckInput ''hello'' True, TStream (upstream_req ''p1'' ''bob'' ''hello'' Map.empty []), TFirstToken 0, TSend (chunk ''r1'' ''Hi.''),
      TUpstreamLatency 0, TRecord ''p1'' 5, TTokens 5, TSet ''p1'' ''bob'' ''c'', TSend (done_envelope ''r1'' ''c'' 5), TMetric ''ok'', TUnlock]"
proof -
  define s0 where "s0 = demo_start\<lparr>cs_trace := [TAllow ''p1'' True, TGet ''p1'' ''bob'', TLock ''p1'' ''bob'' True,
      TGet ''p1'' ''bob'', TBuild ''p1'' ''bob'', TCheckInput ''hello'' True]\<rparr>"
  obtain s1 where s1: "chat_stream (demo_handler AllowAll) demo_env demo_limiter demo_store demo_dify ''r1'' ''p1'' ''bob'' ''hello'' Map.empty [] s0 = Some s1"
    "cs_trace s1 = cs_trace s0 @ [TStream (upstream_req ''p1'' ''bob'' ''hello'' Map.empty []), TFirstToken 0, TSend (chunk ''r1'' ''Hi.''),
      TUpstreamLatency 0, TRecord ''p1'' 5, TTokens 5, TSet ''p1'' ''bob'' ''c'', TSend (done_envelope ''r1'' ''c'' 5), TMetric ''ok'']"
    using demo_chat_stream[of s0 Map.empty] by (auto simp: s0_def demo_start_def)
  have "demo_run AllowAll = Some (do_unlock demo_store (releaser ''p1'' ''bob'') s1)"
    using s1(1)
    by (simp add: demo_run_def HandleChat_def demo_handler_def pipeline_New_def demo_req_def chat_GetRequestId_def chat_GetNpcId_def
       chat_GetQuery_def chat_GetConversationId_def demo_trim demo_query Let_def chat_admitted_def resolveConversation_def do_get_def demo_limiter_def demo_store_def
       demo_session_def session_Bind_def session_New_def chat_resolved_def note_call_def demo_start_def s0_def AllowAll_def)
  then show ?thesis using s1(2) by (simp add: s0_def)
qed

lemma demo_dify_eq: "h_dify (demo_handler m) = Some (router_dify demo_http demo_stop 1 1 (\<lambda>_. Inr []) (\<lambda>x. x) demo_router)"
  by (simp add: demo_handler_def pipeline_New_def demo_dify_def)

lemma router_ready: "h_dify h = Some (router_dify H Hb base maxB mu pe r) \<Longrightarrow> ready_for h (\<lambda>_. True)"
  by (simp add: ready_for_def router_dify_contract)

section \<open>The guarantees\<close>

text \<open>C1: what a chat request takes, it gives back. On every path of \<open>HandleChat\<close>, errors, moderation, stop
  and upstream failure included, the limiter is asked for admission at most once, an admitted
  request settles with the limiter (\<open>Record\<close>, \<open>RecordFailure\<close> or \<open>Release\<close>) exactly once and a refused
  one never, and every conversation lock it takes is released.\<close>

theorem chat_settles_once:
  assumes "h_dify h = Some (router_dify H Hb base maxB mu pe r)"
    and "HandleChat h E sess req s = Some s'" and "cs_trace s = []"
  shows "number is_settle (cs_trace s') = number is_admission (cs_trace s') \<and> number is_admission (cs_trace s') \<le> 1 \<and>
    number is_locked (cs_trace s') = number (\<lambda>c. c = TUnlock) (cs_trace s')"
  using HandleChat_trace[OF router_ready[OF assms(1)] assms(2)] assms(3) by auto

theorem chat_settles_once_witness:
  "\<exists>s'. demo_run AllowAll = Some s' \<and> number is_admission (cs_trace s') = 1 \<and> number is_settle (cs_trace s') = 1 \<and>
     number is_locked (cs_trace s') = 1 \<and> number (\<lambda>c. c = TUnlock) (cs_trace s') = 1"
proof -
  obtain s' where s': "demo_run AllowAll = Some s'" and t: "number is_admission (cs_trace s') = 1" "number is_locked (cs_trace s') = 1"
    using demo_trace by auto
  from chat_settles_once[OF demo_dify_eq s'[unfolded demo_run_def]] show ?thesis
    using s' t by (auto simp: demo_start_def)
qed



text \<open>C4: moderation end to end. With the keyword moderator, whatever the upstream streams (text that
  JSON decoding made, so valid UTF-8) and however the request ends, the concatenated chunk texts the
  client receives contain, in any letter case, no banned word of up to 33 runes.\<close>

theorem chat_never_emits_banned:
  assumes "h_dify h = Some (router_dify H Hb base maxB mu pe r)" and "decodes_utf8 H"
    and "unicode_lower lower" and "h_moderator h = policy_moderator pm"
    and "pm_policy pm = KeywordPolicy_Allowed lower (NewKeywordPolicy lower words)"
    and "HandleChat h E sess req s = Some s'" and "cs_trace s = []"
    and "utf8 ws \<in> set (NewKeywordPolicy lower words)" and "list_all scalar ws" and "length ws \<le> 33"
  shows "\<exists>texts last. sent (cs_trace s') = map (chunk (chat_GetRequestId req)) texts @ last \<and> filter is_chunk last = [] \<and>
    \<not> contains (ToLower lower (concat texts)) (utf8 ws)"
proof -
  have "ready_for h utf8_text" using router_dify_utf8[OF assms(2)] assms(1) by (simp add: ready_for_def)
  from HandleChat_trace[OF this assms(6)] assms(7)
  have "chat_frames (chat_GetRequestId req) (policy_moderator pm) utf8_text (sent (cs_trace s'))" by (auto simp: assms(4))
  then obtain cs ts ds where f: "sent (cs_trace s') = map (chunk (chat_GetRequestId req)) cs @ ts"
     "ends_with (chat_GetRequestId req) ts" "\<forall>d \<in> set ds. utf8_text d"
     "concat cs = fst (push_all ds (NewOutputFilter (policy_moderator pm))) \<or> concat cs = fst (stream_all ds (NewOutputFilter (policy_moderator pm)))"
    by (auto simp: chat_frames_def)
  have k: "keyword_moderator lower pm (NewKeywordPolicy lower words)"
    using assms(3,5) by (simp add: keyword_moderator_def keyword_moderator_axioms_def)
  have "ws \<noteq> []" using assms(8) by (auto simp: NewKeywordPolicy_def)
  then have "\<not> contains (ToLower lower (concat cs)) (utf8 ws)"
    using keyword_moderator.banned_free[OF k f(4) _ assms(8-10)] f(3) by (auto simp: utf8_text_def)
  moreover have "\<not> is_chunk e" if "closes rid e" for rid e using that by (cases e) auto
  then have "filter is_chunk ts = []" using f(2) by (auto simp: ends_with_def filter_empty_conv)
  ultimately show ?thesis using f(1) by blast
qed

lemma demo_utf8: "decodes_utf8 demo_http"
proof -
  have "utf8 [72, 105, 46] = ''Hi.''" by code_simp
  then show ?thesis
    unfolding decodes_utf8_def utf8_text_def
    by (auto simp: demo_http_def demo_event_def scalar_def intro!: exI[of _ "[72, 105, 46]"])
qed

theorem chat_never_emits_banned_witness:
  "\<exists>s' texts last. demo_run (policy_moderator (ascii_keywords [''bad''])) = Some s' \<and>
     sent (cs_trace s') = map (chunk ''r1'') texts @ last \<and> filter is_chunk last = [] \<and>
     \<not> contains (ToLower ascii_table (concat texts)) (utf8 [98, 97, 100])"
proof -
  let ?m = "policy_moderator (ascii_keywords [''bad''])"
  have "TrimSpace ''bad'' = ''bad''" by (simp add: TrimSpace_graphic is_graphic_def)
  moreover have "utf8 [98, 97, 100] = ''bad''" by code_simp
  ultimately have w: "utf8 [98, 97, 100] \<in> set (NewKeywordPolicy ascii_table [''bad''])"
    by (simp add: NewKeywordPolicy_def ToLower_def ascii_lower_def)
  obtain s' where s': "demo_run ?m = Some s'" using demo_returns by blast
  have "\<exists>texts last. sent (cs_trace s') = map (chunk (chat_GetRequestId demo_req)) texts @ last \<and> filter is_chunk last = [] \<and>
     \<not> contains (ToLower ascii_table (concat texts)) (utf8 [98, 97, 100])"
    by (rule chat_never_emits_banned[where pm = "ascii_keywords [''bad'']", OF demo_dify_eq demo_utf8 ascii_table_lower _ _ s'[unfolded demo_run_def] _ w])
      (simp_all add: demo_handler_def pipeline_New_def ascii_keywords_def NewPolicyModerator_def demo_start_def scalar_def)
  then show ?thesis using s' by (simp add: demo_req_def chat_GetRequestId_def)
qed



text \<open>C7: a chat request ends. When the response body is finite (each line read leaves fewer, sending adds
  none) and the lock wait of the store returns, \<open>HandleChat\<close> returns and sends the client at least one
  frame.\<close>

theorem chat_returns:
  assumes "finite_body H E left" and "h_dify h = Some (router_dify H Hb base maxB mu pe r)"
    and "\<forall>S p n t w. h_store h = Some S \<longrightarrow> sLock S p n t w \<noteq> None" and "cs_trace s = []"
  shows "\<exists>s'. HandleChat h E sess req s = Some s' \<and> sent (cs_trace s') \<noteq> []"
proof -
  obtain s' where s': "HandleChat h E sess req s = Some s'"
    using HandleChat_total[OF assms(1-3)] by blast
  then show ?thesis
    using HandleChat_trace[OF router_ready[OF assms(2)] s'] assms(4) by (auto simp: chat_frames_def)
qed

theorem chat_returns_witness:
  "\<exists>s'. demo_run AllowAll = Some s' \<and> sent (cs_trace s') \<noteq> []"
  using chat_returns[OF demo_finite demo_dify_eq, of AllowAll demo_start demo_session demo_req]
  by (auto simp: demo_run_def demo_handler_def pipeline_New_def demo_store_def demo_start_def)

end
