(* ===== verification/Access_Guarantees.thy ===== *)
theory Access_Guarantees
  imports Listener_Props Chat_Guarantees
begin

text \<open>
  The guarantees of a connection served by the pipeline: the pipeline with the router is an instance
  of \<open>access_handler\<close>, for every authenticator, limiter, store, context assembler, moderator and
  transport. The witnesses rest on one concrete connection.
\<close>

section \<open>The pipeline behind the access layer\<close>

abbreviation wired :: "(string \<Rightarrow> 'w \<Rightarrow> auth_error + string) \<Rightarrow> 'w limiter_if option \<Rightarrow> 'w store_if option \<Rightarrow>
   (string \<Rightarrow> string \<Rightarrow> 'w \<Rightarrow> (vars \<times> string option) \<times> 'w) option \<Rightarrow> moderator option \<Rightarrow> 'w dify_if \<Rightarrow> int \<Rightarrow> int \<Rightarrow>
   'w request_env \<Rightarrow> 'w access" where
  "wired verify lm st asm m dify ttl lockTTL E \<equiv>
     pipeline_access (pipeline_New (Some verify) lm st asm m (Some dify) ttl lockTTL) E"

lemma HandleChat_replies:
  assumes "HandleChat h E sess req (fresh_request w) = Some s" "ready_for h valid" "f \<in> set (sent (cs_trace s))"
  shows "env_request f = Some (chat_GetRequestId req)"
proof -
  have "env_request e = Some r" if "closes r e" for r e using that by (cases e) auto
  then show ?thesis
    using HandleChat_trace[OF assms(2,1)] assms(3) by (auto simp: fresh_request_def chat_frames_def ends_with_def)
qed

interpretation pipeline_handler: access_handler
  "wired verify lm st asm m (router_dify H Hb base maxB mu pe r) ttl lockTTL E" "\<lambda>p. \<exists>token w. verify token w = Inr p"
  for verify lm st asm m H Hb base maxB mu pe r ttl lockTTL E
proof
  let ?h = "pipeline_New (Some verify) lm st asm m (Some (router_dify H Hb base maxB mu pe r)) ttl lockTTL"
  fix s req w ok why s'
  assume "aAuthenticate (pipeline_access ?h E) s req w = ((ok, why), s')"
  then have "BindSession verify (auth_GetSessionToken req) s w = ((ok, why), s')"
    by (simp add: pipeline_access_def pipeline_Authenticate_def pipeline_New_def)
  then show "if ok then authed s' \<and> (\<exists>token w. verify token w = Inr (playerID s')) else s' = s"
    by (auto simp: BindSession_def session_Bind_def split: if_splits sum.splits auth_error.splits) blast
next
  let ?h = "pipeline_New (Some verify) lm st asm m (Some (router_dify H Hb base maxB mu pe r)) ttl lockTTL"
  fix s creq fs f
  assume "aHandleChat (pipeline_access ?h E) s creq fs" and f: "f \<in> set fs"
  then obtain E' w s1 where "HandleChat ?h E' s creq (fresh_request w) = Some s1" "fs = sent (cs_trace s1)"
    by (auto simp: pipeline_access_def)
  moreover have "ready_for ?h (\<lambda>_. True)" by (simp add: ready_for_def pipeline_New_def router_dify_contract)
  ultimately show "env_request f = Some (chat_GetRequestId creq)"
    using HandleChat_replies[where h = ?h and valid = "\<lambda>_. True"] f by blast
qed

section \<open>A concrete connection\<close>

text \<open>A client authenticates, sends one chat request, receives its frames and disconnects.\<close>

definition demo_unmarshal :: "byte list \<Rightarrow> string + ClientEnvelope" where
  "demo_unmarshal b = Inr \<lparr>ClientBodyField = Some
     (if b = [1] then ClientEnvelope_Auth (Some \<lparr>SessionToken = ''tok'', AuthPlayerId = []\<rparr>) else ClientEnvelope_Chat demo_req)\<rparr>"

definition demo_access :: "string list access" where
  "demo_access = pipeline_access (demo_handler AllowAll) demo_env"

definition demo_reader :: "nat \<Rightarrow> reader" where
  "demo_reader k = \<lparr>rd_bytes = concat (map frame_bytes (drop k [[1], [2]])), rd_end = EOF\<rparr>"

definition demo_conn :: "string list conn" where
  "demo_conn = conn_open ''conn-1'' ''a'' 0 (demo_reader 0) []"

definition demo_begun :: registry where
  "demo_begun = snd (registry_Begin ''r1'' NewRegistry)"

definition demo_chatting :: "job \<Rightarrow> ServerEnvelope list \<Rightarrow> registry \<Rightarrow> conn_phase \<Rightarrow> string list conn" where
  "demo_chatting j fs r ph = \<lparr>cn_sess = session_Bind ''p1'' (session_New ''conn-1'' ''a'' 0), cn_reg = r, cn_in = demo_reader 2,
     cn_out = (None, authResult True []) # map (Pair (Some 0)) fs, cn_jobs = [j], cn_phase = ph, cn_world = []\<rparr>"

abbreviation demo_frames :: "ServerEnvelope list" where
  "demo_frames \<equiv> [chunk ''r1'' ''Hi.'', done_envelope ''r1'' ''c'' 5]"

lemma demo_wired: "demo_access = wired demo_verify (Some demo_limiter) (Some demo_store) (Some (\<lambda>_ _ w. ((Map.empty, None), w)))
    (Some AllowAll) (router_dify demo_http demo_stop 1 1 (\<lambda>_. Inr []) (\<lambda>x. x) demo_router) 0 0 demo_env"
  by (simp add: demo_access_def demo_handler_def demo_dify_def)

lemma demo_read:
  "ReadFrame (demo_reader 0) = (Inr [1], demo_reader 1)" "ReadFrame (demo_reader (Suc 0)) = (Inr [2], demo_reader 2)"
  using ReadFrame_frame_bytes[of "[2]" "[]"] by (simp_all add: demo_reader_def MaxFrameSize_def)

lemma demo_authenticates:
  "conn_step demo_unmarshal demo_access demo_conn
     (demo_conn\<lparr>cn_sess := session_Bind ''p1'' (cn_sess demo_conn), cn_in := demo_reader 1, cn_out := [(None, authResult True [])]\<rparr>)"
  using conn_step.serve[of demo_conn demo_unmarshal demo_access False False]
  by (simp add: serve_once_def demo_conn_def conn_open_def ReadClientEnvelope_def demo_read demo_unmarshal_def dispatch_def client_GetBody_def
      demo_access_def pipeline_access_def pipeline_Authenticate_def demo_handler_def pipeline_New_def auth_GetSessionToken_def BindSession_def
      demo_verify_def conn_send_def)

lemma demo_begins:
  "(conn_step demo_unmarshal demo_access)\<^sup>*\<^sup>* demo_conn (demo_chatting (Starting demo_req) [] demo_begun Serving)"
proof -
  let ?c = "demo_conn\<lparr>cn_sess := session_Bind ''p1'' (cn_sess demo_conn), cn_in := demo_reader 1, cn_out := [(None, authResult True [])]\<rparr>"
  have "conn_step demo_unmarshal demo_access ?c (demo_chatting (Starting demo_req) [] demo_begun Serving)"
    using conn_step.serve[of ?c demo_unmarshal demo_access False False]
    by (simp add: serve_once_def demo_conn_def conn_open_def ReadClientEnvelope_def demo_read demo_unmarshal_def dispatch_def client_GetBody_def
        listener_handleChat_def demo_req_def chat_GetRequestId_def session_Bind_def demo_chatting_def demo_begun_def registry_Begin_def NewRegistry_def Let_def)
  then show ?thesis using demo_authenticates by simp
qed

lemma demo_sends:
  "(conn_step demo_unmarshal demo_access)\<^sup>*\<^sup>* demo_conn (demo_chatting (Sending []) demo_frames demo_begun Serving)"
proof -
  obtain s' where "HandleChat (demo_handler AllowAll) demo_env demo_session demo_req demo_start = Some s'" "sent (cs_trace s') = demo_frames"
    using demo_trace by (auto simp: demo_run_def)
  moreover have "demo_start = fresh_request [''data:m'', ''data:end'']" by (simp add: demo_start_def fresh_request_def)
  moreover have "cn_sess (demo_chatting j fs r ph) = session_Bind ''p1'' (session_New ''conn-1'' ''a'' 0)" for j fs r ph
    by (simp add: demo_chatting_def)
  moreover have "HandleChat h E (session_Bind ''p1'' s) req st = HandleChat h E demo_session req st" for h :: "string list handler" and E s req st
    by (simp add: HandleChat_def demo_session_def session_Bind_def Let_def)
  ultimately have "aHandleChat demo_access (cn_sess (demo_chatting (Starting demo_req) [] demo_begun Serving)) demo_req demo_frames"
    unfolding demo_access_def pipeline_access_def access.simps by metis
  from conn_step.start[OF _ _ this] have
    "conn_step demo_unmarshal demo_access (demo_chatting (Starting demo_req) [] demo_begun Serving) (demo_chatting (Sending demo_frames) [] demo_begun Serving)"
    by (simp add: demo_chatting_def)
  moreover have "conn_step demo_unmarshal demo_access (demo_chatting (Sending (f # fs)) gs demo_begun Serving) (demo_chatting (Sending fs) (gs @ [f]) demo_begun Serving)" for f fs gs
    using conn_step.emit[of 0 "demo_chatting (Sending (f # fs)) gs demo_begun Serving" f fs demo_unmarshal demo_access] by (simp add: demo_chatting_def)
  from this[of "chunk ''r1'' ''Hi.''" "[done_envelope ''r1'' ''c'' 5]" "[]"] this[of "done_envelope ''r1'' ''c'' 5" "[]" "[chunk ''r1'' ''Hi.'']"]
  have "(conn_step demo_unmarshal demo_access)\<^sup>*\<^sup>* (demo_chatting (Sending demo_frames) [] demo_begun Serving) (demo_chatting (Sending []) demo_frames demo_begun Serving)"
    by simp
  ultimately show ?thesis using demo_begins by (meson converse_rtranclp_into_rtranclp rtranclp_trans)
qed

lemma demo_closes:
  "\<exists>c. (conn_step demo_unmarshal demo_access)\<^sup>*\<^sup>* demo_conn c \<and> cn_phase c = Closed \<and>
     cn_out c = (None, authResult True []) # map (Pair (Some 0)) demo_frames \<and> cn_jobs c = [Sending []]"
proof -
  let ?c = "\<lambda>r ph. demo_chatting (Sending []) demo_frames r ph"
  let ?r1 = "done_cancel 0 demo_begun" and ?r2 = "done_delete 0 (done_cancel 0 demo_begun)"
    and ?r3 = "done_wg 0 (done_delete 0 (done_cancel 0 demo_begun))"
  note demo_reg = demo_begun_def registry_Begin_def NewRegistry_def ctx_defs
  have 1: "conn_step demo_unmarshal demo_access (?c demo_begun Serving) (?c ?r1 Serving)"
    using conn_step.leave[of 0 "?c demo_begun Serving" demo_unmarshal demo_access] by (simp add: demo_chatting_def ctx_phase_def demo_reg)
  have 2: "conn_step demo_unmarshal demo_access (?c ?r1 Serving) (?c ?r2 Serving)"
    using conn_step.unregister[of 0 "?c ?r1 Serving" demo_unmarshal demo_access] by (simp add: demo_chatting_def ctx_phase_def demo_reg)
  have 3: "conn_step demo_unmarshal demo_access (?c ?r2 Serving) (?c ?r3 Serving)"
    using conn_step.finish[of 0 "?c ?r2 Serving" demo_unmarshal demo_access] by (simp add: demo_chatting_def ctx_phase_def demo_reg)
  have 4: "conn_step demo_unmarshal demo_access (?c ?r3 Serving) (conn_close (?c ?r3 Serving))"
    using conn_step.serve[of "?c ?r3 Serving" demo_unmarshal demo_access True False] by (simp add: demo_chatting_def serve_once_def)
  have 5: "conn_step demo_unmarshal demo_access (conn_close (?c ?r3 Serving)) ((conn_close (?c ?r3 Serving))\<lparr>cn_phase := Closed\<rparr>)"
    by (rule conn_step.close) (simp_all add: conn_close_def demo_chatting_def registry_Wait_returns_def registry_CancelAll_def demo_reg)
  have "(conn_step demo_unmarshal demo_access)\<^sup>*\<^sup>* demo_conn ((conn_close (?c ?r3 Serving))\<lparr>cn_phase := Closed\<rparr>)"
    using demo_sends 1 2 3 4 5 by (meson rtranclp.rtrancl_into_rtrancl)
  then show ?thesis by (intro exI[of _ "(conn_close (?c ?r3 Serving))\<lparr>cn_phase := Closed\<rparr>"]) (simp add: conn_close_def demo_chatting_def)
qed

section \<open>The guarantees\<close>

text \<open>C12: nothing without a token. On every connection, in every interleaving, a chat goroutine exists only
  on a session bound to a player that the authenticator accepted a token for. As long as there is
  none, every frame the connection has sent is a pong, an authentication result or a refusal of the
  access layer: no reset and no chat is served.\<close>

theorem access_needs_token:
  assumes "(conn_step unmarshal (wired verify lm st asm m (router_dify H Hb base maxB mu pe r) ttl lockTTL E))\<^sup>*\<^sup>*
      (conn_open connID addr now inp w0) c"
  shows "(if authed (cn_sess c) then \<exists>token w. verify token w = Inr (playerID (cn_sess c))
     else cn_jobs c = [] \<and> filter (Not \<circ> gate_frame) (map snd (cn_out c)) = [])"
  using pipeline_handler.conn_reachable_inv[OF assms]
  by (auto simp: pipeline_handler.conn_inv_def pipeline_handler.session_ok_def filter_empty_conv list_all_iff split: if_splits)

theorem access_needs_token_witness:
  "\<exists>c token w. (conn_step demo_unmarshal demo_access)\<^sup>*\<^sup>* demo_conn c \<and> cn_jobs c = [Starting demo_req] \<and>
     demo_verify token w = Inr (playerID (cn_sess c))"
proof -
  let ?c = "demo_chatting (Starting demo_req) [] demo_begun Serving"
  have "authed (cn_sess ?c)" "cn_jobs ?c = [Starting demo_req]" by (simp_all add: demo_chatting_def session_Bind_def)
  then show ?thesis
    using access_needs_token[OF demo_begins[unfolded demo_wired demo_conn_def]] demo_begins by auto
qed

text \<open>C14: no goroutine and no frame after the connection is closed. When \<open>ServeConn\<close> has returned, every chat
  goroutine of the connection has sent its last frame and finished its \<open>done\<close>, every request context
  is cancelled, no request is registered, and nothing can happen on the connection any more.\<close>

theorem closed_is_final:
  assumes "(conn_step unmarshal (wired verify lm st asm m (router_dify H Hb base maxB mu pe r) ttl lockTTL E))\<^sup>*\<^sup>*
      (conn_open connID addr now inp w0) c"
    and "cn_phase c = Closed"
  shows "set (cn_jobs c) \<subseteq> {Sending []} \<and> inflight (cn_reg c) = [] \<and>
    (\<forall>x \<in> set (ctxs (cn_reg c)). rc_phase x = Finished \<and> rc_cancelled x) \<and>
    \<not> conn_step unmarshal (wired verify lm st asm m (router_dify H Hb base maxB mu pe r) ttl lockTTL E) c c'"
  using pipeline_handler.closed_conn[OF pipeline_handler.conn_reachable_inv[OF assms(1)] assms(2)] by blast

theorem closed_is_final_witness:
  "\<exists>c. (conn_step demo_unmarshal demo_access)\<^sup>*\<^sup>* demo_conn c \<and> cn_phase c = Closed \<and>
     cn_out c = (None, authResult True []) # map (Pair (Some 0)) demo_frames \<and> cn_jobs c = [Sending []] \<and> inflight (cn_reg c) = []"
proof -
  obtain c where c: "(conn_step demo_unmarshal demo_access)\<^sup>*\<^sup>* demo_conn c" "cn_phase c = Closed"
    "cn_out c = (None, authResult True []) # map (Pair (Some 0)) demo_frames" "cn_jobs c = [Sending []]"
    using demo_closes by blast
  from closed_is_final[OF c(1)[unfolded demo_wired demo_conn_def] c(2)] show ?thesis using c by blast
qed

text \<open>C13: frames belong to requests, and ids can be reused. In every interleaving, each frame a chat goroutine
  sends carries the id of its own request; when a client reuses a request id, every frame of the
  earlier request was sent before any frame of the later one.\<close>

theorem frames_of_reused_ids:
  assumes "(conn_step unmarshal (wired verify lm st asm m (router_dify H Hb base maxB mu pe r) ttl lockTTL E))\<^sup>*\<^sup>*
      (conn_open connID addr now inp w0) c"
    and "k < length (cn_out c)" and "cn_out c ! k = (Some i, f)"
  shows "env_request f = Some (rc_id (ctxs (cn_reg c) ! i)) \<and>
    (\<forall>l j g. k < l \<longrightarrow> l < length (cn_out c) \<longrightarrow> cn_out c ! l = (Some j, g) \<longrightarrow> env_request g = env_request f \<longrightarrow> i \<le> j)"
proof -
  have out: "pipeline_handler.out_ok c" using pipeline_handler.conn_reachable_inv[OF assms(1)] by (simp add: pipeline_handler.conn_inv_def)
  have own: "env_request g = Some (rc_id (ctxs (cn_reg c) ! j))" if "l < length (cn_out c)" "cn_out c ! l = (Some j, g)" for l j g
    using out that unfolding pipeline_handler.out_ok_def by blast
  show ?thesis
    using own out assms(2,3) unfolding pipeline_handler.out_ok_def by (metis option.inject)
qed


theorem frames_of_reused_ids_witness:
  "\<exists>c. (conn_step demo_unmarshal demo_access)\<^sup>*\<^sup>* demo_conn c \<and> cn_out c ! 1 = (Some 0, chunk ''r1'' ''Hi.'') \<and>
     env_request (chunk ''r1'' ''Hi.'') = Some (rc_id (ctxs (cn_reg c) ! 0))"
proof -
  let ?c = "demo_chatting (Sending []) demo_frames demo_begun Serving"
  have k: "1 < length (cn_out ?c)" "cn_out ?c ! 1 = (Some 0, chunk ''r1'' ''Hi.'')" by (simp_all add: demo_chatting_def)
  from frames_of_reused_ids[OF demo_sends[unfolded demo_wired demo_conn_def] k] show ?thesis
    using demo_sends k by blast
qed

lemma wired_chat_returns:
  assumes "finite_body H E left" "\<forall>S p n t w. st = Some S \<longrightarrow> sLock S p n t w \<noteq> None"
  shows "\<exists>fs. aHandleChat (wired verify lm st asm m (router_dify H Hb base maxB mu pe r) ttl lockTTL E) s req fs"
proof -
  let ?h = "pipeline_New (Some verify) lm st asm m (Some (router_dify H Hb base maxB mu pe r)) ttl lockTTL"
  have "HandleChat ?h E s req (fresh_request undefined) \<noteq> None"
    by (rule HandleChat_total[OF assms(1)]) (use assms(2) in \<open>simp_all add: pipeline_New_def\<close>)
  then show ?thesis by (auto simp: pipeline_access_def)
qed

text \<open>A closing connection can always finish. Once the read loop has ended (disconnect, idle time-out,
  bad frame or shutdown), from every state the connection can be in, letting its goroutines run
  leads to the end of \<open>ServeConn\<close>: no lock, wait group or registry entry stands in the way. It relies on
  finite upstream responses and on a lock wait that returns.\<close>

theorem closing_can_finish:
  assumes "finite_body H E left"
    and "\<forall>S p n t w. st = Some S \<longrightarrow> sLock S p n t w \<noteq> None"
    and "(conn_step unmarshal (wired verify lm st asm m (router_dify H Hb base maxB mu pe r) ttl lockTTL E))\<^sup>*\<^sup>*
      (conn_open connID addr now inp w0) c"
    and "cn_phase c = Draining"
  shows "\<exists>c'. (conn_step unmarshal (wired verify lm st asm m (router_dify H Hb base maxB mu pe r) ttl lockTTL E))\<^sup>*\<^sup>* c c' \<and>
    cn_phase c' = Closed"
  by (rule pipeline_handler.drains[OF pipeline_handler.conn_reachable_inv[OF assms(3)] wired_chat_returns[OF assms(1,2)] assms(4)])

theorem closing_can_finish_witness:
  "\<exists>c'. (conn_step demo_unmarshal demo_access)\<^sup>*\<^sup>* (conn_close (demo_chatting (Starting demo_req) [] demo_begun Serving)) c' \<and> cn_phase c' = Closed"
proof -
  let ?c = "demo_chatting (Starting demo_req) [] demo_begun Serving"
  have "conn_step demo_unmarshal demo_access ?c (conn_close ?c)"
    using conn_step.serve[of ?c demo_unmarshal demo_access True False] by (simp add: demo_chatting_def serve_once_def)
  then have r: "(conn_step demo_unmarshal demo_access)\<^sup>*\<^sup>* demo_conn (conn_close ?c)" using demo_begins by simp
  have l: "\<forall>S p n t w. Some demo_store = Some S \<longrightarrow> sLock S p n t w \<noteq> None" by (simp add: demo_store_def)
  have "cn_phase (conn_close ?c) = Draining" by (simp add: conn_close_def)
  from closing_can_finish[OF demo_finite l r[unfolded demo_wired demo_conn_def] this] show ?thesis unfolding demo_wired .
qed

end
