(* ===== verification/Gateway_Props.thy ===== *)
theory Gateway_Props
  imports Ledger Runtime Limiter_Props Access_Guarantees
begin

text \<open>
  The components put together: the handler that \<open>Build\<close> makes, over the laws of Redis. \<open>reliable_gateway\<close> is a
  Redis that answers, under a clock that stands still, seen by one request at a time; the
  limiter, the store, the assembler and the router then provide \<open>slot_ledger\<close>.
\<close>

section \<open>What the other components leave alone\<close>

definition session_key :: "string \<Rightarrow> bool" where
  "session_key k \<longleftrightarrow> (\<exists>p n. k = conversationKey p n \<or> k = lockKey p n)"

lemma limiter_keys [simp]: "\<not> session_key inflightKey" "\<not> session_key (rateKey p)" "\<not> session_key (budgetKey p t)"
  by (auto simp: session_key_def conversationKey_def lockKey_def inflightKey_def rateKey_def budgetKey_def)

lemma session_keys [simp]: "session_key (conversationKey p n)" "session_key (lockKey p n)"
  by (auto simp: session_key_def)

text \<open>From \<open>w\<close> to \<open>w'\<close> the limiter object and every key that is not a conversation or a lock stay.\<close>

definition ledger_same :: "('s \<Rightarrow> string \<Rightarrow> rval option) \<Rightarrow> ('s, 'n) gw_world \<Rightarrow> ('s, 'n) gw_world \<Rightarrow> bool" where
  "ledger_same view w w' \<longleftrightarrow> gw_limiter w' = gw_limiter w \<and>
     (\<forall>k. \<not> session_key k \<longrightarrow> view (gw_redis w') k = view (gw_redis w) k)"

definition redis_slot ::
  "('s \<Rightarrow> string \<Rightarrow> rval option) \<Rightarrow> int \<Rightarrow> string \<Rightarrow> nat \<Rightarrow> stage \<Rightarrow> ('s, 'n) gw_world \<Rightarrow> bool" where
  "redis_slot view t p n0 st w \<longleftrightarrow> no_str (view (gw_redis w) inflightKey) \<and>
     (case st of
        Waiting \<Rightarrow> live_slots view t (gw_redis w) = n0 \<and> no_str (view (gw_redis w) (rateKey (TrimSpace p))) \<and>
          no_zset (view (gw_redis w) (budgetKey (TrimSpace p) t)) \<and>
          fresh_token (gw_limiter w) t \<notin> dom (outside 0 (unix_milli t) (zset_of (view (gw_redis w) inflightKey)))
      | Holding \<Rightarrow> live_slots view t (gw_redis w) = Suc n0 \<and> TrimSpace p \<noteq> []
      | Settled \<Rightarrow> live_slots view t (gw_redis w) = n0)"

lemma redis_slot_same: "redis_slot view t p n0 st w \<Longrightarrow> ledger_same view w w' \<Longrightarrow> redis_slot view t p n0 st w'"
  by (auto simp: redis_slot_def ledger_same_def live_slots_def split: stage.splits)

lemma ledger_same_refl [simp]: "ledger_same view w w" "ledger_same view w (w\<lparr>gw_net := n\<rparr>)"
  by (simp_all add: ledger_same_def)

text \<open>The network is outside.\<close>

definition net_moved :: "('s, 'n) gw_world chat_state \<Rightarrow> ('s, 'n) gw_world chat_state \<Rightarrow> bool" where
  "net_moved s s' \<longleftrightarrow> (\<exists>n. s' = s\<lparr>cs_world := (cs_world s)\<lparr>gw_net := n\<rparr>\<rparr>)"

lemma net_stream_outside: "outside_only (stream_http (net_stream H)) net_moved"
proof -
  have "net_moved s s" for s :: "('s, 'n) gw_world chat_state"
    unfolding net_moved_def by (rule exI[of _ "gw_net (cs_world s)"]) simp
  then show ?thesis
    by (auto simp: outside_only_def stream_http_def on_world_def net_stream_def lift_http_def via_def net_moved_def split: prod.splits)
qed

lemma net_stop_outside: "outside_only (net_stop H) (\<lambda>w w'. \<exists>n. w' = w\<lparr>gw_net := n\<rparr>)"
proof -
  have "\<exists>n. w = w\<lparr>gw_net := n\<rparr>" for w :: "('s, 'n) gw_world" by (rule exI[of _ "gw_net w"]) simp
  then show ?thesis
    by (auto simp: outside_only_def net_stop_def lift_http_def via_def split: prod.splits)
qed

lemma router_Stop_keeps:
  assumes H: "outside_only H ext" and ext: "\<And>s s'. P s \<Longrightarrow> ext s s' \<Longrightarrow> P s'" and "P w"
  shows "P (snd (router_Stop H mu pe r tid usr w))"
proof -
  have d: "P s2" if "httpDo H rq s1 = (x, s2)" "P s1" for rq s1 x s2 using H ext that unfolding outside_only_def by blast
  have l: "P s2" if "readLimited H n bd s1 = (x, s2)" "P s1" for n bd s1 x s2 using H ext that unfolding outside_only_def by blast
  have c: "P (snd (call_api H name rq s1))" if "P s1" for name rq s1
    using that d l by (auto simp: call_api_def readErrorBody_def split: option.splits prod.splits sum.splits)
  show ?thesis
    using assms(3) c by (auto simp: router_Stop_def dify_Stop_def split: sum.splits prod.splits) (metis snd_conv)+
qed

section \<open>The ledger on Redis\<close>

locale reliable_gateway =
  rq: redis_reliable R view pttl + dt: redis_reliable Rd view pttl
  for R :: "'s redis" and Rd :: "'s redis" and view :: "'s \<Rightarrow> string \<Rightarrow> rval option" and pttl :: "'s \<Rightarrow> string \<Rightarrow> int option" +
  fixes now :: "'s \<Rightarrow> int" and t :: int and wait :: "'s \<Rightarrow> string option \<times> 's"
    and E :: "('s, 'n) gw_world request_env"
  assumes clock: "now s = t"
    and wait_idle: "view (snd (wait s)) = view s"
    and send_outside: "ledger_same view w (snd (re_send E env w))"
begin

abbreviation "redisStore lr \<equiv> redis_store R Rd wait lr"
abbreviation "redisLim \<equiv> redis_limiter R Rd now"

lemma get_same: "ledger_same view w (snd (sGet (redisStore lr) p n w))"
  by (auto simp: ledger_same_def redis_store_def with_redis_def GetConversation_def split: prod.splits sum.splits option.splits dest!: rq.get_view)

lemma set_view:
  assumes "redis_server R' view pttl" "SetConversation R' p n c ttl s = (e, s')" "k \<noteq> conversationKey p n"
  shows "view s' k = view s k"
proof (cases "ttl \<le> 0")
  case False
  obtain r where r: "rSet R' (conversationKey p n) c ttl s = (r, s')"
    using assms(2) False by (auto simp: SetConversation_def split: prod.splits sum.splits)
  then show ?thesis
    using assms(3) False redis_server.set_ok[OF assms(1), of "conversationKey p n" c ttl s s'] redis_server.set_err[OF assms(1), of "conversationKey p n" c ttl s _ s']
    by (cases r) auto
qed (use assms in \<open>simp add: SetConversation_def\<close>)

lemma set_same: "ledger_same view w (snd (sSet (redisStore lr) b p n c ttl w))"
proof -
  obtain e s' where s: "SetConversation (if b then Rd else R) p n c ttl (gw_redis w) = (e, s')"
    by (cases "SetConversation (if b then Rd else R) p n c ttl (gw_redis w)")
  have "redis_server (if b then Rd else R) view pttl" using rq.redis_server_axioms dt.redis_server_axioms by simp
  from set_view[OF this s] have "view s' k = view (gw_redis w) k" if "\<not> session_key k" for k
    using that by (metis session_keys(1))
  then show ?thesis using s by (simp add: ledger_same_def redis_store_def with_redis_def)
qed

lemma unlock_same: "ledger_same view w (sUnlock (redisStore lr) (releaser (lockKey p n) token) w)"
  by (auto simp: ledger_same_def redis_store_def intro!: dt.unlock_frame)

lemma lock_same:
  assumes "0 < ttl" "sLock (redisStore lr) p n ttl w = Some (r, w')"
  shows "ledger_same view w w' \<and> (\<forall>u. r = Inr u \<longrightarrow> (\<exists>token. u = releaser (lockKey p n) token))"
proof -
  obtain s' where s: "AcquireConversationLock R wait (lr (gw_redis w)) p n ttl (gw_redis w) = Some (r, s')" "w' = w\<lparr>gw_redis := s'\<rparr>"
    using assms(2) by (auto simp: redis_store_def split: option.splits prod.splits)
  show ?thesis
  proof (cases "newToken (lr (gw_redis w))")
    case (Inl e)
    then show ?thesis using s by (auto simp: AcquireConversationLock_def)
  next
    case (Inr token)
    then have a: "acquire_loop R wait (lockKey p n) token ttl (gw_redis w) = Some (r, s')" using s by (simp add: AcquireConversationLock_def)
    have "view s' k = view (gw_redis w) k" if "\<not> session_key k" for k
      using rq.acquire_loop_frame[OF a, of k] assms(1) wait_idle that by auto
    moreover have "u = releaser (lockKey p n) token" if "r = Inr u" for u
      using rq.acquire_loop_holds[OF assms(1), of wait "lockKey p n" token "gw_redis w" u s'] a that by simp
    ultimately show ?thesis using s(2) by (auto simp: ledger_same_def)
  qed
qed

lemma allow_slot:
  assumes "redis_slot view t p n0 Waiting w" "lAllow redisLim p 0 w = ((ok, e), w')"
  shows "redis_slot view t p n0 (if ok \<and> e = None then Holding else Settled) w'"
proof -
  let ?sp = "allow_spec view t (TrimSpace p) 0 (gw_limiter w) (gw_redis w)"
  obtain l' s' where a: "limiter_Allow R now p 0 (gw_limiter w) (gw_redis w) = ((?sp = None, ?sp), l', s')"
     "live_slots view t s' = live_slots view t (gw_redis w) + (if ?sp = None then 1 else 0)" "no_str (view s' inflightKey)"
    using rq.Allow_guarded[where now = now and t = t and p = "TrimSpace p" and ?p0.0 = p and s = "gw_redis w" and l = "gw_limiter w" and est = 0] assms(1) clock
    by (auto simp: redis_slot_def)
  have w': "ok = (?sp = None)" "e = ?sp" "gw_redis w' = s'" using assms(2) a(1) by (auto simp: redis_limiter_def with_limiter_def)
  have "?sp = None \<Longrightarrow> TrimSpace p \<noteq> []" by (auto simp: allow_spec_def)
  then show ?thesis using assms(1) w' a(2,3) by (auto simp: redis_slot_def)
qed

lemma settle_slot:
  assumes "redis_slot view t p n0 Holding w"
  shows "redis_slot view t p n0 Settled (snd (lRecord redisLim p n w))"
    and "redis_slot view t p n0 Settled (snd (lRecordFailure redisLim w))"
    and "redis_slot view t p n0 Settled (snd (lRelease redisLim w))"
proof -
  have pre: "\<And>s. now s = t" "no_str (view (gw_redis w) inflightKey)" "TrimSpace p \<noteq> []" "live_slots view t (gw_redis w) = Suc n0"
    using assms clock by (simp_all add: redis_slot_def)
  note r = dt.settle_result[of now t "gw_redis w" p, OF pre(1-3)]
  show "redis_slot view t p n0 Settled (snd (lRecord redisLim p n w))"
    using r(1)[of "gw_limiter w" n] pre(4) by (auto simp: redis_slot_def redis_limiter_def with_limiter_def split: prod.splits)
  show "redis_slot view t p n0 Settled (snd (lRecordFailure redisLim w))"
    using r(2)[of "gw_limiter w"] pre(4) by (auto simp: redis_slot_def redis_limiter_def with_limiter_def split: prod.splits)
  show "redis_slot view t p n0 Settled (snd (lRelease redisLim w))"
    using r(3)[of "gw_limiter w"] pre(4) by (auto simp: redis_slot_def redis_limiter_def with_limiter_def split: prod.splits)
qed

lemma stream_same:
  assumes "redis_slot view t p n0 st (cs_world s)"
    and "dStream (router_dify (net_stream H) Hb base maxB mu pe r) req on_event (on_delta E reqID) s = Some (x, s')"
  shows "redis_slot view t p n0 st (cs_world s')"
proof -
  let ?P = "\<lambda>s. redis_slot view t p n0 st (cs_world s)"
  have send: "redis_slot view t p n0 st (snd (re_send E env w))" if "redis_slot view t p n0 st w" for env w
    using redis_slot_same[OF that send_outside] .
  have c: "stream_client (router_ChatStream (stream_http (net_stream H)) base maxB r) net_moved (\<lambda>_. True)"
    by (rule router_contract[OF net_stream_outside]) simp
  have d: "?P (on_delta E reqID d s)" if "?P s" for d s
    using that send by (auto simp: on_delta_def Let_def send_blocked_def do_send_def metric_def note_call_def split: prod.splits)
  have n: "?P s'" if "?P s" "net_moved s s'" for s s'
    using that redis_slot_same[OF that(1) ledger_same_refl(2)] by (auto simp: net_moved_def)
  show ?thesis
    using assms(2) unfolding router_dify_def dify_if.simps
    by (rule stream_client.stream_keeps[OF c, where P = ?P]) (simp_all add: assms(1) n d on_event_def)
qed

lemma stop_same:
  assumes "redis_slot view t p n0 st w"
  shows "redis_slot view t p n0 st (snd (dStop (router_dify Hs (net_stop Hb) base maxB mu pe r) tid usr w))"
  unfolding router_dify_def dify_if.simps
  by (rule router_Stop_keeps[OF net_stop_outside, where P = "redis_slot view t p n0 st"])
    (use assms in \<open>auto intro: redis_slot_same[OF _ ledger_same_refl(2)]\<close>)

end

sublocale reliable_gateway \<subseteq> ledger: slot_ledger "redis_slot view t p n0" "\<lambda>u. \<exists>n token. u = releaser (lockKey p n) token" p
  "pipeline_New au (Some redisLim) (Some (redisStore lr)) (Some (assembler_Build ctxErr (assembler_New ks []))) m
     (Some (router_dify (net_stream H) (net_stop Hb) base maxB mu pe r)) 0 0"
  E redisLim "redisStore lr" "assembler_Build ctxErr (assembler_New ks [])" "router_dify (net_stream H) (net_stop Hb) base maxB mu pe r"
  for p n0 au lr ctxErr ks m H Hb base maxB mu pe r
proof (unfold_locales, goal_cases)
  case (6 w ok e w')
  then show ?case by (rule allow_slot)
next
  case (7 w n)
  then show ?case by (rule settle_slot)
next
  case (8 w)
  then show ?case by (rule settle_slot)
next
  case (9 w)
  then show ?case by (rule settle_slot)
next
  case (10 st w npc)
  then show ?case using get_same by (rule redis_slot_same)
next
  case (11 st w detached npc c ttl)
  then show ?case using set_same by (rule redis_slot_same)
next
  case (12 st w ttl npc r w')
  then show ?case using lock_same[OF 12(2,3)] redis_slot_same[OF 12(1)] by blast
next
  case (13 st w u)
  then show ?case using redis_slot_same[OF 13(1) unlock_same] by blast
next
  case (14 st w npc)
  then show ?case by (simp add: assembler_Build_def assembler_New_def)
next
  case (15 st w env)
  then show ?case using send_outside by (rule redis_slot_same)
next
  case (16 st w tid usr)
  then show ?case by (rule stop_same)
next
  case (17 st s req reqID x s')
  then show ?case by (rule stream_same)
qed (simp_all add: pipeline_New_def defaultConversationLockTTL_def)

context reliable_gateway
begin

lemmas slot_accounting = ledger.slot_ledger_axioms

end

section \<open>The built gateway\<close>

text \<open>An environment whose frames go nowhere, and the first request of a freshly built gateway.\<close>

definition quiet_env :: "('s, 'n) gw_world request_env" where
  "quiet_env = \<lparr>re_send = (\<lambda>_ w. (True, w)), re_ctxErr = (\<lambda>_. None), re_untilDeadline = (\<lambda>_. None), re_now = (\<lambda>_. 0)\<rparr>"

definition first_world :: "('s, 'n) Runtime \<Rightarrow> 's \<Rightarrow> 'n \<Rightarrow> ('s, 'n) gw_world" where
  "first_world rt s n = \<lparr>gw_limiter = rt_Limiter rt, gw_redis = s, gw_net = n\<rparr>"

interpretation demo_gateway: reliable_gateway mem_redis mem_redis mem_view mem_pttl "pf_now demo_platform" "5 * second" "pf_wait demo_platform"
  "quiet_env :: (mem, unit) gw_world request_env"
  by unfold_locales (simp_all add: demo_platform_def quiet_env_def)

lemma demo_gateway_returns:
  assumes "Build demo_platform c = (Inr rt, fx)"
  shows "\<exists>s'. HandleChat (rt_Handler rt) quiet_env demo_session demo_req s = Some s'"
proof -
  obtain au router where h: "rt_Handler rt = build_handler demo_platform c au router" by (rule Build_handler[OF assms])
  have lock: "acquire_loop mem_redis (\<lambda>s. (Some ''context canceled'', s)) key token ttl s \<noteq> None" for key token ttl s
    by (subst acquire_loop.simps) (auto split: prod.splits sum.splits)
  have fin: "finite_body (net_stream (pf_stream demo_platform (upstream_timeout c))) quiet_env (\<lambda>_. 0)"
    by (auto simp: finite_body_def net_stream_def lift_http_def via_def demo_platform_def dead_http_def quiet_env_def)
  have "HandleChat (rt_Handler rt) quiet_env demo_session demo_req s \<noteq> None"
    by (rule HandleChat_total[OF fin, where Hb = "net_stop (pf_stop demo_platform (upstream_timeout c))" and base = upstreamRetryBaseBackoff
          and maxB = upstreamRetryMaxBackoff and mu = "pf_marshalUser demo_platform" and pe = "pf_pathEscape demo_platform" and r = router])
      (use lock in \<open>auto simp: h build_handler_def pipeline_New_def Let_def redis_store_def AcquireConversationLock_def demo_platform_def
         split: option.splits sum.splits\<close>)
  then show ?thesis by blast
qed



section \<open>Reset\<close>



end
