(* ===== verification/Delivery.thy ===== *)
theory Delivery
  imports Chat_Guarantees
begin

text \<open>
  What Dify answered is what the player receives: the stream parser, the router, the output filter and
  the handler together. \<open>sse_loop_delivers\<close> follows an invariant indexed by the deltas handed over so far
  through the parser, for any callbacks; \<open>delivered\<close> is that invariant for the handler's callbacks.
\<close>

section \<open>The parser\<close>

text \<open>The texts of a response body.\<close>

definition answers_of :: "(string \<Rightarrow> string + sseEvent) \<Rightarrow> string list \<Rightarrow> string list" where
  "answers_of decode ls = filter (\<lambda>d. d \<noteq> []) (map ev_Answer (messages (takeWhile (Not \<circ> ends_stream) (payloads decode ls))))"

lemma answers_of_Cons:
  "answers_of decode (l # ls) =
     (case sse_data l of
        None \<Rightarrow> answers_of decode ls
      | Some d \<Rightarrow>
          (case decode d of
             Inl e \<Rightarrow> []
           | Inr ev \<Rightarrow> if ends_stream (Inr ev) then []
               else (if (ev_Event ev = ''message'' \<or> ev_Event ev = ''agent_message'') \<and> ev_Answer ev \<noteq> [] then [ev_Answer ev] else []) @
                 answers_of decode ls))"
  by (auto simp: answers_of_def payloads_Cons messages_Cons messages_def[of "[]"] map_filter_simps split: option.splits sum.splits)

lemma sse_loop_delivers:
  fixes Inv :: "string list \<Rightarrow> 's \<Rightarrow> bool" and lines :: "'s \<Rightarrow> string list"
  assumes scan: "\<And>ds s x s'. Inv ds s \<Longrightarrow> scan s = (x, s') \<Longrightarrow> Inv ds s' \<and> (\<forall>l. x = ScanLine l \<longrightarrow> lines s = l # lines s')"
    and event: "\<And>ds t c s. Inv ds s \<Longrightarrow> Inv ds (onEvent t c s)" "\<And>t c s. lines (onEvent t c s) = lines s"
    and delta: "\<And>ds d s. Inv ds s \<Longrightarrow> Inv (ds @ [d]) (onDelta d s)" "\<And>d s. lines (onDelta d s) = lines s"
  shows "sse_loop scan decode onEvent onDelta r n s = Some ((res, None), s') \<Longrightarrow> Inv ds s \<Longrightarrow> Inv (ds @ answers_of decode (lines s)) s'"
proof (induction "length (lines s)" arbitrary: s r n ds rule: less_induct)
  case less
  obtain x s1 where x: "scan s = (x, s1)" by (cases "scan s")
  note loop = less.prems(1)[unfolded sse_loop.simps[of scan decode onEvent onDelta r n s] x prod.case]
  obtain l where l: "x = ScanLine l" using loop by (cases x) auto
  have s1: "Inv ds s1" "lines s = l # lines s1" using scan[OF less.prems(2) x] l by auto
  have IH: "Inv (ds' @ answers_of decode (lines s1)) s'"
    if "sse_loop scan decode onEvent onDelta r' n' s2 = Some ((res, None), s')" "Inv ds' s2" "lines s2 = lines s1" for r' n' s2 ds'
    using less.hyps[of s2 r' n' ds'] that s1(2) by simp
  show ?case
  proof (cases "sse_data l")
    case None
    then show ?thesis using loop l IH[OF _ s1(1) refl] s1(2) by (simp add: answers_of_Cons)
  next
    case (Some d)
    obtain ev where ev: "decode d = Inr ev" using loop l Some by (cases "decode d") auto
    show ?thesis
    proof (cases "ends_stream (Inr ev)")
      case True
      then have "s' = s1" using loop l Some ev by (auto simp: sse_event_def Let_def split: if_splits)
      then show ?thesis using s1 Some ev True by (simp add: answers_of_Cons)
    next
      case False
      let ?m = "ev_Event ev = ''message'' \<or> ev_Event ev = ''agent_message''"
      define s2 where "s2 = (if ?m then (let a = (if n then s1 else onEvent (ev_TaskID ev) (ev_ConversationID ev) s1)
        in if ev_Answer ev \<noteq> [] then onDelta (ev_Answer ev) a else a) else s1)"
      have "\<exists>r2 n2. sse_event onEvent onDelta ev r n s1 = SseMore r2 n2 s2"
        using False by (cases ?m) (auto simp: sse_event_def s2_def Let_def)
      then obtain r2 n2 where m: "sse_event onEvent onDelta ev r n s1 = SseMore r2 n2 s2" by blast
      have "lines s2 = lines s1" by (simp add: s2_def Let_def event delta)
      moreover have "Inv (ds @ (if ?m \<and> ev_Answer ev \<noteq> [] then [ev_Answer ev] else [])) s2"
        using s1(1) event(1) delta(1) by (auto simp: s2_def Let_def)
      moreover have "sse_loop scan decode onEvent onDelta r2 n2 s2 = Some ((res, None), s')" using loop l Some ev m by simp
      ultimately have "Inv ((ds @ (if ?m \<and> ev_Answer ev \<noteq> [] then [ev_Answer ev] else [])) @ answers_of decode (lines s1)) s'"
        using IH by blast
      then show ?thesis using s1(2) Some ev False by (simp add: answers_of_Cons)
    qed
  qed
qed

section \<open>The client\<close>

text \<open>\<open>lines\<close> is what is left of the response body in the world: a response opens its own body, a scan takes the
  next line, and sending a frame to the player does not touch it.\<close>

definition reads_body ::
  "(bool \<times> 'w, 'b) http \<Rightarrow> 'w request_env \<Rightarrow> ('w \<Rightarrow> string list) \<Rightarrow> ('b \<Rightarrow> string list) \<Rightarrow> bool" where
  "reads_body H E lines content \<longleftrightarrow>
     (\<forall>rq x resp y. httpDo H rq x = (Inr resp, y) \<longrightarrow> lines (snd y) = content (Body resp)) \<and>
     (\<forall>b x l y. scanLine H b x = (ScanLine l, y) \<longrightarrow> lines (snd x) = l # lines (snd y)) \<and>
     (\<forall>env w. lines (snd (re_send E env w)) = lines w)"

text \<open>\<open>resp\<close> is a good answer to the stream call the router makes for \<open>req\<close>.\<close>

definition response_to :: "(bool \<times> 'w, 'b) http \<Rightarrow> difyRouter \<Rightarrow> ChatReq \<Rightarrow> 'b http_response \<Rightarrow> bool" where
  "response_to H r req resp \<longleftrightarrow> (\<exists>c body x y. clientForUser r (rq_User req) = Inr c \<and> prepare_chat H c ''stream'' ''streaming'' req = Inr body \<and>
     httpDo H \<lparr>hr_Method = ''POST'', hr_URL = baseURL c @ ''/chat-messages'', hr_Body = body,
       hr_Header = [(''Authorization'', ''Bearer '' @ apiKey c), (''Content-Type'', ''application/json''), (''Accept'', ''text/event-stream'')]\<rparr> x = (Inr resp, y) \<and>
     200 \<le> StatusCode resp \<and> StatusCode resp < 300)"

lemma stream_http_pure:
  "marshalPayload (stream_http H) = marshalPayload H" "decodeEvent (stream_http H) = decodeEvent H"
  by (simp_all add: stream_http_def)

lemma prepare_chat_stream_http: "prepare_chat (stream_http H) = prepare_chat H"
  by (intro ext) (simp add: prepare_chat_def stream_http_pure split: option.split)

lemma doRequest_opened:
  "doRequest H c op m u b a s = (Inr resp, s') \<Longrightarrow>
   \<exists>x. httpDo H \<lparr>hr_Method = m, hr_URL = u, hr_Body = b, hr_Header = [(''Authorization'', ''Bearer '' @ apiKey c), (''Content-Type'', ''application/json''), (''Accept'', a)]\<rparr> x = (Inr resp, s') \<and>
     200 \<le> StatusCode resp \<and> StatusCode resp < 300"
  by (auto simp: doRequest_def split: option.splits prod.splits sum.splits if_splits)

lemma retry_loop_opened:
  "retry_loop H base maxB c op m u b a left attempt s = (Inr resp, s') \<Longrightarrow>
   \<exists>x. httpDo H \<lparr>hr_Method = m, hr_URL = u, hr_Body = b, hr_Header = [(''Authorization'', ''Bearer '' @ apiKey c), (''Content-Type'', ''application/json''), (''Accept'', a)]\<rparr> x = (Inr resp, s') \<and>
     200 \<le> StatusCode resp \<and> StatusCode resp < 300"
proof (induction left arbitrary: attempt s)
  case 0
  then show ?case
    using doRequest_opened[of H c op m u b a s resp s']
    by (auto simp: retry_loop.simps[of H base maxB c op m u b a 0] split: prod.splits sum.splits dify_error.splits)
next
  case (Suc left)
  then show ?case
    using doRequest_opened[of H c op m u b a s resp s']
    by (auto simp: retry_loop.simps[of H base maxB c op m u b a "Suc left"] Let_def
        split: prod.splits sum.splits dify_error.splits if_splits option.splits)
qed

lemma on_event_world: "cs_world (on_event t c s) = cs_world s"
  by (simp add: on_event_def)

lemma on_delta_lines:
  assumes "reads_body H E lines content"
  shows "lines (cs_world (on_delta E reqID d s)) = lines (cs_world s)"
proof -
  obtain emit b fb f where "filter_Push d (cs_filter s) = ((emit, b, fb), f)" by (metis prod_cases3 surj_pair)
  then show ?thesis
    using assms by (simp add: on_delta_def Let_def reads_body_def send_blocked_def do_send_def metric_def note_call_def)
qed

lemma scan_lines:
  assumes "reads_body H E lines content" "scanLine (stream_http H) b s = (x, s')"
  shows "(\<exists>w. s' = s\<lparr>cs_world := w\<rparr>) \<and> (\<forall>l. x = ScanLine l \<longrightarrow> lines (cs_world s) = l # lines (cs_world s'))"
proof -
  obtain c w where y: "scanLine H b (cs_streamCancelled s, cs_world s) = (x, c, w)" "s' = s\<lparr>cs_world := w\<rparr>"
    using assms(2) by (auto simp: stream_http_def on_world_def split: prod.splits)
  have "\<forall>l. x = ScanLine l \<longrightarrow> lines (snd (cs_streamCancelled s, cs_world s)) = l # lines (snd (c, w))"
    using assms(1) y(1) unfolding reads_body_def by blast
  then show ?thesis using y(2) by auto
qed

lemma router_delivers:
  fixes Inv :: "string list \<Rightarrow> 'w chat_state \<Rightarrow> bool"
  assumes body: "reads_body H E lines content"
    and st: "router_ChatStream (stream_http H) base maxB r req on_event (on_delta E reqID) s = Some ((res, None), s')"
    and world: "\<And>ds s w. Inv ds s \<Longrightarrow> Inv ds (s\<lparr>cs_world := w\<rparr>)"
    and event: "\<And>ds t c s. Inv ds s \<Longrightarrow> Inv ds (on_event t c s)"
    and delta: "\<And>ds d s. Inv ds s \<Longrightarrow> Inv (ds @ [d]) (on_delta E reqID d s)"
    and init: "Inv [] s"
  shows "\<exists>resp. response_to H r req resp \<and> Inv (answers_of (decodeEvent H) (content (Body resp))) s'"
proof -
  obtain c where c: "clientForUser r (rq_User req) = Inr c" using st by (auto simp: router_ChatStream_def split: sum.splits)
  obtain body' resp s1 where prep: "prepare_chat H c ''stream'' ''streaming'' req = Inr body'" and
      retry: "retry_loop (stream_http H) base maxB c ''stream'' ''POST'' (baseURL c @ ''/chat-messages'') body' ''text/event-stream'' (maxUpstreamAttempts - 1) 1 s = (Inr resp, s1)"
    and parse: "sse_loop (scanLine (stream_http H) (Body resp)) (decodeEvent H) on_event (on_delta E reqID) zeroResult False s1 = Some ((res, None), s')"
    using st c by (auto simp: router_ChatStream_def ChatStream_def doRequestWithRetry_def parseSSE_def prepare_chat_stream_http
        stream_http_pure split: sum.splits prod.splits)
  have s1: "Inv [] s1"
    by (rule retry_loop_keeps[where P = "Inv []", OF stream_http_outside _ init retry]) (auto simp: same_locals_def intro: world)
  let ?rq = "\<lparr>hr_Method = ''POST'', hr_URL = baseURL c @ ''/chat-messages'', hr_Body = body',
       hr_Header = [(''Authorization'', ''Bearer '' @ apiKey c), (''Content-Type'', ''application/json''), (''Accept'', ''text/event-stream'')]\<rparr>"
  obtain x where h: "httpDo (stream_http H) ?rq x = (Inr resp, s1)" "200 \<le> StatusCode resp" "StatusCode resp < 300"
    using retry_loop_opened[OF retry] by blast
  then obtain f w where h': "httpDo H ?rq (cs_streamCancelled x, cs_world x) = (Inr resp, f, w)" "s1 = x\<lparr>cs_world := w\<rparr>"
    by (auto simp: stream_http_def on_world_def split: prod.splits)
  have "lines (snd (f, w)) = content (Body resp)" using body h'(1) unfolding reads_body_def by blast
  then have ls: "lines (cs_world s1) = content (Body resp)" using h'(2) by simp
  have "Inv ([] @ answers_of (decodeEvent H) (lines (cs_world s1))) s'"
  proof (rule sse_loop_delivers[where Inv = Inv and lines = "\<lambda>s. lines (cs_world s)", OF _ _ _ _ _ parse s1])
    show "Inv ds s'' \<and> (\<forall>l. x = ScanLine l \<longrightarrow> lines (cs_world s) = l # lines (cs_world s''))"
      if "Inv ds s" "scanLine (stream_http H) (Body resp) s = (x, s'')" for ds s x s''
      using scan_lines[OF body that(2)] world[OF that(1)] by auto
  qed (simp_all add: event delta on_delta_lines[OF body] on_event_world)
  then have "Inv (answers_of (decodeEvent H) (content (Body resp))) s'" using ls by simp
  moreover have "response_to H r req resp" unfolding response_to_def using c prep h'(1) h(2,3) by blast
  ultimately show ?thesis by blast
qed

section \<open>The handler\<close>

text \<open>While the stream runs and nothing was blocked, the frames sent are chunks, and their text is what the
  filter made of the deltas.\<close>

definition delivered :: "string \<Rightarrow> moderator \<Rightarrow> call list \<Rightarrow> string list \<Rightarrow> 'w chat_state \<Rightarrow> bool" where
  "delivered reqID m t0 ds s \<longleftrightarrow> (\<exists>tail. cs_trace s = t0 @ tail \<and> TMetric ''ok'' \<notin> set tail \<and>
     (cs_outputBlocked s \<or> (\<exists>cs. sent tail = map (chunk reqID) cs \<and> push_all ds (NewOutputFilter m) = (concat cs, cs_filter s) \<and>
        \<not> f_blocked (cs_filter s))))"

lemma delivered_on_delta:
  assumes "delivered reqID m t0 ds s"
  shows "delivered reqID m t0 (ds @ [d]) (on_delta E reqID d s)"
proof (cases "cs_outputBlocked s")
  case True
  then show ?thesis using assms by (simp add: delivered_def on_delta_def)
next
  case False
  obtain tail cs where t: "cs_trace s = t0 @ tail" "TMetric ''ok'' \<notin> set tail" "sent tail = map (chunk reqID) cs"
      and push: "push_all ds (NewOutputFilter m) = (concat cs, cs_filter s)"
    using assms False by (auto simp: delivered_def)
  obtain emit blocked fb f where p: "filter_Push d (cs_filter s) = ((emit, blocked, fb), f)" by (metis prod_cases3 surj_pair)
  note push' = push_all_snoc[OF push p] and bl = filter_Push_blocked[OF p]
  let ?t = "tail @ (if cs_firstDelta s then [TFirstToken (re_now E (cs_world s) - cs_start s)] else [])"
  consider "blocked" | "\<not> blocked" "emit \<noteq> []" | "\<not> blocked" "emit = []" by blast
  then show ?thesis
  proof cases
    case 1
    then show ?thesis using False t p by (simp add: delivered_def on_delta_def Let_def)
  next
    case 2
    then show ?thesis unfolding delivered_def
      by (intro exI[of _ "?t @ [TSend (chunk reqID emit)]"]) (use False t p push' bl in \<open>auto simp: on_delta_def Let_def intro!: exI[of _ "cs @ [emit]"]\<close>)
  next
    case 3
    then show ?thesis unfolding delivered_def
      by (intro exI[of _ ?t]) (use False t p push' bl in \<open>auto simp: on_delta_def Let_def\<close>)
  qed
qed

lemma flush_conserves:
  assumes "push_all ds (NewOutputFilter m) = (a, f)" "\<not> f_blocked f" "filter_Flush f = ((e, False, fb), f')"
  shows "a @ e = concat ds"
proof -
  have "a @ f_buf f = concat ds" using push_all_conserves[OF assms(1)] assms(2) by (simp add: NewOutputFilter_def)
  moreover have d: "drain True f = ((e, False, fb), f')" using assms(2,3) by (simp add: filter_Flush_def)
  ultimately show ?thesis using drain_cases(3,4)[OF d assms(2)] by simp
qed

text \<open>The frames of a request that ended with the label \<open>ok\<close>.\<close>

definition answered :: "string \<Rightarrow> string list \<Rightarrow> call list \<Rightarrow> bool" where
  "answered reqID ds tr \<longleftrightarrow> (\<exists>cs conv n. sent tr = map (chunk reqID) cs @ [done_envelope reqID conv n] \<and> concat cs = concat ds)"

lemma chat_finish_answers:
  assumes "delivered reqID m t0 ds s" "TMetric ''ok'' \<notin> set t0" "TMetric ''ok'' \<in> set (cs_trace (chat_finish E reqID result s))"
  shows "\<exists>post. cs_trace (chat_finish E reqID result s) = t0 @ post \<and> answered reqID ds post"
proof -
  obtain tail where tail: "cs_trace s = t0 @ tail" "TMetric ''ok'' \<notin> set tail" using assms(1) by (auto simp: delivered_def)
  have ub: "\<not> cs_outputBlocked s" using assms(2,3) tail by (auto simp: chat_finish_def)
  then obtain cs where cs: "sent tail = map (chunk reqID) cs" "push_all ds (NewOutputFilter m) = (concat cs, cs_filter s)" "\<not> f_blocked (cs_filter s)"
    using assms(1) tail by (auto simp: delivered_def)
  obtain emit b fb f where f: "filter_Flush (cs_filter s) = ((emit, b, fb), f)" by (metis prod_cases3 surj_pair)
  have nb: "\<not> b" using assms(2,3) tail ub f by (auto simp: chat_finish_def Let_def)
  have "concat (cs @ (if emit = [] then [] else [emit])) = concat ds" using flush_conserves[OF cs(2,3)] f nb by auto
  moreover have "cs_trace (chat_finish E reqID result s) = t0 @ tail @ (if emit = [] then [] else [TSend (chunk reqID emit)]) @
      [TSend (done_envelope reqID (res_ConversationID result) (res_TotalTokens result)), TMetric ''ok'']"
    using tail(1) ub f nb by (simp add: chat_finish_def Let_def)
  ultimately show ?thesis
    using cs(1) unfolding answered_def
    by (intro exI conjI[rotated] exI[of _ "cs @ (if emit = [] then [] else [emit])"]) auto
qed

lemma delivered_quietly:
  assumes "delivered reqID m t0 ds s" "cs_trace s' = cs_trace s @ q" "sent q = []" "TMetric ''ok'' \<notin> set q"
    and "cs_filter s' = cs_filter s" "cs_outputBlocked s' = cs_outputBlocked s"
  shows "delivered reqID m t0 ds s'"
proof -
  obtain tail where "cs_trace s = t0 @ tail" "TMetric ''ok'' \<notin> set tail"
      "cs_outputBlocked s \<or> (\<exists>cs. sent tail = map (chunk reqID) cs \<and> push_all ds (NewOutputFilter m) = (concat cs, cs_filter s) \<and> \<not> f_blocked (cs_filter s))"
    using assms(1) by (auto simp: delivered_def)
  then show ?thesis unfolding delivered_def using assms(2-6) by (intro exI[of _ "tail @ q"]) simp
qed

lemma chat_failed_not_ok:
  "TMetric ''ok'' \<notin> set (cs_trace s) \<Longrightarrow> TMetric ''ok'' \<notin> set (cs_trace (chat_failed h E L S D reqID p n result e s))"
  by (auto simp: chat_failed_def persistConversation_def split: option.splits)

lemma chat_succeeded_answers:
  assumes "delivered reqID m t0 ds s" "TMetric ''ok'' \<notin> set t0" "TMetric ''ok'' \<in> set (cs_trace (chat_succeeded h E L S reqID p n result s))"
  shows "\<exists>post. cs_trace (chat_succeeded h E L S reqID p n result s) = t0 @ post \<and> answered reqID ds post"
proof -
  obtain e s1 s2 d s3 where r: "recordSuccess L p (res_TotalTokens result) s = (e, s1)"
    and s2: "s2 = (if 0 < res_TotalTokens result then note_call (TTokens (res_TotalTokens result)) s1 else s1)"
    and st: "do_set S False p n (res_ConversationID result) (h_conversationTTL h) s2 = (d, s3)"
    and eq: "chat_succeeded h E L S reqID p n result s =
       (if e \<noteq> None then send_error E reqID ''INTERNAL'' ''usage accounting failed'' ''error'' s1
        else if res_ConversationID result = [] then chat_finish E reqID result s2
        else if d \<noteq> None then send_error E reqID ''INTERNAL'' ''conversation state unavailable'' ''error'' s3
        else chat_finish E reqID result s3)"
    by (rule chat_succeeded_ran)
  note r' = recordSuccess_trace[OF r] and st' = do_set_trace[OF st]
  have s2': "delivered reqID m t0 ds s2"
    by (rule delivered_quietly[OF assms(1), where q = "TRecord p (res_TotalTokens result) # (if 0 < res_TotalTokens result then [TTokens (res_TotalTokens result)] else [])"])
      (use r' in \<open>simp_all add: s2 note_call_def\<close>)
  have s3: "delivered reqID m t0 ds s3" by (rule delivered_quietly[OF s2', where q = "[TSet p n (res_ConversationID result)]"]) (use st' in simp_all)
  have none: "TMetric ''ok'' \<notin> set (cs_trace s)" "TMetric ''ok'' \<notin> set (cs_trace s3)" using assms(1,2) s3 by (auto simp: delivered_def)
  show ?thesis
    using assms(3) chat_finish_answers[OF s2' assms(2), of E result] chat_finish_answers[OF s3 assms(2), of E result] none r'
    unfolding eq by (auto split: if_splits)
qed

lemma chat_stream_answers:
  assumes body: "reads_body H E lines content"
    and c: "chat_stream h E L S (router_dify H Hb base maxB mu pe r) reqID p n query inputs conv s = Some s'"
    and ok: "TMetric ''ok'' \<notin> set (cs_trace s)" "TMetric ''ok'' \<in> set (cs_trace s')"
  shows "\<exists>resp post. response_to H r (upstream_req p n query inputs conv) resp \<and>
     cs_trace s' = cs_trace s @ TStream (upstream_req p n query inputs conv) # post \<and> answered reqID (answers_of (decodeEvent H) (content (Body resp))) post"
proof -
  let ?req = "upstream_req p n query inputs conv" and ?D = "router_dify H Hb base maxB mu pe r"
  let ?s0 = "stream_start h E ?req s" and ?s1 = "upstream_latency E"
  let ?I = "delivered reqID (h_moderator h) (cs_trace s @ [TStream ?req])"
  obtain result err s1 where d: "router_ChatStream (stream_http H) base maxB r ?req on_event (on_delta E reqID) ?s0 = Some ((result, err), s1)"
    and s': "s' = (case err of Some e \<Rightarrow> chat_failed h E L S ?D reqID p n result e (?s1 s1) | None \<Rightarrow> chat_succeeded h E L S reqID p n result (?s1 s1))"
    using chat_stream_ran[OF c, simplified] .
  have t0: "TMetric ''ok'' \<notin> set (cs_trace s @ [TStream ?req])" using ok(1) by simp
  have I0: "?I [] ?s0" unfolding delivered_def by (rule exI[of _ "[]"]) (simp add: NewOutputFilter_def)
  have quiet: "?I ds (on_event t c s)" "?I ds (s\<lparr>cs_world := w\<rparr>)" if "?I ds s" for ds t c s w
    using that by (simp_all add: delivered_def on_event_def)
  have "err = None"
  proof (rule ccontr)
    assume "err \<noteq> None"
    then obtain e where e: "err = Some e" by blast
    have "\<exists>ds. ?I ds s1"
      by (rule router_stream.stream_keeps[OF d, where P = "\<lambda>s. \<exists>ds. ?I ds s"])
        (auto simp: same_locals_def intro: I0 quiet delivered_on_delta)
    then have "TMetric ''ok'' \<notin> set (cs_trace (?s1 s1))" using t0 by (auto simp: delivered_def)
    then show False using chat_failed_not_ok[of "?s1 s1" h E L S ?D reqID p n result e] ok(2) s' e by simp
  qed
  with d have d': "router_ChatStream (stream_http H) base maxB r ?req on_event (on_delta E reqID) ?s0 = Some ((result, None), s1)" by simp
  obtain resp where h: "response_to H r ?req resp" and I: "?I (answers_of (decodeEvent H) (content (Body resp))) s1"
    using router_delivers[OF body d', where Inv = ?I, OF quiet(2) quiet(1) delivered_on_delta I0] by blast
  have I1: "?I (answers_of (decodeEvent H) (content (Body resp))) (?s1 s1)"
    by (rule delivered_quietly[OF I, where q = "[TUpstreamLatency (re_now E (cs_world s1) - cs_start s1)]"]) simp_all
  obtain post where "cs_trace s' = (cs_trace s @ [TStream ?req]) @ post" "answered reqID (answers_of (decodeEvent H) (content (Body resp))) post"
    using chat_succeeded_answers[OF I1 t0, of h E L S p n result] ok(2) s' \<open>err = None\<close> by auto
  then show ?thesis using h by (intro exI conjI) auto
qed

lemma chat_resolved_streams:
  assumes "chat_resolved h E L S asm D reqID p n query conv s = Some s'" "TMetric ''ok'' \<notin> set (cs_trace s)" "TMetric ''ok'' \<in> set (cs_trace s')"
  shows "\<exists>inputs cv s2. chat_stream h E L S D reqID p n query inputs cv s2 = Some s' \<and> sent (cs_trace s2) = sent (cs_trace s) \<and>
     TMetric ''ok'' \<notin> set (cs_trace s2)"
proof (cases conv)
  case (Inl e)
  then show ?thesis using assms by (auto simp: chat_resolved_def)
next
  case (Inr cv)
  obtain inputs err w where b: "asm p n (cs_world s) = ((inputs, err), w)" by (metis prod.exhaust)
  obtain ok fb where m: "mCheckInput (h_moderator h) query = (ok, fb)" by (cases "mCheckInput (h_moderator h) query")
  let ?s2 = "note_call (TCheckInput query ok) (note_call (TBuild p n) (s\<lparr>cs_world := w\<rparr>))"
  have "chat_stream h E L S D reqID p n query inputs cv ?s2 = Some s'"
    using assms Inr b m by (auto simp: chat_resolved_def Let_def split: if_splits)
  moreover have "sent (cs_trace ?s2) = sent (cs_trace s)" "TMetric ''ok'' \<notin> set (cs_trace ?s2)" using assms(2) by simp_all
  ultimately show ?thesis by blast
qed

lemma resolveConversation_no_ok:
  assumes "resolveConversation h E S p n cc s = Some (conv, u, s')" "TMetric ''ok'' \<notin> set (cs_trace s)"
  shows "TMetric ''ok'' \<notin> set (cs_trace s')"
  using assms do_get_trace[of S p n]
  by (auto simp: resolveConversation_def split: prod.splits sum.splits if_splits option.splits dest!: do_get_trace)

lemma HandleChat_answers:
  assumes body: "reads_body H E lines content" and d: "h_dify h = Some (router_dify H Hb base maxB mu pe r)"
    and c: "HandleChat h E sess req s = Some s'" and s: "cs_trace s = []" and ok: "TMetric ''ok'' \<in> set (cs_trace s')"
  shows "\<exists>inputs conv resp. response_to H r (upstream_req (playerID sess) (TrimSpace (chat_GetNpcId req)) (TrimSpace (chat_GetQuery req)) inputs conv) resp \<and>
     answered (chat_GetRequestId req) (answers_of (decodeEvent H) (content (Body resp))) (cs_trace s')"
proof -
  let ?p = "playerID sess" and ?npc = "TrimSpace (chat_GetNpcId req)" and ?q = "TrimSpace (chat_GetQuery req)" and ?D = "router_dify H Hb base maxB mu pe r"
  obtain L S asm where parts: "h_limiter h = Some L" "h_store h = Some S" "h_contextAssembler h = Some asm"
    using c s ok d by (auto simp: HandleChat_def Let_def split: if_splits option.splits)
  obtain w where adm: "chat_admitted h E L S asm ?D (chat_GetRequestId req) ?p ?npc ?q (chat_GetConversationId req)
      (note_call (TAllow ?p True) (s\<lparr>cs_world := w\<rparr>)) = Some s'"
    using c s ok d parts by (auto simp: HandleChat_def Let_def split: if_splits prod.splits)
  define s0 where "s0 = note_call (TAllow ?p True) (s\<lparr>cs_world := w\<rparr>)"
  have s0: "sent (cs_trace s0) = []" "TMetric ''ok'' \<notin> set (cs_trace s0)" using s by (simp_all add: s0_def)
  obtain conv u s1 s2 where r: "resolveConversation h E S ?p ?npc (chat_GetConversationId req) s0 = Some (conv, u, s1)"
    and res: "chat_resolved h E L S asm ?D (chat_GetRequestId req) ?p ?npc ?q conv s1 = Some s2"
    and s': "s' = (case u of None \<Rightarrow> s2 | Some x \<Rightarrow> do_unlock S x s2)"
    using adm by (auto simp: chat_admitted_def s0_def split: option.splits)
  have s1: "sent (cs_trace s1) = []" "TMetric ''ok'' \<notin> set (cs_trace s1)"
    using resolveConversation_trace[OF r] resolveConversation_no_ok[OF r] s0 by auto
  have tr: "sent (cs_trace s') = sent (cs_trace s2)" "TMetric ''ok'' \<in> set (cs_trace s2)"
    using s' ok by (cases u; simp)+
  obtain inputs cv s3 where st: "chat_stream h E L S ?D (chat_GetRequestId req) ?p ?npc ?q inputs cv s3 = Some s2"
      and s3: "sent (cs_trace s3) = []" "TMetric ''ok'' \<notin> set (cs_trace s3)"
    using chat_resolved_streams[OF res s1(2) tr(2)] s1(1) by auto
  obtain resp post where h: "response_to H r (upstream_req ?p ?npc ?q inputs cv) resp"
      "cs_trace s2 = cs_trace s3 @ TStream (upstream_req ?p ?npc ?q inputs cv) # post"
      "answered (chat_GetRequestId req) (answers_of (decodeEvent H) (content (Body resp))) post"
    using chat_stream_answers[OF body st s3(2) tr(2)] by blast
  have "sent (cs_trace s') = sent post" using h(2) s3(1) tr(1) by simp
  then have "answered (chat_GetRequestId req) (answers_of (decodeEvent H) (content (Body resp))) (cs_trace s')"
    using h(3) by (simp add: answered_def)
  then show ?thesis using h(1) by blast
qed

section \<open>The guarantee\<close>

text \<open>C3: the player receives what Dify answered. When a chat request ends well (counted as \<open>ok\<close>), the frames are chunks and
  one done frame, and the text of the chunks, put together, is exactly the text of the message
  events of a 2xx response of Dify to this request (this player, npc and query, posted with the
  key the router selects), in order, up to the event that ended the stream: the parser,
  the retries, the output filter with its buffering, and the final flush lose nothing, repeat
  nothing and add nothing, for every moderator.\<close>

theorem chat_delivers_answer:
  assumes "reads_body H E lines content" and "h_dify h = Some (router_dify H Hb base maxB mu pe r)"
    and "HandleChat h E sess req s = Some s'" and "cs_trace s = []" and "TMetric ''ok'' \<in> set (cs_trace s')"
  shows "\<exists>inputs cid resp texts conv n.
     response_to H r (upstream_req (playerID sess) (TrimSpace (chat_GetNpcId req)) (TrimSpace (chat_GetQuery req)) inputs cid) resp \<and>
     sent (cs_trace s') = map (chunk (chat_GetRequestId req)) texts @ [done_envelope (chat_GetRequestId req) conv n] \<and>
     concat texts = concat (map ev_Answer (messages (takeWhile (Not \<circ> ends_stream) (payloads (decodeEvent H) (content (Body resp))))))"
proof -
  have "concat (filter (\<lambda>d. d \<noteq> []) xs) = concat xs" for xs :: "string list" by (induction xs) auto
  then show ?thesis using HandleChat_answers[OF assms] unfolding answered_def answers_of_def by metis
qed

lemma demo_reads: "reads_body demo_http demo_env (\<lambda>w. w) (\<lambda>_. [''data:m'', ''data:end''])"
  by (auto simp: reads_body_def demo_http_def demo_env_def split: list.splits)

theorem chat_delivers_answer_witness:
  "\<exists>s' texts conv n. demo_run AllowAll = Some s' \<and> sent (cs_trace s') = map (chunk ''r1'') texts @ [done_envelope ''r1'' conv n] \<and> concat texts = ''Hi.''"
proof -
  obtain s' where s': "demo_run AllowAll = Some s'" and ok: "TMetric ''ok'' \<in> set (cs_trace s')" using demo_trace by auto
  have "concat (map ev_Answer (messages (takeWhile (Not \<circ> ends_stream) (payloads (decodeEvent demo_http) [''data:m'', ''data:end''])))) = ''Hi.''"
    by (simp add: payloads_Cons demo_sse payloads_def[of _ "[]"] map_filter_simps demo_http_def demo_event_def messages_Cons messages_def[of "[]"])
  then show ?thesis
    using chat_delivers_answer[OF demo_reads demo_dify_eq s'[unfolded demo_run_def] _ ok] s' by (auto simp: demo_start_def demo_req_def chat_GetRequestId_def)
qed

end
