(* ===== verification/Telemetry.thy ===== *)
theory Telemetry
  imports Chat_Guarantees "HOL-Library.Multiset"
begin

text \<open>
  The metrics of \<^verbatim>\<open>internal/telemetry/telemetry.go\<close> that the chat handler moves: the request counter by status,
  the two latency histograms and the token counter, as what a trace of \<open>HandleChat\<close> adds to them. Shown:
  what one request adds, and that the requests of a process can be counted in any order.
\<close>

section \<open>Metrics of a trace\<close>

record metrics =
  RequestsTotal :: "string \<Rightarrow> nat"
  UpstreamLatencySeconds :: "int list"
  FirstTokenLatencySeconds :: "int list"
  TokensTotal :: int

text \<open>After \<open>Init\<close>, which adds 0 to the status \<open>init\<close>. A histogram is the list of its observations, in
  nanoseconds.\<close>

definition no_metrics :: metrics where
  "no_metrics = \<lparr>RequestsTotal = (\<lambda>_. 0), UpstreamLatencySeconds = [], FirstTokenLatencySeconds = [], TokensTotal = 0\<rparr>"

fun meter :: "call \<Rightarrow> metrics \<Rightarrow> metrics" where
  "meter (TMetric l) m = m\<lparr>RequestsTotal := (RequestsTotal m)(l := Suc (RequestsTotal m l))\<rparr>"
| "meter (TUpstreamLatency k) m = m\<lparr>UpstreamLatencySeconds := UpstreamLatencySeconds m @ [k]\<rparr>"
| "meter (TFirstToken k) m = m\<lparr>FirstTokenLatencySeconds := FirstTokenLatencySeconds m @ [k]\<rparr>"
| "meter (TTokens k) m = m\<lparr>TokensTotal := TokensTotal m + k\<rparr>"
| "meter _ m = m"

fun labels :: "call list \<Rightarrow> string list" where
  "labels [] = []"
| "labels (TMetric l # tr) = l # labels tr"
| "labels (_ # tr) = labels tr"

fun tokens :: "call list \<Rightarrow> int list" where
  "tokens [] = []"
| "tokens (TTokens k # tr) = k # tokens tr"
| "tokens (_ # tr) = tokens tr"

fun is_latency :: "call \<Rightarrow> bool" where
  "is_latency (TUpstreamLatency _) = True"
| "is_latency _ = False"

fun is_first :: "call \<Rightarrow> bool" where
  "is_first (TFirstToken _) = True"
| "is_first _ = False"

lemma labels_append [simp]: "labels (a @ b) = labels a @ labels b"
  by (induction a rule: labels.induct) simp_all

lemma tokens_append [simp]: "tokens (a @ b) = tokens a @ tokens b"
  by (induction a rule: tokens.induct) simp_all

lemma metered:
  "RequestsTotal (fold meter tr m) l = RequestsTotal m l + count_list (labels tr) l"
  "length (UpstreamLatencySeconds (fold meter tr m)) = length (UpstreamLatencySeconds m) + number is_latency tr"
  "length (FirstTokenLatencySeconds (fold meter tr m)) = length (FirstTokenLatencySeconds m) + number is_first tr"
  "TokensTotal (fold meter tr m) = TokensTotal m + sum_list (tokens tr)"
proof (induction tr arbitrary: m)
  case (Cons c tr)
  { case 1 show ?case using Cons(1) by (cases c) simp_all }
  { case 2 show ?case using Cons(2) by (cases c) simp_all }
  { case 3 show ?case using Cons(3) by (cases c) simp_all }
  { case 4 show ?case using Cons(4) by (cases c) simp_all }
qed simp_all

section \<open>The status of a request\<close>

text \<open>The statuses a frame that ends a request may be counted under.\<close>

fun status_of :: "ServerEnvelope \<Rightarrow> string set" where
  "status_of (ServerEnvelope_Done _) = {''ok'', ''stopped''}"
| "status_of (ServerEnvelope_Blocked _) = {''blocked''}"
| "status_of (ServerEnvelope_Error _) = {''error'', ''bad_request'', ''rate_limited''}"
| "status_of _ = {}"

definition tallied :: "call list \<Rightarrow> bool" where
  "tallied tr \<longleftrightarrow> list_all2 (\<lambda>e l. l \<in> status_of e) (filter is_terminal (sent tr)) (labels tr)"

lemma status_of_frames [simp]:
  "status_of (errorMsg r c m) = {''error'', ''bad_request'', ''rate_limited''}" "status_of (blockedEnvelope r f) = {''blocked''}"
  "status_of (done_envelope r v n) = {''ok'', ''stopped''}"
  by (simp_all add: envelope_defs Let_def)

lemma tallied_Nil [simp]: "tallied []"
  by (simp add: tallied_def)

lemma tallied_append [intro]: "tallied a \<Longrightarrow> tallied b \<Longrightarrow> tallied (a @ b)"
  by (simp add: tallied_def list_all2_appendI)

lemma tallied_Cons [simp]:
  "tallied (TAllow p ok # tr) = tallied tr" "tallied (TRecord p k # tr) = tallied tr" "tallied (TRecordFailure # tr) = tallied tr"
  "tallied (TRelease # tr) = tallied tr" "tallied (TGet p n # tr) = tallied tr" "tallied (TSet p n c # tr) = tallied tr"
  "tallied (TLock p n ok # tr) = tallied tr" "tallied (TUnlock # tr) = tallied tr" "tallied (TBuild p n # tr) = tallied tr"
  "tallied (TCheckInput q ok # tr) = tallied tr" "tallied (TStream r # tr) = tallied tr" "tallied (TStopUpstream a b # tr) = tallied tr"
  "tallied (TTokens k # tr) = tallied tr" "tallied (TFirstToken i # tr) = tallied tr" "tallied (TUpstreamLatency i # tr) = tallied tr"
  "tallied (TSend (chunk rid d) # tr) = tallied tr"
  "is_terminal e \<Longrightarrow> tallied (TSend e # TMetric l # tr) \<longleftrightarrow> l \<in> status_of e \<and> tallied tr"
  by (simp_all add: tallied_def)

lemma tallied_calls:
  assumes "tallied (cs_trace s)"
  shows "tallied (cs_trace (do_unlock S u s))" "tallied (cs_trace (snd (recordSuccess L p k s)))" "tallied (cs_trace (upstream_latency E s))"
    "tallied (cs_trace (stream_start h E req s))" "tallied (cs_trace (send_blocked E reqID fb s))"
    "label \<in> {''error'', ''bad_request'', ''rate_limited''} \<Longrightarrow> tallied (cs_trace (send_error E reqID code msg label s))"
    "tallied (cs_trace (on_delta E reqID d s))"
  using assms by (auto intro!: tallied_append simp: on_delta_def Let_def split: prod.splits)

lemma tallied_failed: "tallied (cs_trace s) \<Longrightarrow> tallied (cs_trace (chat_failed h E L S D reqID p n result e s))"
  by (auto intro!: tallied_append simp: chat_failed_def split: option.splits)

lemma tallied_finish: "tallied (cs_trace s) \<Longrightarrow> tallied (cs_trace (chat_finish E reqID result s))"
  by (auto intro!: tallied_append simp: chat_finish_def Let_def split: prod.splits)

lemma tallied_succeeded:
  assumes "tallied (cs_trace s)"
  shows "tallied (cs_trace (chat_succeeded h E L S reqID p n result s))"
proof -
  obtain e s1 s2 d s3 where r: "recordSuccess L p (res_TotalTokens result) s = (e, s1)"
    and s2: "s2 = (if 0 < res_TotalTokens result then note_call (TTokens (res_TotalTokens result)) s1 else s1)"
    and st: "do_set S False p n (res_ConversationID result) (h_conversationTTL h) s2 = (d, s3)"
    and eq: "chat_succeeded h E L S reqID p n result s =
       (if e \<noteq> None then send_error E reqID ''INTERNAL'' ''usage accounting failed'' ''error'' s1
        else if res_ConversationID result = [] then chat_finish E reqID result s2
        else if d \<noteq> None then send_error E reqID ''INTERNAL'' ''conversation state unavailable'' ''error'' s3
        else chat_finish E reqID result s3)"
    by (rule chat_succeeded_ran)
  have "tallied (cs_trace s1)" "tallied (cs_trace s2)" "tallied (cs_trace s3)"
    using assms recordSuccess_trace[OF r] do_set_trace[OF st] by (auto intro!: tallied_append simp: s2)
  then show ?thesis unfolding eq using tallied_finish tallied_calls(6) by auto
qed

section \<open>What one request adds\<close>

text \<open>A trace that moves no metric but the request counter, as before the upstream call.\<close>

definition plain :: "call list \<Rightarrow> bool" where
  "plain tr \<longleftrightarrow> tallied tr \<and> number is_stream tr = 0 \<and> number is_latency tr = 0 \<and> number is_first tr = 0 \<and> tokens tr = [] \<and>
     filter is_chunk (sent tr) = []"

definition metered_ok :: "string \<Rightarrow> call list \<Rightarrow> bool" where
  "metered_ok p tr \<longleftrightarrow> tallied tr \<and> number is_latency tr = number is_stream tr \<and> number is_first tr \<le> number is_stream tr \<and>
     (filter is_chunk (sent tr) \<noteq> [] \<longrightarrow> number is_first tr = 1) \<and> (tokens tr = [] \<or> (\<exists>k > 0. tokens tr = [k] \<and> TRecord p k \<in> set tr))"

lemma plain_append [simp]: "plain a \<Longrightarrow> plain (a @ b) \<longleftrightarrow> plain b"
  by (auto simp: plain_def tallied_def list_all2_append dest: list_all2_lengthD intro: list_all2_appendI)

lemma plain_Cons [simp]:
  "plain []" "plain (TAllow p ok # tr) = plain tr" "plain (TRecord p k # tr) = plain tr" "plain (TRecordFailure # tr) = plain tr"
  "plain (TRelease # tr) = plain tr" "plain (TGet p n # tr) = plain tr" "plain (TSet p n c # tr) = plain tr"
  "plain (TLock p n ok # tr) = plain tr" "plain (TUnlock # tr) = plain tr" "plain (TBuild p n # tr) = plain tr"
  "plain (TCheckInput q ok # tr) = plain tr" "plain (TStopUpstream a b # tr) = plain tr"
  "plain (TSend (errorMsg rid c m) # TMetric l # tr) \<longleftrightarrow> l \<in> {''error'', ''bad_request'', ''rate_limited''} \<and> plain tr"
  "plain (TSend (blockedEnvelope rid fb) # TMetric l # tr) \<longleftrightarrow> l = ''blocked'' \<and> plain tr"
  "plain (TSend (done_envelope rid v k) # TMetric l # tr) \<longleftrightarrow> l \<in> {''ok'', ''stopped''} \<and> plain tr"
  by (auto simp: plain_def)

lemma plain_metered: "plain tr \<Longrightarrow> metered_ok p tr"
  by (simp add: plain_def metered_ok_def)

lemma metered_plain: "metered_ok p tr \<Longrightarrow> plain post \<Longrightarrow> metered_ok p (tr @ post)"
  by (auto simp: plain_def metered_ok_def)

text \<open>While the stream runs.\<close>

definition paced :: "'w chat_state \<Rightarrow> bool" where
  "paced s \<longleftrightarrow> (if cs_firstDelta s then number is_first (cs_trace s) = 0 \<and> filter is_chunk (sent (cs_trace s)) = [] \<and> f_buf (cs_filter s) = []
     else number is_first (cs_trace s) = 1)"

definition underway :: "'w chat_state \<Rightarrow> bool" where
  "underway s \<longleftrightarrow> tallied (cs_trace s) \<and> number is_stream (cs_trace s) = 1 \<and> number is_latency (cs_trace s) = 0 \<and> tokens (cs_trace s) = [] \<and> paced s"

lemma first_delta_simps [simp]:
  "\<not> cs_firstDelta (first_token E s)" "cs_firstDelta (do_send E e s) = cs_firstDelta s" "cs_firstDelta (send_blocked E r fb s) = cs_firstDelta s"
  by (simp_all add: first_token_def do_send_def send_blocked_def metric_def note_call_def)

lemma underway_on_delta:
  assumes "underway s"
  shows "underway (on_delta E reqID d s)"
proof (cases "cs_outputBlocked s")
  case False
  obtain emit blocked fb f where p: "filter_Push d (cs_filter s) = ((emit, blocked, fb), f)" by (metis prod_cases3 surj_pair)
  show ?thesis
    using assms False tallied_calls(7)[of s E reqID d] p
    by (cases "cs_firstDelta s"; cases blocked) (auto simp: underway_def paced_def on_delta_def Let_def)
qed (use assms in \<open>simp add: on_delta_def\<close>)

lemma underway_event: "underway (on_event t c s) = underway s"
  by (simp add: underway_def paced_def on_event_def)

lemma underway_world: "underway (s\<lparr>cs_world := w\<rparr>) = underway s"
  by (simp add: underway_def paced_def)

lemma chat_failed_plain: "\<exists>post. cs_trace (chat_failed h E L S D reqID p n result e s) = cs_trace s @ post \<and> plain post"
  by (auto simp: chat_failed_def split: option.splits)

lemma chat_finish_metered:
  assumes "metered_ok p (cs_trace s)" "number is_first (cs_trace s) = 1 \<or> f_buf (cs_filter s) = []"
  shows "metered_ok p (cs_trace (chat_finish E reqID result s))"
proof -
  obtain emit blocked fb f where q: "filter_Flush (cs_filter s) = ((emit, blocked, fb), f)" by (metis prod_cases3 surj_pair)
  have "emit = []" if "f_buf (cs_filter s) = []" using that q by (auto simp: filter_Flush_def drain_def split: if_splits)
  then show ?thesis
    using assms q tallied_finish[of s E reqID result] by (auto simp: metered_ok_def chat_finish_def Let_def)
qed

lemma chat_succeeded_metered:
  assumes "underway s"
  shows "metered_ok p (cs_trace (chat_succeeded h E L S reqID p n result (upstream_latency E s)))"
proof -
  let ?s = "upstream_latency E s"
  obtain e s1 s2 d s3 where r: "recordSuccess L p (res_TotalTokens result) ?s = (e, s1)"
    and s2: "s2 = (if 0 < res_TotalTokens result then note_call (TTokens (res_TotalTokens result)) s1 else s1)"
    and st: "do_set S False p n (res_ConversationID result) (h_conversationTTL h) s2 = (d, s3)"
    and eq: "chat_succeeded h E L S reqID p n result ?s =
       (if e \<noteq> None then send_error E reqID ''INTERNAL'' ''usage accounting failed'' ''error'' s1
        else if res_ConversationID result = [] then chat_finish E reqID result s2
        else if d \<noteq> None then send_error E reqID ''INTERNAL'' ''conversation state unavailable'' ''error'' s3
        else chat_finish E reqID result s3)"
    by (rule chat_succeeded_ran)
  note r' = recordSuccess_trace[OF r] and st' = do_set_trace[OF st]
  have pace: "number is_first (cs_trace s) = 1 \<or> number is_first (cs_trace s) = 0 \<and> filter is_chunk (sent (cs_trace s)) = [] \<and> f_buf (cs_filter s) = []"
    using assms by (auto simp: underway_def paced_def split: if_splits)
  have ok: "metered_ok p (cs_trace s1)" "metered_ok p (cs_trace s2)" "metered_ok p (cs_trace s3)"
    using assms pace r' st' by (auto simp: metered_ok_def underway_def s2)
  have flush: "number is_first (cs_trace x) = 1 \<or> f_buf (cs_filter x) = []" if "x \<in> {s2, s3}" for x
    using that pace r' st' by (auto simp: s2)
  have err: "metered_ok p (cs_trace (send_error E reqID c m ''error'' x))" if "metered_ok p (cs_trace x)" for c m x
    using metered_plain[OF that, of "[TSend (errorMsg reqID c m), TMetric ''error'']"] by (simp add: plain_def)
  show ?thesis unfolding eq using ok err chat_finish_metered[OF ok(2)] chat_finish_metered[OF ok(3)] flush by simp
qed

lemma chat_stream_metered:
  assumes "plain (cs_trace s)" "chat_stream h E L S (router_dify H Hb base maxB mu pe r) reqID p n query inputs conv s = Some s'"
  shows "metered_ok p (cs_trace s')"
proof -
  let ?req = "upstream_req p n query inputs conv" and ?D = "router_dify H Hb base maxB mu pe r"
  obtain result err s1 where d: "router_ChatStream (stream_http H) base maxB r ?req on_event (on_delta E reqID) (stream_start h E ?req s) = Some ((result, err), s1)"
    and s': "s' = (case err of Some e \<Rightarrow> chat_failed h E L S ?D reqID p n result e (upstream_latency E s1)
       | None \<Rightarrow> chat_succeeded h E L S reqID p n result (upstream_latency E s1))"
    using chat_stream_ran[OF assms(2), simplified] .
  have "underway (stream_start h E ?req s)"
    using assms(1) by (auto simp: underway_def paced_def plain_def stream_start_def note_call_def NewOutputFilter_def)
  then have u: "underway s1"
    by (intro router_stream.stream_keeps[OF d, where P = underway])
      (auto simp: underway_on_delta underway_event underway_world same_locals_def)
  have "metered_ok p (cs_trace (upstream_latency E s1))"
    using u by (auto simp: underway_def paced_def metered_ok_def split: if_splits)
  then have "metered_ok p (cs_trace (chat_failed h E L S ?D reqID p n result e (upstream_latency E s1)))" for e
    using chat_failed_plain[of h E L S ?D reqID p n result e "upstream_latency E s1"] metered_plain by metis
  then show ?thesis using s' chat_succeeded_metered[OF u] by (cases err) auto
qed

lemma chat_resolved_metered:
  assumes "plain (cs_trace s)" "chat_resolved h E L S asm (router_dify H Hb base maxB mu pe r) reqID p n query conv s = Some s'"
  shows "metered_ok p (cs_trace s')"
proof (cases "plain (cs_trace s')")
  case False
  obtain cid where "conv = Inr cid" using assms False by (cases conv) (auto simp: chat_resolved_def)
  obtain inputs err w where a: "asm p n (cs_world s) = ((inputs, err), w)" by (metis surj_pair)
  let ?s2 = "note_call (TCheckInput query True) (note_call (TBuild p n) (s\<lparr>cs_world := w\<rparr>))"
  have "chat_stream h E L S (router_dify H Hb base maxB mu pe r) reqID p n query inputs cid ?s2 = Some s'"
    using assms False \<open>conv = Inr cid\<close> a by (auto simp: chat_resolved_def Let_def split: if_splits prod.splits)
  then show ?thesis by (rule chat_stream_metered[rotated]) (use assms(1) in simp)
qed (rule plain_metered)

lemma resolveConversation_plain:
  assumes "plain (cs_trace s)" "resolveConversation h E S p n cc s = Some (conv, u, s')"
  shows "plain (cs_trace s')"
  using assms by (auto simp: resolveConversation_def split: prod.splits sum.splits if_splits option.splits dest!: do_get_trace)

lemma HandleChat_metered:
  assumes "h_dify h = Some (router_dify H Hb base maxB mu pe r)" "HandleChat h E sess req s = Some s'" "cs_trace s = []"
  shows "metered_ok (playerID sess) (cs_trace s')"
proof (cases "plain (cs_trace s')")
  case False
  let ?n = "TrimSpace (chat_GetNpcId req)" and ?D = "router_dify H Hb base maxB mu pe r" and ?s1 = "\<lambda>w. note_call (TAllow (playerID sess) True) (s\<lparr>cs_world := w\<rparr>)"
  obtain L S asm w where "chat_admitted h E L S asm ?D (chat_GetRequestId req) (playerID sess) ?n (TrimSpace (chat_GetQuery req)) (chat_GetConversationId req) (?s1 w) = Some s'"
    using assms False by (auto simp: HandleChat_def Let_def split: if_splits option.splits prod.splits)
  then obtain conv u s2 s3 where res: "resolveConversation h E S (playerID sess) ?n (chat_GetConversationId req) (?s1 w) = Some (conv, u, s2)"
    and c: "chat_resolved h E L S asm ?D (chat_GetRequestId req) (playerID sess) ?n (TrimSpace (chat_GetQuery req)) conv s2 = Some s3"
    and s': "s' = (case u of None \<Rightarrow> s3 | Some x \<Rightarrow> do_unlock S x s3)"
    by (auto simp: chat_admitted_def split: option.splits)
  have "plain (cs_trace s2)" by (rule resolveConversation_plain[OF _ res]) (simp add: assms(3))
  then have "metered_ok (playerID sess) (cs_trace s3)" by (rule chat_resolved_metered[OF _ c])
  then show ?thesis using s' metered_plain[of "playerID sess" "cs_trace s3" "[TUnlock]"] by (cases u) simp_all
qed (rule plain_metered)

section \<open>Requests side by side\<close>

text \<open>The metrics are shared by all goroutines and only ever added to, so the order in which the calls of
  different requests reach them does not matter.\<close>

lemma number_perm: "mset tr = mset tr' \<Longrightarrow> number P tr = number P tr'"
  unfolding number_def by (metis mset_filter size_mset)

lemma count_labels: "count_list (labels tr) l = number (\<lambda>c. c = TMetric l) tr"
  by (induction tr rule: labels.induct) simp_all

lemma sum_tokens: "sum_list (tokens tr) = (\<Sum>c\<in>#mset tr. case c of TTokens k \<Rightarrow> k | _ \<Rightarrow> 0)"
  by (induction tr rule: tokens.induct) simp_all

lemma sum_tokens_perm: "mset tr = mset tr' \<Longrightarrow> sum_list (tokens tr) = sum_list (tokens tr')"
  by (simp add: sum_tokens)

lemma number_concat: "number P (concat trs) = (\<Sum>tr\<leftarrow>trs. number P tr)"
  by (induction trs) simp_all

lemma tokens_concat: "sum_list (tokens (concat trs)) = (\<Sum>tr\<leftarrow>trs. sum_list (tokens tr))"
  by (induction trs) simp_all

lemma metered_interleaved:
  assumes "mset tr = mset (concat trs)"
  shows "RequestsTotal (fold meter tr m) l = RequestsTotal m l + (\<Sum>t\<leftarrow>trs. count_list (labels t) l)"
    and "length (UpstreamLatencySeconds (fold meter tr m)) = length (UpstreamLatencySeconds m) + (\<Sum>t\<leftarrow>trs. number is_latency t)"
    and "length (FirstTokenLatencySeconds (fold meter tr m)) = length (FirstTokenLatencySeconds m) + (\<Sum>t\<leftarrow>trs. number is_first t)"
    and "TokensTotal (fold meter tr m) = TokensTotal m + (\<Sum>t\<leftarrow>trs. sum_list (tokens t))"
  using number_perm[OF assms] sum_tokens_perm[OF assms] by (simp_all add: metered count_labels number_concat tokens_concat)

section \<open>The limiter's counter\<close>

text \<open>\<open>RateLimitedTotal\<close> counts the refusals by a limit, and not those because Redis failed or the arguments are wrong;
  \<open>HandleChat\<close> reports all of them under the status \<open>rate_limited\<close>.\<close>

definition limit_errors :: "limiter_error set" where
  "limit_errors = {ErrRateLimited, ErrBudgetExceeded, ErrInflightFull, ErrCircuitOpen}"

lemma round_trip_counters:
  "acquireInflight R now l s = (e, l', s') \<Longrightarrow> rateLimitedTotal l' = rateLimitedTotal l \<and> (\<forall>x. e = Some x \<longrightarrow> (x \<in> limit_errors \<longleftrightarrow> x = ErrInflightFull))"
  "releaseInflight R now l s = (e, l', s') \<Longrightarrow> rateLimitedTotal l' = rateLimitedTotal l"
  "allowRate R now p l s = (e, l', s') \<Longrightarrow> rateLimitedTotal l' = rateLimitedTotal l \<and> (\<forall>x. e = Some x \<longrightarrow> (x \<in> limit_errors \<longleftrightarrow> x = ErrRateLimited))"
  "checkBudget R now p n l s = (e, s') \<Longrightarrow> \<forall>x. e = Some x \<longrightarrow> (x \<in> limit_errors \<longleftrightarrow> x = ErrBudgetExceeded)"
  by (auto simp: acquireInflight_def releaseInflight_def allowRate_def checkBudget_def currentBudget_def limit_errors_def next_serial_def Let_def
      split: prod.splits sum.splits if_splits option.splits)

lemma Allow_counts_refusals:
  assumes "limiter_Allow R now p n l s = ((ok, e), l', s')"
  shows "rateLimitedTotal l' = rateLimitedTotal l + (if \<exists>x \<in> limit_errors. e = Some x then 1 else 0)"
proof -
  have le: "ErrCircuitOpen \<in> limit_errors" "LimiterErr m \<notin> limit_errors" for m by (simp_all add: limit_errors_def)
  obtain eb s1 where b: "checkBudget R now (TrimSpace p) n l s = (eb, s1)" by (cases "checkBudget R now (TrimSpace p) n l s")
  obtain adm c where c: "circuit_allow (now s1) (circuit l) = (adm, c)" by (cases "circuit_allow (now s1) (circuit l)")
  obtain ea l2 s2 where a: "acquireInflight R now (l\<lparr>circuit := c\<rparr>) s1 = (ea, l2, s2)" by (metis surj_pair)
  obtain er l3 s3 where r: "allowRate R now (TrimSpace p) l2 s2 = (er, l3, s3)" by (metis surj_pair)
  obtain ef l4 s4 where f: "releaseInflight R now l3 s3 = (ef, l4, s4)" by (metis surj_pair)
  note counts = round_trip_counters(4)[OF b] round_trip_counters(1)[OF a] round_trip_counters(3)[OF r] round_trip_counters(2)[OF f]
  show ?thesis
    using assms counts le b c a r f
    by (auto simp: limiter_Allow_def Let_def countLimited_def onCircuit_def split: if_splits option.splits bool.splits)
qed

section \<open>The guarantee\<close>

text \<open>C21: what a chat request adds to the metrics. Each frame that ends the request is counted once in
  \<open>RequestsTotal\<close>, under a status that fits the frame, and nothing else is counted there: one status, or two
  when a blocked frame is followed by another one. \<open>UpstreamLatencySeconds\<close> gets one observation for each upstream call,
  also for a failed one, \<open>FirstTokenLatencySeconds\<close> at most one, and exactly one if the client received any text.
  \<open>TokensTotal\<close> grows by a positive amount that was recorded for the player, or not at all.\<close>

theorem requests_counted:
  assumes "h_dify h = Some (router_dify H Hb base maxB mu pe r)"
    and "HandleChat h E sess req s = Some s'" and "cs_trace s = []"
  shows "let m' = fold meter (cs_trace s') m in
    (\<exists>statuses. list_all2 (\<lambda>frame st. st \<in> status_of frame) (filter is_terminal (sent (cs_trace s'))) statuses \<and>
       (length statuses = 1 \<or> length statuses = 2 \<and> hd statuses = ''blocked'') \<and>
       (\<forall>st. RequestsTotal m' st = RequestsTotal m st + count_list statuses st)) \<and>
    length (UpstreamLatencySeconds m') = length (UpstreamLatencySeconds m) + number is_stream (cs_trace s') \<and>
    (\<exists>k \<le> number is_stream (cs_trace s'). length (FirstTokenLatencySeconds m') = length (FirstTokenLatencySeconds m) + k \<and>
       (filter is_chunk (sent (cs_trace s')) \<noteq> [] \<longrightarrow> k = 1)) \<and>
    (TokensTotal m' = TokensTotal m \<or> (\<exists>k > 0. TokensTotal m' = TokensTotal m + k \<and> TRecord (playerID sess) k \<in> set (cs_trace s')))"
proof -
  have ok: "metered_ok (playerID sess) (cs_trace s')" by (rule HandleChat_metered[OF assms])
  obtain texts last where f: "sent (cs_trace s') = map (chunk (chat_GetRequestId req)) texts @ last" "\<forall>e \<in> set last. closes (chat_GetRequestId req) e"
    "length last = 1 \<or> (\<exists>fb e. last = [blockedEnvelope (chat_GetRequestId req) fb, e])"
    using HandleChat_trace[OF router_ready[OF assms(1)] assms(2)] assms(3) by (auto simp: chat_frames_def ends_with_def)
  have "is_terminal e" if "closes rid e" for rid e using that by (cases e) simp_all
  then have "filter is_terminal (sent (cs_trace s')) = last" using f(1,2) by (auto simp: filter_id_conv)
  then have t: "list_all2 (\<lambda>frame st. st \<in> status_of frame) last (labels (cs_trace s'))" using ok by (simp add: metered_ok_def tallied_def)
  then have "length (labels (cs_trace s')) = 1 \<or> length (labels (cs_trace s')) = 2 \<and> hd (labels (cs_trace s')) = ''blocked''"
    using f(3) list_all2_lengthD[OF t] by (auto simp: list_all2_Cons1)
  then show ?thesis
    unfolding Let_def using ok t \<open>filter is_terminal _ = last\<close>
    by (intro conjI exI[of _ "labels (cs_trace s')"] exI[of _ "number is_first (cs_trace s')"]) (auto simp: metered metered_ok_def)
qed

theorem requests_counted_witness:
  "\<exists>s'. demo_run AllowAll = Some s' \<and> (let m' = fold meter (cs_trace s') no_metrics in
     (\<Sum>st\<leftarrow>[''ok'', ''stopped'']. RequestsTotal m' st) = 1 \<and> length (UpstreamLatencySeconds m') = 1 \<and>
     length (FirstTokenLatencySeconds m') = 1 \<and> TokensTotal m' = 5)"
proof -
  obtain s' where s': "demo_run AllowAll = Some s'" and f: "filter is_terminal (sent (cs_trace s')) = [done_envelope ''r1'' ''c'' 5]"
    "filter is_chunk (sent (cs_trace s')) \<noteq> []" "number is_stream (cs_trace s') = 1" "tokens (cs_trace s') = [5]"
    using demo_trace by auto
  define m' where "m' = fold meter (cs_trace s') no_metrics"
  have c: "cs_trace demo_start = []" by (simp add: demo_start_def)
  have "TokensTotal m' = 5" using f(4) by (simp add: m'_def metered no_metrics_def)
  moreover from requests_counted[OF demo_dify_eq s'[unfolded demo_run_def] c, of no_metrics]
  obtain sts where "list_all2 (\<lambda>frame st. st \<in> status_of frame) [done_envelope ''r1'' ''c'' 5] sts"
      "\<forall>st. RequestsTotal m' st = count_list sts st" "length (UpstreamLatencySeconds m') = 1" "length (FirstTokenLatencySeconds m') = 1"
    unfolding Let_def m'_def[symmetric] f(1,3) using f(2) by (auto simp: no_metrics_def)
  ultimately show ?thesis using s' by (auto simp: Let_def m'_def list_all2_Cons1)
qed

end
