(* ===== verification/Server.thy ===== *)
theory Server
  imports Access_Guarantees
begin

text \<open>
  All connections of a server (\<^verbatim>\<open>internal/listener/listener.go\<close>). \<open>ListenAndServe\<close> starts one \<open>ServeConn\<close> goroutine for each
  connection; they share the id counter \<open>connSeq\<close>, the gauge \<open>ActiveConnections\<close> of the telemetry and the world behind the
  handler (Redis, the clock). \<open>server_step\<close> interleaves their steps. Shown: connection ids are unique, the
  gauge is the number of connections being served, every connection keeps its guarantees beside the
  others, and the server can always be drained.
\<close>

section \<open>The server\<close>

text \<open>A \<open>ServeConn\<close> goroutine that has drawn its id, or one that has counted itself and serves.\<close>

datatype 'w serving = Named (conn_id: string) string | Served (conn_id: string) "'w conn"

record 'w server_sys =
  sv_server :: server
  sv_threads :: "'w serving list"
  sv_active :: int
  sv_world :: 'w

definition server_start :: "server \<Rightarrow> 'w \<Rightarrow> 'w server_sys" where
  "server_start s w = \<lparr>sv_server = s, sv_threads = [], sv_active = 0, sv_world = w\<rparr>"

text \<open>\<open>closed_now\<close>: the step is the end of the deferred function, which takes the connection off the gauge.\<close>

definition closed_now :: "'w conn \<Rightarrow> 'w conn \<Rightarrow> int" where
  "closed_now c c' = (if cn_phase c \<noteq> Closed \<and> cn_phase c' = Closed then 1 else 0)"

inductive server_step :: "(byte list \<Rightarrow> string + ClientEnvelope) \<Rightarrow> 'w access \<Rightarrow> 'w server_sys \<Rightarrow> 'w server_sys \<Rightarrow> bool"
  for unmarshal h where
  arrive: "nextConnID (sv_server g) = (connID, s) \<Longrightarrow>
     server_step unmarshal h g (g\<lparr>sv_server := s, sv_threads := sv_threads g @ [Named connID addr]\<rparr>)"
| begin_serving: "i < length (sv_threads g) \<Longrightarrow> sv_threads g ! i = Named connID addr \<Longrightarrow>
     server_step unmarshal h g
       (g\<lparr>sv_threads := (sv_threads g)[i := Served connID (conn_open connID addr now inp (sv_world g))], sv_active := sv_active g + 1\<rparr>)"
| run: "i < length (sv_threads g) \<Longrightarrow> sv_threads g ! i = Served connID c \<Longrightarrow>
     conn_step unmarshal h (c\<lparr>cn_world := sv_world g\<rparr>) c' \<Longrightarrow>
     server_step unmarshal h g
       (g\<lparr>sv_threads := (sv_threads g)[i := Served connID c'], sv_active := sv_active g - closed_now c c', sv_world := cn_world c'\<rparr>)"
| elsewhere: "server_step unmarshal h g (g\<lparr>sv_world := w\<rparr>)"

section \<open>Invariant\<close>

definition conn_name :: "nat \<Rightarrow> string" where
  "conn_name i = ''conn-'' @ FormatInt (uint (word_of_nat (Suc i) :: 64 word))"

lemma conn_name_inj: "i < 2 ^ 64 \<Longrightarrow> j < 2 ^ 64 \<Longrightarrow> conn_name i = conn_name j \<longleftrightarrow> i = j"
proof
  assume b: "i < 2 ^ 64" "j < 2 ^ 64" and "conn_name i = conn_name j"
  then have "uint (word_of_nat (Suc i) :: 64 word) = uint (word_of_nat (Suc j) :: 64 word)" by (simp only: conn_name_def same_append_eq FormatInt_inj)
  then have "(word_of_nat (Suc i) :: 64 word) = word_of_nat (Suc j)" by (simp only: word_uint_eq_iff)
  then have "(word_of_nat i :: 64 word) = word_of_nat j" by simp
  then have "unat (word_of_nat i :: 64 word) = unat (word_of_nat j :: 64 word)" by simp
  then show "i = j" using b by (simp add: unat_word_of_nat_64)
qed simp

fun is_open :: "'w serving \<Rightarrow> bool" where
  "is_open (Served _ c) \<longleftrightarrow> cn_phase c \<noteq> Closed"
| "is_open (Named _ _) \<longleftrightarrow> False"

lemma open_count_update:
  "i < length xs \<Longrightarrow> int (length (filter P (xs[i := y]))) =
     int (length (filter P xs)) + (if P y then 1 else 0) - (if P (xs ! i) then 1 else 0)"
  using arg_cong[OF id_take_nth_drop[of i xs], of "\<lambda>xs. length (filter P xs)"] by (simp add: upd_conv_take_nth_drop)

lemma closed_stays: "conn_step unmarshal h c c' \<Longrightarrow> cn_phase c = Closed \<Longrightarrow> cn_phase c' = Closed"
  by (induction rule: conn_step.induct) simp_all

context access_handler
begin

lemma conn_inv_world [simp]: "conn_inv (c\<lparr>cn_world := w\<rparr>) = conn_inv c"
  by (simp add: conn_inv_def session_ok_def jobs_ok_def reuse_ok_def out_ok_def closed_ok_def ctx_phase_def)

definition server_inv :: "'w server_sys \<Rightarrow> bool" where
  "server_inv g \<longleftrightarrow> connSeq (sv_server g) = word_of_nat (length (sv_threads g)) \<and>
     (\<forall>i < length (sv_threads g). conn_id (sv_threads g ! i) = conn_name i) \<and>
     sv_active g = int (length (filter is_open (sv_threads g))) \<and>
     (\<forall>i < length (sv_threads g). \<forall>connID c. sv_threads g ! i = Served connID c \<longrightarrow> conn_inv c)"

lemma server_inv_start: "connSeq s = 0 \<Longrightarrow> server_inv (server_start s w)"
  by (simp add: server_inv_def server_start_def)

lemma server_inv_step: "server_step unmarshal h g g' \<Longrightarrow> server_inv g \<Longrightarrow> server_inv g'"
proof (induction rule: server_step.induct)
  case (arrive g connID s addr)
  then show ?case
    by (auto simp: server_inv_def nextConnID_def Let_def conn_name_def nth_append less_Suc_eq add.commute)
next
  case (begin_serving i g connID addr now inp)
  moreover have "is_open (Served connID (conn_open connID addr now inp (sv_world g)))" by (simp add: conn_open_def)
  ultimately show ?case
    by (auto simp: server_inv_def nth_list_update open_count_update conn_inv_open)
next
  case (run i g connID c c')
  have "conn_inv c'" using conn_step_inv[OF run(3)] run(1,2,4) by (auto simp: server_inv_def)
  moreover have "cn_phase c = Closed \<Longrightarrow> cn_phase c' = Closed" using closed_stays[OF run(3)] by simp
  ultimately show ?case using run(1,2,4)
    by (auto simp: server_inv_def nth_list_update open_count_update closed_now_def)
next
  case (elsewhere g w)
  then show ?case by (simp add: server_inv_def)
qed

lemma server_steps_inv: "(server_step unmarshal h)\<^sup>*\<^sup>* g g' \<Longrightarrow> server_inv g \<Longrightarrow> server_inv g'"
  by (induction rule: rtranclp_induct) (auto intro: server_inv_step)

text \<open>Steps of one connection are steps of the server.\<close>

lemma conn_steps_lift:
  assumes "(conn_step unmarshal h)\<^sup>*\<^sup>* (c\<lparr>cn_world := sv_world g\<rparr>) c'" "i < length (sv_threads g)" "sv_threads g ! i = Served connID c"
  shows "\<exists>g' c2. (server_step unmarshal h)\<^sup>*\<^sup>* g g' \<and> sv_threads g' = (sv_threads g)[i := Served connID c2] \<and> c2\<lparr>cn_world := sv_world g'\<rparr> = c'"
  using assms(1)
proof (induction rule: rtranclp_induct)
  case base
  show ?case using assms(2,3) list_update_id[of "sv_threads g" i] by (intro exI[of _ g] exI[of _ c]) simp
next
  case (step c1 c3)
  then obtain g' c2 where g': "(server_step unmarshal h)\<^sup>*\<^sup>* g g'" "sv_threads g' = (sv_threads g)[i := Served connID c2]" "c2\<lparr>cn_world := sv_world g'\<rparr> = c1"
    by blast
  have "server_step unmarshal h g' (g'\<lparr>sv_threads := (sv_threads g')[i := Served connID c3], sv_active := sv_active g' - closed_now c2 c3, sv_world := cn_world c3\<rparr>)"
    using g'(2,3) assms(2) step(2) by (intro server_step.run[where connID = connID]) simp_all
  then show ?case using g' assms(2) by (intro exI[of _ "g'\<lparr>sv_threads := (sv_threads g')[i := Served connID c3],
      sv_active := sv_active g' - closed_now c2 c3, sv_world := cn_world c3\<rparr>"] exI[of _ c3]) auto
qed

lemma served_closes:
  assumes "server_inv g" "i < length (sv_threads g)" "sv_threads g ! i = Served connID c" "\<And>s req. \<exists>fs. aHandleChat h s req fs"
  shows "\<exists>g' c'. (server_step unmarshal h)\<^sup>*\<^sup>* g g' \<and> sv_threads g' = (sv_threads g)[i := Served connID c'] \<and> cn_phase c' = Closed"
proof -
  let ?c = "c\<lparr>cn_world := sv_world g\<rparr>"
  have inv: "conn_inv ?c" using assms(1-3) by (auto simp: server_inv_def)
  have drain: "\<exists>c'. (conn_step unmarshal h)\<^sup>*\<^sup>* x c' \<and> cn_phase c' = Closed" if "conn_inv x" "cn_phase x = Draining" for x
    using drains[OF that(1) assms(4) that(2)] by blast
  have "\<exists>c'. (conn_step unmarshal h)\<^sup>*\<^sup>* ?c c' \<and> cn_phase c' = Closed"
  proof (cases "cn_phase c")
    case Serving
    have st: "conn_step unmarshal h ?c (conn_close ?c)"
      using conn_step.serve[of ?c unmarshal h True False] Serving by (simp add: serve_once_def)
    show ?thesis
      using drain[OF conn_step_inv[OF st inv]] st by (auto simp: conn_close_def intro: converse_rtranclp_into_rtranclp)
  next
    case Draining
    then show ?thesis using drain[OF inv] by simp
  next
    case Closed
    then show ?thesis by (intro exI[of _ ?c]) simp
  qed
  then obtain c' where c': "(conn_step unmarshal h)\<^sup>*\<^sup>* ?c c'" "cn_phase c' = Closed" by blast
  obtain g' c2 where "(server_step unmarshal h)\<^sup>*\<^sup>* g g'" "sv_threads g' = (sv_threads g)[i := Served connID c2]" "c2\<lparr>cn_world := sv_world g'\<rparr> = c'"
    using conn_steps_lift[OF c'(1) assms(2,3)] by blast
  then show ?thesis using c'(2) by (intro exI[of _ g'] exI[of _ c2]) auto
qed

lemma thread_closes:
  assumes "server_inv g" "i < length (sv_threads g)" "\<And>s req. \<exists>fs. aHandleChat h s req fs"
  shows "\<exists>g' c'. (server_step unmarshal h)\<^sup>*\<^sup>* g g' \<and> sv_threads g' = (sv_threads g)[i := Served (conn_id (sv_threads g ! i)) c'] \<and> cn_phase c' = Closed"
proof (cases "sv_threads g ! i")
  case (Served connID c)
  then show ?thesis using served_closes[OF assms(1,2) Served assms(3)] by simp
next
  case (Named connID addr)
  let ?c = "conn_open connID addr 0 \<lparr>rd_bytes = [], rd_end = EOF\<rparr> (sv_world g)"
  let ?g = "g\<lparr>sv_threads := (sv_threads g)[i := Served connID ?c], sv_active := sv_active g + 1\<rparr>"
  have st: "server_step unmarshal h g ?g" by (rule server_step.begin_serving[OF assms(2) Named])
  have "\<exists>g' c'. (server_step unmarshal h)\<^sup>*\<^sup>* ?g g' \<and> sv_threads g' = (sv_threads ?g)[i := Served connID c'] \<and> cn_phase c' = Closed"
    using assms(2,3) by (intro served_closes[OF server_inv_step[OF st assms(1)]]) simp_all
  then show ?thesis using st Named by (auto intro: converse_rtranclp_into_rtranclp)
qed

lemma server_drains:
  assumes "server_inv g" "\<And>s req. \<exists>fs. aHandleChat h s req fs"
  shows "\<exists>g'. (server_step unmarshal h)\<^sup>*\<^sup>* g g' \<and> map conn_id (sv_threads g') = map conn_id (sv_threads g) \<and>
     (\<forall>i < length (sv_threads g'). \<exists>c. sv_threads g' ! i = Served (conn_id (sv_threads g ! i)) c \<and> cn_phase c = Closed) \<and> sv_active g' = 0"
proof -
  have "\<exists>g'. (server_step unmarshal h)\<^sup>*\<^sup>* g g' \<and> map conn_id (sv_threads g') = map conn_id (sv_threads g) \<and>
      (\<forall>i < k. \<exists>c. sv_threads g' ! i = Served (conn_id (sv_threads g ! i)) c \<and> cn_phase c = Closed)" if "k \<le> length (sv_threads g)" for k
    using that
  proof (induction k)
    case 0
    then show ?case by (intro exI[of _ g]) simp
  next
    case (Suc k)
    then obtain g1 where g1: "(server_step unmarshal h)\<^sup>*\<^sup>* g g1" "map conn_id (sv_threads g1) = map conn_id (sv_threads g)"
      "\<forall>i < k. \<exists>c. sv_threads g1 ! i = Served (conn_id (sv_threads g ! i)) c \<and> cn_phase c = Closed" by auto
    have k: "k < length (sv_threads g1)" "conn_id (sv_threads g1 ! k) = conn_id (sv_threads g ! k)"
      using Suc.prems g1(2) by (metis Suc_le_lessD length_map, metis Suc_le_lessD length_map nth_map)
    obtain g2 c where g2: "(server_step unmarshal h)\<^sup>*\<^sup>* g1 g2" "sv_threads g2 = (sv_threads g1)[k := Served (conn_id (sv_threads g ! k)) c]" "cn_phase c = Closed"
      using thread_closes[OF server_steps_inv[OF g1(1) assms(1)] k(1) assms(2), of unmarshal] k(2) by auto
    have "map conn_id (sv_threads g2) = map conn_id (sv_threads g)"
      using g1(2) g2(2) Suc.prems list_update_id[of "map conn_id (sv_threads g)" k] by (simp add: map_update)
    moreover have "\<exists>c. sv_threads g2 ! i = Served (conn_id (sv_threads g ! i)) c \<and> cn_phase c = Closed" if "i < Suc k" for i
      using that g1(3) g2(2,3) k(1) by (auto simp: nth_list_update less_Suc_eq)
    ultimately show ?case using g1(1) g2(1) by (intro exI[of _ g2]) auto
  qed
  from this[OF order_refl] obtain g' where g': "(server_step unmarshal h)\<^sup>*\<^sup>* g g'" "map conn_id (sv_threads g') = map conn_id (sv_threads g)"
    "\<forall>i < length (sv_threads g). \<exists>c. sv_threads g' ! i = Served (conn_id (sv_threads g ! i)) c \<and> cn_phase c = Closed" by blast
  have len: "length (sv_threads g') = length (sv_threads g)" using arg_cong[OF g'(2), of length] by simp
  then have "filter is_open (sv_threads g') = []" using g'(3) by (fastforce simp: filter_empty_conv in_set_conv_nth)
  then have "sv_active g' = 0" using server_steps_inv[OF g'(1) assms(1)] by (simp add: server_inv_def)
  then show ?thesis using g' len by (intro exI[of _ g']) simp
qed

end

section \<open>The guarantees\<close>

lemma listener_fresh [simp]: "connSeq listener_New = 0"
  by (simp add: listener_New_def)

text \<open>C15: connections side by side. Whatever the connections of a server do, in every interleaving and
  while the world they share changes: the gauge \<open>ActiveConnections\<close> is the number of connections being served or
  drained; no two connections have the same id (before the 64-bit counter wraps); and what holds of
  a connection alone holds of each: chat goroutines only on a session bound through an accepted
  token, and none left once the connection is closed.\<close>

theorem server_connections:
  assumes "(server_step unmarshal (wired verify lm st asm m (router_dify H Hb base maxB mu pe r) ttl lockTTL E))\<^sup>*\<^sup>*
      (server_start listener_New w0) g"
  shows "sv_active g = int (length (filter is_open (sv_threads g))) \<and>
    (length (sv_threads g) \<le> 2 ^ 64 \<longrightarrow> distinct (map conn_id (sv_threads g))) \<and>
    (\<forall>i < length (sv_threads g). \<forall>connID c. sv_threads g ! i = Served connID c \<longrightarrow>
       (if authed (cn_sess c) then \<exists>token w. verify token w = Inr (playerID (cn_sess c)) else cn_jobs c = []) \<and>
       (cn_phase c = Closed \<longrightarrow> set (cn_jobs c) \<subseteq> {Sending []} \<and> inflight (cn_reg c) = []))"
proof -
  have inv: "pipeline_handler.server_inv verify g"
    by (rule pipeline_handler.server_steps_inv[OF assms]) (simp add: pipeline_handler.server_inv_start)
  have "distinct (map conn_id (sv_threads g))" if "length (sv_threads g) \<le> 2 ^ 64"
    unfolding distinct_conv_nth
  proof (intro allI impI)
    fix i j
    assume ij: "i < length (map conn_id (sv_threads g))" "j < length (map conn_id (sv_threads g))" "i \<noteq> j"
    then have "i < 2 ^ 64" "j < 2 ^ 64" using that by (simp_all add: order_less_le_trans)
    then show "map conn_id (sv_threads g) ! i \<noteq> map conn_id (sv_threads g) ! j"
      using ij inv conn_name_inj[of i j] by (simp add: pipeline_handler.server_inv_def)
  qed
  moreover have "(if authed (cn_sess c) then \<exists>token w. verify token w = Inr (playerID (cn_sess c)) else cn_jobs c = []) \<and>
       (cn_phase c = Closed \<longrightarrow> set (cn_jobs c) \<subseteq> {Sending []} \<and> inflight (cn_reg c) = [])"
    if "i < length (sv_threads g)" "sv_threads g ! i = Served connID c" for i connID c
  proof -
    have c: "pipeline_handler.conn_inv verify c" using inv that by (simp add: pipeline_handler.server_inv_def)
    show ?thesis using pipeline_handler.closed_conn(1,2)[OF c] c by (auto simp: pipeline_handler.conn_inv_def pipeline_handler.session_ok_def split: if_splits)
  qed
  ultimately show ?thesis using inv by (simp add: pipeline_handler.server_inv_def)
qed

text \<open>Two connections, served at the same time.\<close>

definition demo_served :: "string list server_sys" where
  "demo_served = \<lparr>sv_server = listener_New\<lparr>connSeq := 2\<rparr>,
     sv_threads = [Served ''conn-1'' demo_conn, Served ''conn-2'' (conn_open ''conn-2'' ''b'' 0 (demo_reader 0) [])], sv_active = 2, sv_world = []\<rparr>"

lemma demo_serves: "(server_step demo_unmarshal demo_access)\<^sup>*\<^sup>* (server_start listener_New []) demo_served"
proof -
  let ?st = "server_step demo_unmarshal demo_access"
  let ?g = "\<lambda>n ts k. \<lparr>sv_server = listener_New\<lparr>connSeq := n\<rparr>, sv_threads = ts, sv_active = k, sv_world = []\<rparr> :: string list server_sys"
  have digits: "nat_str 1 = ''1''" "nat_str (Suc 0) = ''1''" "nat_str 2 = ''2''" by code_simp+
  have ids: "nextConnID listener_New = (''conn-1'', listener_New\<lparr>connSeq := 1\<rparr>)"
    "nextConnID (listener_New\<lparr>connSeq := 1\<rparr>) = (''conn-2'', listener_New\<lparr>connSeq := 2\<rparr>)"
    by (simp_all add: nextConnID_def listener_New_def Let_def FormatInt_def digits)
  have "?st (server_start listener_New []) (?g 1 [Named ''conn-1'' ''a''] 0)"
    using server_step.arrive[of "server_start listener_New []", OF _, of "''conn-1''" "listener_New\<lparr>connSeq := 1\<rparr>" demo_unmarshal demo_access "''a''"] ids
    by (simp add: server_start_def)
  moreover have "?st (?g 1 [Named ''conn-1'' ''a''] 0) (?g 1 [Served ''conn-1'' demo_conn] 1)"
    using server_step.begin_serving[of 0 "?g 1 [Named ''conn-1'' ''a''] 0" "''conn-1''" "''a''" demo_unmarshal demo_access 0 "demo_reader 0"]
    by (simp add: demo_conn_def)
  moreover have "?st (?g 1 [Served ''conn-1'' demo_conn] 1) (?g 2 [Served ''conn-1'' demo_conn, Named ''conn-2'' ''b''] 1)"
    using server_step.arrive[of "?g 1 [Served ''conn-1'' demo_conn] 1", OF _, of "''conn-2''" "listener_New\<lparr>connSeq := 2\<rparr>" demo_unmarshal demo_access "''b''"] ids
    by simp
  moreover have "?st (?g 2 [Served ''conn-1'' demo_conn, Named ''conn-2'' ''b''] 1) demo_served"
    using server_step.begin_serving[of 1 "?g 2 [Served ''conn-1'' demo_conn, Named ''conn-2'' ''b''] 1" "''conn-2''" "''b''" demo_unmarshal demo_access 0 "demo_reader 0"]
    by (simp add: demo_served_def)
  ultimately show ?thesis by (meson rtranclp.rtrancl_into_rtrancl rtranclp.rtrancl_refl)
qed

theorem server_connections_witness:
  "(server_step demo_unmarshal demo_access)\<^sup>*\<^sup>* (server_start listener_New []) demo_served \<and> sv_active demo_served = 2 \<and>
     length (filter is_open (sv_threads demo_served)) = 2 \<and> distinct (map conn_id (sv_threads demo_served))"
proof -
  have "length (sv_threads demo_served) = 2" "sv_active demo_served = 2" by (simp_all add: demo_served_def)
  then show ?thesis using server_connections[OF demo_serves[unfolded demo_wired]] demo_serves by auto
qed



end
