(* ===== verification/Concurrent_Limiter.thy ===== *)
theory Concurrent_Limiter
  imports Limiter_Props Pipeline_Props
begin

text \<open>
  The limiter under concurrent requests. The methods of \<^verbatim>\<open>limiter.go\<close> take no lock of their own: between
  two of their round trips to Redis, or two calls of the breaker, other requests run. Here each method
  is cut at exactly these points (\<open>allow_step\<close>, \<open>settle_step\<close>); run without interruption the pieces are the
  method (\<open>allow_steps\<close>, \<open>settle_steps\<close>). \<open>gateway_step\<close> interleaves any number of requests of any number of
  gateway processes over one Redis, each request following the limiter calls of its chat request.
\<close>

section \<open>The methods, one step per round trip\<close>

datatype allow_phase =
    Entry | Budget | Breaker | Acquire | Rate
  | Undo limiter_error | Cancel limiter_error
  | Returned bool "limiter_error option"

text \<open>The clock reading \<open>t\<close> of a step is a parameter: it may be older than the step itself.\<close>

fun allow_step ::
  "'s redis \<Rightarrow> int \<Rightarrow> string \<Rightarrow> int \<Rightarrow> allow_phase \<Rightarrow> redisLimiter \<Rightarrow> 's \<Rightarrow> allow_phase \<times> redisLimiter \<times> 's" where
  "allow_step R t p est Entry l s =
     (if TrimSpace p = [] then (Returned False (Some (LimiterErr ''limiter: player ID is required'')), l, s)
      else if est < 0 then (Returned False (Some (LimiterErr ''limiter: estimated tokens cannot be negative'')), l, s)
      else if \<not> circuit_ready t (circuit l) then (Returned False (Some ErrCircuitOpen), countLimited l, s)
      else (Budget, l, s))"
| "allow_step R t p est Budget l s =
     (case checkBudget R (\<lambda>_. t) (TrimSpace p) est l s of
        (Some e, s1) \<Rightarrow> (Returned False (Some e), if e = ErrBudgetExceeded then countLimited l else l, s1)
      | (None, s1) \<Rightarrow> (Breaker, l, s1))"
| "allow_step R t p est Breaker l s =
     (case circuit_allow t (circuit l) of
        (False, c) \<Rightarrow> (Returned False (Some ErrCircuitOpen), countLimited (l\<lparr>circuit := c\<rparr>), s)
      | (True, c) \<Rightarrow> (Acquire, l\<lparr>circuit := c\<rparr>, s))"
| "allow_step R t p est Acquire l s =
     (case acquireInflight R (\<lambda>_. t) l s of
        (Some e, l1, s1) \<Rightarrow> (Cancel e, l1, s1)
      | (None, l1, s1) \<Rightarrow> (Rate, l1, s1))"
| "allow_step R t p est Rate l s =
     (case allowRate R (\<lambda>_. t) (TrimSpace p) l s of
        (Some e, l1, s1) \<Rightarrow> (Undo e, l1, s1)
      | (None, l1, s1) \<Rightarrow> (Returned True None, l1, s1))"
| "allow_step R t p est (Undo e) l s =
     (case releaseInflight R (\<lambda>_. t) l s of (_, l1, s1) \<Rightarrow> (Cancel e, l1, s1))"
| "allow_step R t p est (Cancel e) l s =
     (let l1 = onCircuit cancelProbe l in
      (Returned False (Some e), if e = ErrInflightFull \<or> e = ErrRateLimited then countLimited l1 else l1, s))"
| "allow_step R t p est (Returned ok e) l s = (Returned ok e, l, s)"

datatype settle_phase =
    SettleEntry | Resolve "limiter_error option" | Charge "limiter_error option" | LastRelease
  | SettleReturned "limiter_error option"

fun settle_step ::
  "'s redis \<Rightarrow> int \<Rightarrow> call \<Rightarrow> settle_phase \<Rightarrow> redisLimiter \<Rightarrow> 's \<Rightarrow> settle_phase \<times> redisLimiter \<times> 's" where
  "settle_step R t (TRecord p n) SettleEntry l s =
     (if TrimSpace p = [] then (SettleReturned (Some (LimiterErr ''limiter: player ID is required'')), l, s)
      else case releaseInflight R (\<lambda>_. t) l s of (e, l1, s1) \<Rightarrow> (Resolve e, l1, s1))"
| "settle_step R t (TRecord p n) (Resolve e) l s =
     (let l1 = onCircuit (circuit_record t True) l in
      if n < 0
      then (SettleReturned (case e of Some x \<Rightarrow> Some x | None \<Rightarrow> Some (LimiterErr ''limiter: used tokens cannot be negative'')), l1, s)
      else (Charge e, l1, s))"
| "settle_step R t (TRecord p n) (Charge e) l s =
     (case recordTokens R (\<lambda>_. t) (TrimSpace p) n s of
        (e2, s1) \<Rightarrow> (SettleReturned (case e of Some x \<Rightarrow> Some x | None \<Rightarrow> e2), l, s1))"
| "settle_step R t TRecordFailure SettleEntry l s =
     (case releaseInflight R (\<lambda>_. t) l s of (e, l1, s1) \<Rightarrow> (Resolve e, l1, s1))"
| "settle_step R t TRecordFailure (Resolve e) l s = (SettleReturned e, onCircuit (circuit_record t False) l, s)"
| "settle_step R t TRelease SettleEntry l s = (LastRelease, onCircuit cancelProbe l, s)"
| "settle_step R t TRelease LastRelease l s =
     (case releaseInflight R (\<lambda>_. t) l s of (e, l1, s1) \<Rightarrow> (SettleReturned e, l1, s1))"
| "settle_step R t c ph l s = (ph, l, s)"

text \<open>Uninterrupted, the steps are the methods.\<close>

fun allow_iter :: "'s redis \<Rightarrow> ('s \<Rightarrow> int) \<Rightarrow> string \<Rightarrow> int \<Rightarrow> nat \<Rightarrow> allow_phase \<times> redisLimiter \<times> 's \<Rightarrow> allow_phase \<times> redisLimiter \<times> 's" where
  "allow_iter R now p est 0 x = x"
| "allow_iter R now p est (Suc k) (ph, l, s) = allow_iter R now p est k (allow_step R (now s) p est ph l s)"

lemma allow_iter_returned [simp]: "allow_iter R now p est k (Returned ok e, l, s) = (Returned ok e, l, s)"
  by (induction k) simp_all

lemma at_clock:
  "acquireInflight R (\<lambda>_. now s) l s = acquireInflight R now l s"
  "releaseInflight R (\<lambda>_. now s) l s = releaseInflight R now l s"
  "allowRate R (\<lambda>_. now s) p l s = allowRate R now p l s"
  "checkBudget R (\<lambda>_. now s) p est l s = checkBudget R now p est l s"
  "recordTokens R (\<lambda>_. now s) p n s = recordTokens R now p n s"
  by (simp_all add: acquireInflight_def releaseInflight_def allowRate_def checkBudget_def currentBudget_def recordTokens_def)

lemma acquire_error: "acquireInflight R now l s = (Some e, l', s') \<Longrightarrow> e \<noteq> ErrRateLimited"
  by (auto simp: acquireInflight_def Let_def split: prod.splits sum.splits if_splits)

lemma rate_error: "allowRate R now p l s = (Some e, l', s') \<Longrightarrow> e \<noteq> ErrInflightFull"
  by (auto simp: allowRate_def Let_def split: prod.splits sum.splits if_splits)

lemma allow_steps:
  "limiter_Allow R now p est l s = ((ok, e), l', s') \<Longrightarrow> allow_iter R now p est 7 (Entry, l, s) = (Returned ok e, l', s')"
  by (auto simp: limiter_Allow_def Let_def eval_nat_numeral at_clock split: if_splits prod.splits option.splits bool.splits
      dest: acquire_error rate_error)

fun settle_iter :: "'s redis \<Rightarrow> ('s \<Rightarrow> int) \<Rightarrow> call \<Rightarrow> nat \<Rightarrow> settle_phase \<times> redisLimiter \<times> 's \<Rightarrow> settle_phase \<times> redisLimiter \<times> 's" where
  "settle_iter R now c 0 x = x"
| "settle_iter R now c (Suc k) (ph, l, s) = settle_iter R now c k (settle_step R (now s) c ph l s)"

lemma settle_returned [simp]: "settle_step R t c (SettleReturned e) l s = (SettleReturned e, l, s)"
  by (cases c) simp_all

lemma settle_steps:
  "limiter_Record R now p n l s = (e, l', s') \<Longrightarrow> settle_iter R now (TRecord p n) 3 (SettleEntry, l, s) = (SettleReturned e, l', s')"
  "limiter_RecordFailure R now l s = (e, l', s') \<Longrightarrow> settle_iter R now TRecordFailure 3 (SettleEntry, l, s) = (SettleReturned e, l', s')"
  "limiter_Release R now l s = (e, l', s') \<Longrightarrow> settle_iter R now TRelease 3 (SettleEntry, l, s) = (SettleReturned e, l', s')"
  by (auto simp: limiter_Record_def limiter_RecordFailure_def limiter_Release_def Let_def eval_nat_numeral at_clock
      split: if_splits prod.splits option.splits)

section \<open>Requests side by side\<close>

text \<open>Where a request stands with its limiter. \<open>Out\<close>: in no method and without a slot. \<open>Held\<close>: admitted, its
  chat running.\<close>

datatype phase = Out | InAllow allow_phase | Held | InSettle settle_phase

record 's gateway_sys =
  procs :: "nat \<Rightarrow> redisLimiter"
  server :: 's
  phase_of :: "nat \<Rightarrow> phase"
  todo :: "nat \<Rightarrow> call list"
  stray :: nat
  lapsed :: bool

fun allow_at :: "phase \<Rightarrow> allow_phase option" where
  "allow_at Out = Some Entry"
| "allow_at (InAllow a) = Some a"
| "allow_at _ = None"

fun settle_at :: "phase \<Rightarrow> settle_phase option" where
  "settle_at Held = Some SettleEntry"
| "settle_at (InSettle x) = Some x"
| "settle_at _ = None"

fun after_allow :: "allow_phase \<Rightarrow> phase" where
  "after_allow (Returned ok e) = (if ok \<and> e = None then Held else Out)"
| "after_allow a = InAllow a"

fun after_settle :: "settle_phase \<Rightarrow> phase" where
  "after_settle (SettleReturned e) = Out"
| "after_settle x = InSettle x"

definition leases :: "('s \<Rightarrow> string \<Rightarrow> rval option) \<Rightarrow> 's \<Rightarrow> string \<rightharpoonup> int" where
  "leases view s = zset_of (view s inflightKey)"

text \<open>Ghosts. A round trip leaves a \<open>stray\<close> lease when the caller was told that acquiring failed although
  its lease is on the server, or when releasing failed. A step sees \<open>lapsed\<close> leases when it finds some
  that have run out.\<close>

definition release_failed :: "'s redis \<Rightarrow> int \<Rightarrow> redisLimiter \<Rightarrow> 's \<Rightarrow> bool" where
  "release_failed R t l s \<longleftrightarrow> fst (releaseInflight R (\<lambda>_. t) l s) \<noteq> None"

fun allow_stray :: "'s redis \<Rightarrow> ('s \<Rightarrow> string \<Rightarrow> rval option) \<Rightarrow> int \<Rightarrow> allow_phase \<Rightarrow> redisLimiter \<Rightarrow> 's \<Rightarrow> bool" where
  "allow_stray R view t Acquire l s =
     (case acquireInflight R (\<lambda>_. t) l s of
        (e, _, s1) \<Rightarrow> e \<noteq> None \<and> fresh_token l t \<notin> dom (leases view s) \<and> fresh_token l t \<in> dom (leases view s1))"
| "allow_stray R view t (Undo e) l s = release_failed R t l s"
| "allow_stray R view t _ l s = False"

fun settle_releases :: "call \<Rightarrow> settle_phase \<Rightarrow> bool" where
  "settle_releases (TRecord p n) SettleEntry = (TrimSpace p \<noteq> [])"
| "settle_releases TRecordFailure SettleEntry = True"
| "settle_releases TRelease LastRelease = True"
| "settle_releases _ _ = False"

fun allow_purges :: "allow_phase \<Rightarrow> bool" where
  "allow_purges Acquire = True"
| "allow_purges (Undo e) = True"
| "allow_purges _ = False"

definition runs_out :: "('s \<Rightarrow> string \<Rightarrow> rval option) \<Rightarrow> int \<Rightarrow> 's \<Rightarrow> bool" where
  "runs_out view t s \<longleftrightarrow> outside 0 (unix_milli t) (leases view s) \<noteq> leases view s"

text \<open>Request \<open>r\<close> runs in the process \<open>home r\<close> and makes the limiter calls of \<open>todo r\<close>, whose admissions carry the
  answer the request went on with. \<open>others\<close> is any other use of the server: it leaves the leases alone
  or lets some lapse.\<close>

inductive gateway_step ::
  "'s redis \<Rightarrow> ('s \<Rightarrow> string \<Rightarrow> rval option) \<Rightarrow> (nat \<Rightarrow> nat) \<Rightarrow> 's gateway_sys \<Rightarrow> 's gateway_sys \<Rightarrow> bool"
  for R view home where
  allow: "allow_at (phase_of g r) = Some a \<Longrightarrow> todo g r = TAllow p ok # rest \<Longrightarrow>
     memberSerial (procs g (home r)) \<noteq> - 1 \<Longrightarrow>
     allow_step R t p 0 a (procs g (home r)) (server g) = (a', l', s') \<Longrightarrow>
     (\<And>ok' e. a' = Returned ok' e \<Longrightarrow> ok = (ok' \<and> e = None)) \<Longrightarrow>
     gateway_step R view home g
       (g\<lparr>procs := (procs g)(home r := l'), server := s', phase_of := (phase_of g)(r := after_allow a'),
          todo := (todo g)(r := (case a' of Returned _ _ \<Rightarrow> rest | _ \<Rightarrow> TAllow p ok # rest)),
          stray := stray g + of_bool (allow_stray R view t a (procs g (home r)) (server g)),
          lapsed := (lapsed g \<or> allow_purges a \<and> runs_out view t (server g))\<rparr>)"
| settle: "settle_at (phase_of g r) = Some x \<Longrightarrow> todo g r = c # rest \<Longrightarrow> is_settle c \<Longrightarrow>
     settle_step R t c x (procs g (home r)) (server g) = (x', l', s') \<Longrightarrow>
     gateway_step R view home g
       (g\<lparr>procs := (procs g)(home r := l'), server := s', phase_of := (phase_of g)(r := after_settle x'),
          todo := (todo g)(r := (case x' of SettleReturned _ \<Rightarrow> rest | _ \<Rightarrow> c # rest)),
          stray := stray g + of_bool (settle_releases c x \<and> release_failed R t (procs g (home r)) (server g)),
          lapsed := (lapsed g \<or> settle_releases c x \<and> runs_out view t (server g))\<rparr>)"
| others: "no_str (view s' inflightKey) \<Longrightarrow> leases view s' \<subseteq>\<^sub>m leases view (server g) \<Longrightarrow>
     gateway_step R view home g
       (g\<lparr>server := s', lapsed := (lapsed g \<or> leases view s' \<noteq> leases view (server g))\<rparr>)"

text \<open>The requests that have a slot, and those between \<open>allow\<close> and the call that resolves their probe.\<close>

fun holds :: "phase \<Rightarrow> bool" where
  "holds Out = False"
| "holds (InAllow a) = (case a of Rate \<Rightarrow> True | Undo _ \<Rightarrow> True | _ \<Rightarrow> False)"
| "holds Held = True"
| "holds (InSettle x) = (x = SettleEntry \<or> x = LastRelease)"

fun probing :: "phase \<Rightarrow> bool" where
  "probing Out = False"
| "probing (InAllow a) = (case a of Acquire \<Rightarrow> True | Rate \<Rightarrow> True | Undo _ \<Rightarrow> True | Cancel _ \<Rightarrow> True | _ \<Rightarrow> False)"
| "probing Held = True"
| "probing (InSettle x) = (case x of SettleEntry \<Rightarrow> True | Resolve _ \<Rightarrow> True | _ \<Rightarrow> False)"

definition holders :: "'s gateway_sys \<Rightarrow> nat set" where
  "holders g = {r. holds (phase_of g r)}"

text \<open>The limiter calls of a chat request.\<close>

fun limiter_call :: "call \<Rightarrow> bool" where
  "limiter_call (TAllow _ _) = True"
| "limiter_call c = is_settle c"

fun settles_for :: "string \<Rightarrow> call \<Rightarrow> bool" where
  "settles_for p (TRecord q n) = (q = p)"
| "settles_for p TRecordFailure = True"
| "settles_for p TRelease = True"
| "settles_for p _ = False"

definition chat_plan :: "call list \<Rightarrow> bool" where
  "chat_plan cs \<longleftrightarrow> cs = [] \<or> (\<exists>p. cs = [TAllow p False] \<or> (\<exists>c. cs = [TAllow p True, c] \<and> settles_for p c))"

text \<open>A request is where its remaining calls say.\<close>

fun thread_ok :: "phase \<Rightarrow> call list \<Rightarrow> bool" where
  "thread_ok Out cs = chat_plan cs"
| "thread_ok (InAllow a) cs = ((\<exists>p ok rest. cs = TAllow p ok # rest \<and> chat_plan cs \<and> TrimSpace p \<noteq> []) \<and>
     (\<forall>ok e. a \<noteq> Returned ok e))"
| "thread_ok Held cs = (\<exists>p c. cs = [c] \<and> settles_for p c \<and> TrimSpace p \<noteq> [])"
| "thread_ok (InSettle x) cs = (\<exists>p c. cs = [c] \<and> settles_for p c \<and> TrimSpace p \<noteq> [] \<and>
     (case x of Resolve _ \<Rightarrow> c \<noteq> TRelease | Charge _ \<Rightarrow> \<exists>n. c = TRecord p n | LastRelease \<Rightarrow> c = TRelease | _ \<Rightarrow> False))"

end
