(* ===== verification/Concurrent_Props.thy ===== *)
theory Concurrent_Props
  imports Concurrent_Limiter Chat_Guarantees
begin

text \<open>
  What the interleaved requests of \<open>Concurrent_Limiter\<close> keep: each request is where its remaining calls say,
  the leases on the server are accounted for by the requests that hold a slot, and a probe of a
  breaker always has a request that will resolve it.
\<close>

section \<open>Every request follows its calls\<close>

lemma chat_plan_Cons:
  "chat_plan (TAllow p ok # rest) \<longleftrightarrow> (if ok then \<exists>c. rest = [c] \<and> settles_for p c else rest = [])"
  by (auto simp: chat_plan_def)

lemma settles_not_allow [simp]: "\<not> settles_for p (TAllow q ok)"
  by simp

lemma allow_step_thread:
  assumes "allow_at ph = Some a" "thread_ok ph (TAllow p ok # rest)" "allow_step R t p 0 a l s = (a', l', s')"
    and "\<And>ok' e. a' = Returned ok' e \<Longrightarrow> ok = (ok' \<and> e = None)"
  shows "thread_ok (after_allow a') (case a' of Returned _ _ \<Rightarrow> rest | _ \<Rightarrow> TAllow p ok # rest)"
proof -
  have plan: "chat_plan (TAllow p ok # rest)" using assms(1,2) by (cases ph) auto
  have p: "TrimSpace p \<noteq> [] \<or> a' = Returned False (Some (LimiterErr ''limiter: player ID is required''))"
    using assms(1-3) by (cases ph) auto
  show ?thesis
  proof (cases a')
    case (Returned ok' e)
    then show ?thesis using assms(4)[OF Returned] plan p by (auto simp: chat_plan_Cons) (auto simp: chat_plan_def)
  qed (use plan p in auto)
qed

lemma settle_step_thread:
  assumes "settle_at ph = Some x" "thread_ok ph (c # rest)" "settle_step R t c x l s = (x', l', s')"
  shows "thread_ok (after_settle x') (case x' of SettleReturned _ \<Rightarrow> rest | _ \<Rightarrow> c # rest)"
proof -
  obtain p where p: "rest = []" "settles_for p c" "TrimSpace p \<noteq> []" using assms(1,2) by (cases ph) auto
  then show ?thesis
    using assms by (cases ph; cases c; cases x) (auto simp: Let_def chat_plan_def split: if_splits prod.splits)
qed

definition threads_ok :: "'s gateway_sys \<Rightarrow> bool" where
  "threads_ok g \<longleftrightarrow> (\<forall>r. thread_ok (phase_of g r) (todo g r))"

lemma threads_ok_step: "gateway_step R view home g g' \<Longrightarrow> threads_ok g \<Longrightarrow> threads_ok g'"
proof (induction rule: gateway_step.induct)
  case (allow g r a p ok rest t a' l' s')
  then have "thread_ok (phase_of g r) (TAllow p ok # rest)" by (metis threads_ok_def)
  from allow_step_thread[OF allow(1) this allow(4,5)] allow(6) show ?case by (simp add: threads_ok_def)
next
  case (settle g r x c rest t x' l' s')
  then have "thread_ok (phase_of g r) (c # rest)" by (metis threads_ok_def)
  from settle_step_thread[OF settle(1) this settle(4)] settle(5) show ?case by (simp add: threads_ok_def)
qed (auto simp: threads_ok_def)

lemma thread_finished: "thread_ok ph [] \<Longrightarrow> ph = Out"
  by (cases ph) auto

lemma thread_not_returned: "allow_at ph = Some a \<Longrightarrow> thread_ok ph cs \<Longrightarrow> a \<noteq> Returned ok e"
  by (cases ph) auto

section \<open>Leases\<close>

context redis_server
begin

lemma dom_outside_subset: "dom (outside lo hi z) \<subseteq> dom z"
  by (auto simp: dom_outside)

lemma acquire_leases:
  assumes "acquireInflight R (\<lambda>_. t) l s = (e, l', s')" "no_str (view s inflightKey)"
  shows "no_str (view s' inflightKey)" "dom (leases view s') \<subseteq> insert (fresh_token l t) (dom (leases view s))"
proof -
  let ?f = "acquireInflightScript R inflightKey (unix_milli t) (maxInflight l) (unix_milli t + millis_at_least_1 (inflightTTL l))
    (fresh_token l t) (millis_at_least_1 (inflightTTL l))"
  define P where "P s1 \<longleftrightarrow> no_str (view s1 inflightKey) \<and> dom (leases view s1) \<subseteq> insert (fresh_token l t) (dom (leases view s))" for s1
  have step: "P (snd (?f s1))" if "P s1" for s1
    using that acquire_script(2)[of s1 inflightKey "millis_at_least_1 (inflightTTL l)" "unix_milli t" "maxInflight l"]
      dom_outside_subset[of 0 "unix_milli t" "zset_of (view s1 inflightKey)"]
    unfolding P_def leases_def by simp blast
  have "s' = snd (rRun R ?f s)" using acquireInflight_world[of "\<lambda>_. t" l s] assms(1) by simp
  moreover have "P (snd (rRun R ?f s))" using step assms(2) by (intro run_preserves[where P = P]) (auto simp: P_def)
  ultimately show "no_str (view s' inflightKey)" "dom (leases view s') \<subseteq> insert (fresh_token l t) (dom (leases view s))"
    by (simp_all add: P_def)
qed

lemma leases_finite [simp]: "finite (dom (leases view s))"
  by (simp add: leases_def zset_finite)

lemma release_script_leases:
  assumes "no_str (view s inflightKey)"
  shows "no_str (view (snd (releaseInflightScript R inflightKey nowMs s)) inflightKey)"
    and "dom (leases view (snd (releaseInflightScript R inflightKey nowMs s))) \<subseteq> dom (leases view s)"
    and "card (dom (leases view (snd (releaseInflightScript R inflightKey nowMs s)))) \<le> card (dom (leases view s)) - 1"
proof -
  let ?z = "outside 0 nowMs (zset_of (view s inflightKey))"
  obtain z' where z': "view (snd (releaseInflightScript R inflightKey nowMs s)) = (view s)(inflightKey := zval z')"
      "if ?z = Map.empty then z' = Map.empty else \<exists>m sc. ?z m = Some sc \<and> z' = ?z(m := None)"
    using release_script_view[OF assms, of nowMs] that by metis
  have l: "leases view (snd (releaseInflightScript R inflightKey nowMs s)) = z'" using z'(1) by (simp add: leases_def)
  have sub: "leases view s m = Some sc" if "?z m = Some sc" for m sc using that by (simp add: leases_def outside_Some_iff)
  show "no_str (view (snd (releaseInflightScript R inflightKey nowMs s)) inflightKey)" using z'(1) by simp
  show "dom (leases view (snd (releaseInflightScript R inflightKey nowMs s))) \<subseteq> dom (leases view s)"
    using z'(2) sub unfolding l by (auto split: if_splits)
  show "card (dom (leases view (snd (releaseInflightScript R inflightKey nowMs s)))) \<le> card (dom (leases view s)) - 1"
  proof (cases "?z = Map.empty")
    case False
    then obtain m sc where m: "?z m = Some sc" "z' = ?z(m := None)" using z'(2) by auto
    then have "dom z' \<subseteq> dom (leases view s) - {m}" "m \<in> dom (leases view s)" using sub by auto
    then show ?thesis unfolding l by (metis card_Diff_singleton card_mono finite_Diff leases_finite)
  qed (use z'(2) l in simp)
qed

lemma release_leases:
  assumes "releaseInflight R (\<lambda>_. t) l s = (e, l', s')" "no_str (view s inflightKey)"
  shows "no_str (view s' inflightKey)" "dom (leases view s') \<subseteq> dom (leases view s)"
    and "e = None \<Longrightarrow> card (dom (leases view s')) \<le> card (dom (leases view s)) - 1"
proof -
  let ?f = "releaseInflightScript R inflightKey (unix_milli t)"
  define P where "P s1 \<longleftrightarrow> no_str (view s1 inflightKey) \<and> dom (leases view s1) \<subseteq> dom (leases view s)" for s1
  have step: "P (snd (?f s1))" if "P s1" for s1
    using that release_script_leases(1,2)[of s1 "unix_milli t"] by (auto simp: P_def)
  have P0: "P s" using assms(2) by (simp add: P_def)
  have s': "s' = snd (rRun R ?f s)" using releaseInflight_world[of "\<lambda>_. t" l s] assms(1) by simp
  have "P s'" unfolding s' by (rule run_preserves[where P = P, OF step P0])
  then show "no_str (view s' inflightKey)" "dom (leases view s') \<subseteq> dom (leases view s)" by (simp_all add: P_def)
  assume "e = None"
  then obtain v where "rRun R ?f s = (Inr v, s')" using assms(1) by (auto simp: releaseInflight_def split: prod.splits sum.splits)
  then obtain n where n: "?f (((snd \<circ> ?f) ^^ n) s) = (v, s')" using run_ok by blast
  have P: "P (((snd \<circ> ?f) ^^ n) s)" by (induction n) (auto simp: P0 step)
  have "card (dom (leases view s')) \<le> card (dom (leases view (((snd \<circ> ?f) ^^ n) s))) - 1"
    using release_script_leases(3)[of "((snd \<circ> ?f) ^^ n) s" "unix_milli t"] P n by (simp add: P_def)
  also have "\<dots> \<le> card (dom (leases view s)) - 1" using P by (intro diff_le_mono card_mono) (auto simp: P_def)
  finally show "card (dom (leases view s')) \<le> card (dom (leases view s)) - 1" .
qed

lemma quiet_leases:
  "view (snd (snd (allowRate R now p l s))) inflightKey = view s inflightKey"
  "view (snd (recordTokens R now p n s)) inflightKey = view s inflightKey"
  "view (snd (checkBudget R now p n l s)) inflightKey = view s inflightKey"
  unfolding allowRate_world recordTokens_world
  by (auto simp: checkBudget_world script_frames intro!: run_preserves[where P = "\<lambda>s1. view s1 inflightKey = view s inflightKey"])

end

section \<open>Slots\<close>

text \<open>What one step of a request does to the number of leases, against what it does to the number of
  requests that hold a slot.\<close>

context redis_server
begin

lemma leases_cong: "view s' inflightKey = view s inflightKey \<Longrightarrow> leases view s' = leases view s"
  by (simp add: leases_def)

lemma allow_slots:
  assumes "allow_step R t p est a l s = (a', l', s')" "no_str (view s inflightKey)"
  shows "no_str (view s' inflightKey) \<and> card (dom (leases view s')) \<le>
     card (dom (leases view s)) + of_bool (\<not> holds (InAllow a) \<and> holds (after_allow a')) + of_bool (allow_stray R view t a l s)
       - of_bool (holds (InAllow a) \<and> \<not> holds (after_allow a'))"
proof (cases a)
  case Entry
  then show ?thesis using assms by (auto split: if_splits)
next
  case Budget
  obtain e s1 where b: "checkBudget R (\<lambda>_. t) (TrimSpace p) est l s = (e, s1)" by (cases "checkBudget R (\<lambda>_. t) (TrimSpace p) est l s")
  have "view s1 inflightKey = view s inflightKey" using quiet_leases(3)[of "\<lambda>_. t" "TrimSpace p" est l s] b by simp
  then show ?thesis using assms Budget b leases_cong[of s1 s] by (auto split: option.splits)
next
  case Breaker
  then show ?thesis using assms by (auto split: prod.splits bool.splits)
next
  case Acquire
  obtain e l1 s1 where q: "acquireInflight R (\<lambda>_. t) l s = (e, l1, s1)" by (metis prod_cases3)
  note d = acquire_leases[OF q assms(2)]
  have up: "card (dom (leases view s1)) \<le> Suc (card (dom (leases view s)))"
    using card_mono[OF _ d(2)] by (simp add: card_insert_if split: if_splits)
  have eq: "card (dom (leases view s1)) \<le> card (dom (leases view s))"
    if "fresh_token l t \<in> dom (leases view s) \<or> fresh_token l t \<notin> dom (leases view s1)"
    using that d(2) by (intro card_mono) auto
  show ?thesis using assms Acquire q d(1) up eq by (cases e) auto
next
  case Rate
  obtain e l1 s1 where q: "allowRate R (\<lambda>_. t) (TrimSpace p) l s = (e, l1, s1)" by (metis prod_cases3)
  have "view s1 inflightKey = view s inflightKey" using quiet_leases(1)[of "\<lambda>_. t" "TrimSpace p" l s] q by simp
  then show ?thesis using assms Rate q leases_cong[of s1 s] by (cases e) auto
next
  case (Undo x)
  obtain e l1 s1 where q: "releaseInflight R (\<lambda>_. t) l s = (e, l1, s1)" by (metis prod_cases3)
  note d = release_leases[OF q assms(2)]
  have "card (dom (leases view s1)) \<le> card (dom (leases view s))" using d(2) by (simp add: card_mono)
  then show ?thesis using assms Undo q d(1,3) by (auto simp: release_failed_def)
qed (use assms in \<open>auto simp: Let_def\<close>)

lemma settle_slots:
  assumes "settle_at ph = Some x" "thread_ok ph (c # rest)" "settle_step R t c x l s = (x', l', s')" "no_str (view s inflightKey)"
  shows "no_str (view s' inflightKey) \<and> card (dom (leases view s')) \<le>
     card (dom (leases view s)) + of_bool (settle_releases c x \<and> release_failed R t l s) - of_bool (holds ph \<and> \<not> holds (after_settle x')) \<and>
     (holds (after_settle x') \<longrightarrow> holds ph)"
proof (cases "settle_releases c x")
  case True
  obtain e l1 s1 where q: "releaseInflight R (\<lambda>_. t) l s = (e, l1, s1)" by (metis prod_cases3)
  note d = release_leases[OF q assms(4)]
  have "card (dom (leases view s1)) \<le> card (dom (leases view s))" using d(2) by (simp add: card_mono)
  moreover have "s' = s1 \<and> \<not> holds (after_settle x')" using True assms(3) q by (cases c; cases x) (auto split: if_splits)
  ultimately show ?thesis using d(1,3) q True by (cases e) (auto simp: release_failed_def)
next
  case False
  have "view s' inflightKey = view s inflightKey"
    using False assms(3) quiet_leases(2)[of "\<lambda>_. t"]
    by (cases c; cases x) (auto simp: Let_def split: if_splits prod.splits, metis snd_conv)
  moreover have "holds ph = holds (after_settle x')"
    using False assms(1-3) by (cases ph; cases c; cases x) (auto simp: Let_def split: if_splits prod.splits)
  ultimately show ?thesis using assms(4) leases_cong[of s' s] by simp
qed

end

text \<open>The number of requests that hold a slot when one of them moves.\<close>

lemma holders_upd:
  assumes "finite (holders g)"
  shows "finite (holders (g\<lparr>phase_of := (phase_of g)(r := ph)\<rparr>))"
    and "card (holders (g\<lparr>phase_of := (phase_of g)(r := ph)\<rparr>)) =
      card (holders g) + of_bool (\<not> holds (phase_of g r) \<and> holds ph) - of_bool (holds (phase_of g r) \<and> \<not> holds ph)"
    and "holds (phase_of g r) \<Longrightarrow> 0 < card (holders g)"
proof -
  have eq: "holders (g\<lparr>phase_of := (phase_of g)(r := ph)\<rparr>) = (if holds ph then insert r (holders g) else holders g - {r})"
    by (auto simp: holders_def)
  show "finite (holders (g\<lparr>phase_of := (phase_of g)(r := ph)\<rparr>))" unfolding eq using assms by simp
  have r: "r \<in> holders g \<longleftrightarrow> holds (phase_of g r)" by (simp add: holders_def)
  show pos: "holds (phase_of g r) \<Longrightarrow> 0 < card (holders g)" using assms r by (auto simp: card_gt_0_iff)
  show "card (holders (g\<lparr>phase_of := (phase_of g)(r := ph)\<rparr>)) =
      card (holders g) + of_bool (\<not> holds (phase_of g r) \<and> holds ph) - of_bool (holds (phase_of g r) \<and> \<not> holds ph)"
    unfolding eq using assms r pos by (simp add: card_insert_if)
qed

lemma holders_more [simp]:
  "holders (g\<lparr>procs := P, server := s, phase_of := f, todo := td, stray := n, lapsed := b\<rparr>) = holders (g\<lparr>phase_of := f\<rparr>)"
  "holders (g\<lparr>server := s, lapsed := b\<rparr>) = holders g"
  by (simp_all add: holders_def)

lemma holds_at: "allow_at ph = Some a \<Longrightarrow> holds ph = holds (InAllow a)"
  by (cases ph) auto

definition slots_ok :: "('s \<Rightarrow> string \<Rightarrow> rval option) \<Rightarrow> 's gateway_sys \<Rightarrow> bool" where
  "slots_ok view g \<longleftrightarrow> threads_ok g \<and> finite (holders g) \<and> no_str (view (server g) inflightKey) \<and>
     card (dom (leases view (server g))) \<le> card (holders g) + stray g"

context redis_server
begin

lemma slots_ok_step:
  assumes "gateway_step R view home g g'" "slots_ok view g"
  shows "slots_ok view g'"
proof -
  have th: "threads_ok g" "threads_ok g'" and fin: "finite (holders g)" and ns: "no_str (view (server g) inflightKey)"
      and le: "card (dom (leases view (server g))) \<le> card (holders g) + stray g"
    using assms threads_ok_step by (auto simp: slots_ok_def)
  show ?thesis
    using assms(1)
  proof cases
    case (allow r a p ok rest t a' l' s')
    note h = holders_upd(1,2)[OF fin, of r "after_allow a'"] holders_upd(3)[OF fin, of r]
    show ?thesis
      using allow_slots[OF allow(5) ns] le th h holds_at[OF allow(2)] unfolding slots_ok_def allow(1) by auto
  next
    case (settle r x c rest t x' l' s')
    note h = holders_upd(1,2)[OF fin, of r "after_settle x'"] holders_upd(3)[OF fin, of r]
    have "thread_ok (phase_of g r) (c # rest)" using th(1) settle(3) by (metis threads_ok_def)
    from settle_slots[OF settle(2) this settle(5) ns] show ?thesis
      using le th h unfolding slots_ok_def settle(1) by auto
  next
    case (others s')
    then have "card (dom (leases view s')) \<le> card (dom (leases view (server g)))"
      by (intro card_mono) (auto dest: map_le_implies_dom_le)
    with others th fin le show ?thesis by (auto simp: slots_ok_def)
  qed
qed

lemma slots_ok_reachable:
  "(gateway_step R view home)\<^sup>*\<^sup>* g g' \<Longrightarrow> slots_ok view g \<Longrightarrow> slots_ok view g'"
  by (induction rule: rtranclp_induct) (auto intro: slots_ok_step)

end

section \<open>The exact count\<close>

text \<open>Every lease carries a token some process has made, and no process makes a token twice.\<close>

definition tokens_ok :: "('s \<Rightarrow> string \<Rightarrow> rval option) \<Rightarrow> 's gateway_sys \<Rightarrow> bool" where
  "tokens_ok view g \<longleftrightarrow> inj (\<lambda>j. instanceID (procs g j)) \<and>
     (\<forall>m \<in> dom (leases view (server g)). \<exists>j ms k. m = member_token (instanceID (procs g j)) ms k \<and> unat k \<le> unat (memberSerial (procs g j)))"

lemma next_serial_unat:
  fixes k :: "64 word"
  assumes "k \<noteq> - 1"
  shows "unat (k + 1) = Suc (unat k)"
  using assms unatSuc[of k] by (simp add: eq_neg_iff_add_eq_0 add.commute)

lemma allow_limiter:
  assumes "allow_step R t p est a l s = (a', l', s')" "memberSerial l \<noteq> - 1"
  shows "instanceID l' = instanceID l" "maxInflight l' = maxInflight l" "unat (memberSerial l) \<le> unat (memberSerial l')"
    and "a = Acquire \<Longrightarrow> memberSerial l' = memberSerial l + 1"
  using assms next_serial_unat[OF assms(2)]
  by (cases a; auto simp: acquireInflight_def releaseInflight_def allowRate_def next_serial_def onCircuit_def countLimited_def Let_def
      split: if_splits prod.splits option.splits bool.splits sum.splits)+

lemma settle_limiter:
  assumes "settle_step R t c x l s = (x', l', s')"
  shows "instanceID l' = instanceID l" "maxInflight l' = maxInflight l" "memberSerial l' = memberSerial l"
  using assms
  by (cases c; cases x; auto simp: releaseInflight_def onCircuit_def Let_def split: if_splits prod.splits option.splits sum.splits)+

context redis_server
begin

lemma allow_dom:
  assumes "allow_step R t p est a l s = (a', l', s')" "no_str (view s inflightKey)"
  shows "dom (leases view s') \<subseteq> dom (leases view s) \<union> (if a = Acquire then {fresh_token l t} else {})"
proof (cases a)
  case Acquire
  obtain e l1 s1 where q: "acquireInflight R (\<lambda>_. t) l s = (e, l1, s1)" by (metis prod_cases3)
  then show ?thesis using assms(1) Acquire acquire_leases(2)[OF q assms(2)] by (auto split: option.splits)
next
  case (Undo x)
  obtain e l1 s1 where q: "releaseInflight R (\<lambda>_. t) l s = (e, l1, s1)" by (metis prod_cases3)
  then show ?thesis using assms(1) Undo release_leases(2)[OF q assms(2)] by auto
next
  case Budget
  then have "view s' inflightKey = view s inflightKey"
    using assms(1) quiet_leases(3)[of "\<lambda>_. t" "TrimSpace p" est l s] by (auto split: prod.splits option.splits)
  then show ?thesis using leases_cong[of s' s] by simp
next
  case Rate
  then have "view s' inflightKey = view s inflightKey"
    using assms(1) quiet_leases(1)[of "\<lambda>_. t" "TrimSpace p" l s] by (auto split: prod.splits option.splits)
  then show ?thesis using leases_cong[of s' s] by simp
qed (use assms in \<open>auto simp: Let_def split: if_splits prod.splits bool.splits\<close>)

lemma settle_quiet: "\<not> settle_releases c x \<Longrightarrow> settle_step R t c x l s = (x', l', s') \<Longrightarrow> view s' inflightKey = view s inflightKey"
  using quiet_leases(2)[of "\<lambda>_. t"]
  by (cases c; cases x) (auto simp: Let_def split: if_splits prod.splits, metis snd_conv)

lemma settle_release_step:
  assumes "settle_releases c x" "settle_step R t c x l s = (x', l', s')"
  obtains e l1 where "releaseInflight R (\<lambda>_. t) l s = (e, l1, s')" "\<not> holds (after_settle x')"
  using assms by (cases c; cases x) (auto split: if_splits prod.splits)

lemma settle_dom:
  assumes "settle_step R t c x l s = (x', l', s')" "no_str (view s inflightKey)"
  shows "dom (leases view s') \<subseteq> dom (leases view s)"
proof (cases "settle_releases c x")
  case True
  then obtain e l1 where q: "releaseInflight R (\<lambda>_. t) l s = (e, l1, s')" using settle_release_step[OF _ assms(1)] by metis
  then show ?thesis by (rule release_leases(2)[OF _ assms(2)])
next
  case False
  then show ?thesis using settle_quiet[OF _ assms(1)] leases_cong[of s' s] by simp
qed

lemma tokens_ok_step:
  assumes "gateway_step R view home g g'" "tokens_ok view g" "no_str (view (server g) inflightKey)"
  shows "tokens_ok view g'"
  using assms(1)
proof cases
  case (allow r a p ok rest t a' l' s')
  let ?l = "procs g (home r)"
  note L = allow_limiter[OF allow(5,4)] and D = allow_dom[OF allow(5) assms(3)]
  have new: "\<exists>j ms k. m = member_token (instanceID (((procs g)(home r := l')) j)) ms k \<and> unat k \<le> unat (memberSerial (((procs g)(home r := l')) j))"
    if m: "m \<in> dom (leases view s')" for m
  proof (cases "a = Acquire \<and> m = fresh_token ?l t")
    case True
    then show ?thesis using L by (intro exI[of _ "home r"] exI[of _ "unix_milli t"] exI[of _ "memberSerial l'"])
        (simp add: fresh_token_def next_serial_def)
  next
    case False
    then have "m \<in> dom (leases view (server g))" using D m by (auto split: if_splits)
    then obtain j ms k where "m = member_token (instanceID (procs g j)) ms k" "unat k \<le> unat (memberSerial (procs g j))"
      using assms(2) unfolding tokens_ok_def by blast
    then show ?thesis using L(1,3) by (intro exI[of _ j] exI[of _ ms] exI[of _ k]) auto
  qed
  have "(\<lambda>j. instanceID (((procs g)(home r := l')) j)) = (\<lambda>j. instanceID (procs g j))" using L(1) by (simp add: fun_eq_iff)
  then show ?thesis using new assms(2) unfolding tokens_ok_def allow(1) by simp
next
  case (settle r x c rest t x' l' s')
  note L = settle_limiter[OF settle(5)] and D = settle_dom[OF settle(5) assms(3)]
  have eq: "instanceID (((procs g)(home r := l')) j) = instanceID (procs g j)"
      "memberSerial (((procs g)(home r := l')) j) = memberSerial (procs g j)" for j using L by simp_all
  show ?thesis using assms(2) D unfolding tokens_ok_def settle(1) by (simp add: eq del: fun_upd_apply) blast
next
  case (others s')
  then show ?thesis using assms(2) map_le_implies_dom_le[OF others(3)] unfolding tokens_ok_def others(1) by simp blast
qed

lemma token_fresh:
  assumes "tokens_ok view g" "memberSerial (procs g i) \<noteq> - 1"
  shows "fresh_token (procs g i) t \<notin> dom (leases view (server g))"
proof
  assume "fresh_token (procs g i) t \<in> dom (leases view (server g))"
  then obtain j ms k where k: "fresh_token (procs g i) t = member_token (instanceID (procs g j)) ms k" "unat k \<le> unat (memberSerial (procs g j))"
    using assms(1) unfolding tokens_ok_def by blast
  then have "instanceID (procs g i) = instanceID (procs g j)" "k = memberSerial (procs g i) + 1"
    by (simp_all add: fresh_token_def next_serial_def member_token_inj)
  then have "i = j" using assms(1) unfolding tokens_ok_def by (metis injD)
  then show False using k(2) \<open>k = _\<close> next_serial_unat[OF assms(2)] by simp
qed

end

context redis_reliable
begin

lemma release_exact:
  assumes "releaseInflight R (\<lambda>_. t) l s = (e, l', s')" "no_str (view s inflightKey)" "\<not> runs_out view t s"
  shows "e = None" "card (dom (leases view s')) = card (dom (leases view s)) - 1"
proof -
  have same: "outside 0 (unix_milli t) (leases view s) = leases view s" using assms(3) by (simp add: runs_out_def)
  show e: "e = None" using releaseInflight_result[OF assms(2), of "\<lambda>_. t" t l] assms(1) by auto
  have s': "s' = snd (releaseInflightScript R inflightKey (unix_milli t) s)"
    using assms(1) by (auto simp: releaseInflight_def run_eq split: prod.splits)
  obtain z' where "view s' = (view s)(inflightKey := zval z')"
      and z': "if leases view s = Map.empty then z' = Map.empty else \<exists>m sc. leases view s m = Some sc \<and> z' = (leases view s)(m := None)"
    using release_script_view[OF assms(2), of "unix_milli t"] that unfolding s' same[unfolded leases_def] leases_def by metis
  then have "leases view s' = z'" by (simp add: leases_def)
  with z' show "card (dom (leases view s')) = card (dom (leases view s)) - 1"
    by (auto simp: domI card_Diff_singleton split: if_splits)
qed

lemma acquire_exact:
  assumes "acquireInflight R (\<lambda>_. t) l s = (e, l', s')" "no_str (view s inflightKey)" "\<not> runs_out view t s"
    and "fresh_token l t \<notin> dom (leases view s)"
  shows "card (dom (leases view s')) = card (dom (leases view s)) + of_bool (e = None)"
proof -
  have same: "outside 0 (unix_milli t) (leases view s) = leases view s" using assms(3) by (simp add: runs_out_def)
  show ?thesis
    using acquireInflight_result[OF assms(2), of "\<lambda>_. t" t l] assms(1) card_dom_upd_fresh[OF leases_finite assms(4)]
    unfolding same[unfolded leases_def] by (auto simp: leases_def split: if_splits)
qed

lemma allow_exact:
  assumes "allow_step R t p est a l s = (a', l', s')" "no_str (view s inflightKey)"
    and "\<not> (allow_purges a \<and> runs_out view t s)" "fresh_token l t \<notin> dom (leases view s)"
    and "holds (InAllow a) \<Longrightarrow> 0 < card (dom (leases view s))" "\<And>ok e. a \<noteq> Returned ok e"
  shows "card (dom (leases view s')) + of_bool (holds (InAllow a) \<and> \<not> holds (after_allow a')) =
     card (dom (leases view s)) + of_bool (\<not> holds (InAllow a) \<and> holds (after_allow a'))"
proof (cases a)
  case Acquire
  obtain e l1 s1 where q: "acquireInflight R (\<lambda>_. t) l s = (e, l1, s1)" by (metis prod_cases3)
  show ?thesis using assms(1,3) Acquire q acquire_exact[OF q assms(2) _ assms(4)] by (cases e) auto
next
  case (Undo x)
  obtain e l1 s1 where q: "releaseInflight R (\<lambda>_. t) l s = (e, l1, s1)" by (metis prod_cases3)
  show ?thesis using assms(1,3,5) Undo q release_exact[OF q assms(2)] by auto
next
  case Budget
  then have "view s' inflightKey = view s inflightKey"
    using assms(1) quiet_leases(3)[of "\<lambda>_. t" "TrimSpace p" est l s] by (auto split: prod.splits option.splits)
  then show ?thesis using assms(1) Budget leases_cong[of s' s] by (auto split: prod.splits option.splits)
next
  case Rate
  then have "view s' inflightKey = view s inflightKey"
    using assms(1) quiet_leases(1)[of "\<lambda>_. t" "TrimSpace p" l s] by (auto split: prod.splits option.splits)
  then show ?thesis using assms(1) Rate leases_cong[of s' s] by (auto split: prod.splits option.splits)
qed (use assms in \<open>auto simp: Let_def split: if_splits prod.splits bool.splits\<close>)

lemma settle_exact:
  assumes "settle_at ph = Some x" "thread_ok ph (c # rest)" "settle_step R t c x l s = (x', l', s')" "no_str (view s inflightKey)"
    and "\<not> (settle_releases c x \<and> runs_out view t s)" "holds ph \<Longrightarrow> 0 < card (dom (leases view s))"
  shows "card (dom (leases view s')) + of_bool (holds ph \<and> \<not> holds (after_settle x')) = card (dom (leases view s))"
proof (cases "settle_releases c x")
  case True
  then obtain e l1 where q: "releaseInflight R (\<lambda>_. t) l s = (e, l1, s')" "\<not> holds (after_settle x')"
    using settle_release_step[OF _ assms(3)] by metis
  have "holds ph" using True assms(1,2) by (cases ph; cases c; cases x) auto
  then show ?thesis using release_exact[OF q(1) assms(4)] True assms(5,6) q(2) by simp
next
  case False
  have "holds ph = holds (after_settle x')"
    using False assms(1-3) by (cases ph; cases c; cases x) (auto simp: Let_def split: if_splits prod.splits)
  then show ?thesis using settle_quiet[OF False assms(3)] leases_cong[of s' s] by simp
qed

end

text \<open>While no lease has run out, the requests that hold a slot are as many as the leases.\<close>

definition exact_ok :: "('s \<Rightarrow> string \<Rightarrow> rval option) \<Rightarrow> int \<Rightarrow> 's gateway_sys \<Rightarrow> bool" where
  "exact_ok view M g \<longleftrightarrow> slots_ok view g \<and> tokens_ok view g \<and> (\<forall>j. maxInflight (procs g j) = M) \<and> inflight_ok view M (server g) \<and>
     (lapsed g \<or> card (dom (leases view (server g))) = card (holders g))"

context redis_reliable
begin

lemma allow_inflight_ok:
  assumes "allow_step R t p est a l s = (a', l', s')" "inflight_ok view (maxInflight l) s"
  shows "inflight_ok view (maxInflight l) s'"
  using assms inflight_ok_methods(1)[of l s "\<lambda>_. t"] inflight_ok_methods(2)[of "maxInflight l" s "\<lambda>_. t" l]
    inflight_ok_methods(3)[of "maxInflight l" s "\<lambda>_. t" "TrimSpace p" l] inflight_ok_methods(5)[of "maxInflight l" s "\<lambda>_. t" "TrimSpace p" est l]
  by (cases a) (auto simp: Let_def split: if_splits prod.splits option.splits bool.splits)

lemma settle_inflight_ok:
  assumes "settle_step R t c x l s = (x', l', s')" "inflight_ok view M s"
  shows "inflight_ok view M s'"
proof (cases "settle_releases c x")
  case True
  then obtain e l1 where "releaseInflight R (\<lambda>_. t) l s = (e, l1, s')" using settle_release_step[OF _ assms(1)] by metis
  then show ?thesis using inflight_ok_methods(2)[OF assms(2), of "\<lambda>_. t" l] by simp
next
  case False
  then show ?thesis using inflight_ok_frame[OF assms(2)] settle_quiet[OF _ assms(1)] by simp
qed

lemma exact_ok_step:
  assumes "gateway_step R view home g g'" "exact_ok view M g"
  shows "exact_ok view M g'"
proof -
  have ok: "slots_ok view g" "tokens_ok view g" "\<And>j. maxInflight (procs g j) = M" "inflight_ok view M (server g)"
      and ex: "lapsed g \<or> card (dom (leases view (server g))) = card (holders g)"
    using assms(2) by (auto simp: exact_ok_def)
  have th: "threads_ok g" and fin: "finite (holders g)" and ns: "no_str (view (server g) inflightKey)" using ok(1) by (auto simp: slots_ok_def)
  have ok': "slots_ok view g'" "tokens_ok view g'" using slots_ok_step[OF assms(1) ok(1)] tokens_ok_step[OF assms(1) ok(2) ns] .
  show ?thesis
    using assms(1)
  proof cases
    case (allow r a p ok rest t a' l' s')
    note h = holders_upd(1,2)[OF fin, of r "after_allow a'"] holders_upd(3)[OF fin, of r]
    have "inflight_ok view M s'" using allow_inflight_ok[OF allow(5)] ok(3,4) by simp
    moreover have "card (dom (leases view s')) = card (holders g')" if "\<not> lapsed g'"
    proof -
      have nl: "\<not> (allow_purges a \<and> runs_out view t (server g))" "card (dom (leases view (server g))) = card (holders g)"
        using that ex unfolding allow(1) by auto
      have nr: "a \<noteq> Returned ok1 e1" for ok1 e1
        using th thread_not_returned[OF allow(2)] unfolding threads_ok_def by blast
      have "0 < card (dom (leases view (server g)))" if "holds (InAllow a)" using that nl(2) h(3) holds_at[OF allow(2)] by simp
      from allow_exact[OF allow(5) ns nl(1) token_fresh[OF ok(2) allow(4)] this nr] show ?thesis
        using nl(2) h holds_at[OF allow(2)] unfolding allow(1) by auto
    qed
    ultimately show ?thesis using ok' ok(3) allow_limiter(2)[OF allow(5,4)] unfolding exact_ok_def allow(1) by auto
  next
    case (settle r x c rest t x' l' s')
    note h = holders_upd(1,2)[OF fin, of r "after_settle x'"] holders_upd(3)[OF fin, of r]
    have T: "thread_ok (phase_of g r) (c # rest)" using th settle(3) by (metis threads_ok_def)
    have "inflight_ok view M s'" using settle_inflight_ok[OF settle(5)] ok(4) by simp
    moreover have "card (dom (leases view s')) = card (holders g')" if "\<not> lapsed g'"
    proof -
      have nl: "\<not> (settle_releases c x \<and> runs_out view t (server g))" "card (dom (leases view (server g))) = card (holders g)"
        using that ex unfolding settle(1) by auto
      have "0 < card (dom (leases view (server g)))" if "holds (phase_of g r)" using that nl(2) h(3) by simp
      from settle_exact[OF settle(2) T settle(5) ns nl(1) this] settle_slots[OF settle(2) T settle(5) ns] show ?thesis
        using nl(2) h unfolding settle(1) by auto
    qed
    ultimately show ?thesis using ok' ok(3) settle_limiter(2)[OF settle(5)] unfolding exact_ok_def settle(1) by auto
  next
    case (others s')
    have "inflight_ok view M s'" using lapse_ok[OF ok(4), of s'] others(2,3) by (simp add: leases_def)
    then show ?thesis using ok' ok(3) ex unfolding exact_ok_def others(1) by auto
  qed
qed

lemma exact_ok_reachable: "(gateway_step R view home)\<^sup>*\<^sup>* g g' \<Longrightarrow> exact_ok view M g \<Longrightarrow> exact_ok view M g'"
  by (induction rule: rtranclp_induct) (auto intro: exact_ok_step)

end

end
