(* ===== verification/Concurrent_Guarantees.thy ===== *)
theory Concurrent_Guarantees
  imports Concurrent_Props
begin

text \<open>
  The guarantees of \<open>Concurrent_Props\<close> for the requests that \<open>HandleChat\<close> really makes: the limiter calls of a chat
  request are a plan (\<open>HandleChat_plan\<close>), whatever happens around it, so when every request has made all its
  calls nothing is left behind.
\<close>

section \<open>Probes\<close>

definition probes_ok :: "(nat \<Rightarrow> nat) \<Rightarrow> 's gateway_sys \<Rightarrow> bool" where
  "probes_ok home g \<longleftrightarrow> threads_ok g \<and> (\<forall>j. circuit_inv (circuit (procs g j)) \<and>
     (probeActive (circuit (procs g j)) \<longrightarrow> (\<exists>r. home r = j \<and> probing (phase_of g r))))"

lemma probe_resolved:
  "circuit_inv c \<Longrightarrow> \<not> probeActive (circuit_record t b c)" "circuit_inv c \<Longrightarrow> \<not> probeActive (cancelProbe c)"
  by (auto simp: circuit_inv_def circuit_op_defs Let_def split: CircuitState.splits)

lemma circuit_allow_refused: "circuit_allow t c = (False, c') \<Longrightarrow> c' = c"
  by (auto simp: circuit_allow_def admit_probe_def split: CircuitState.splits if_splits)

lemma circuit_counted [simp]: "circuit (countLimited l) = circuit l" "circuit (onCircuit f l) = f (circuit l)"
  by (simp_all add: countLimited_def onCircuit_def)

lemma allow_probe:
  assumes "allow_at ph = Some a" "thread_ok ph cs" "allow_step R t p est a l s = (a', l', s')" "circuit_inv (circuit l)"
  shows "circuit_inv (circuit l')"
    and "probeActive (circuit l') \<Longrightarrow> probing (after_allow a') \<or> \<not> probing ph \<and> probeActive (circuit l)"
proof -
  have "circuit_inv (snd (circuit_allow t (circuit l)))" "circuit_inv (cancelProbe (circuit l))"
    using assms(4) by (simp_all add: circuit_allow_inv cancelProbe_inv)
  then show "circuit_inv (circuit l')"
    using assms(3,4) by (cases a) (auto simp: Let_def split: if_splits prod.splits option.splits bool.splits dest: circuit_of_methods)
  assume "probeActive (circuit l')"
  then show "probing (after_allow a') \<or> \<not> probing ph \<and> probeActive (circuit l)"
    using assms probe_resolved(2)[OF assms(4)]
    by (cases ph; cases a) (auto simp: Let_def split: if_splits prod.splits option.splits bool.splits dest: circuit_of_methods circuit_allow_refused)
qed

lemma settle_probe:
  assumes "settle_at ph = Some x" "thread_ok ph (c # rest)" "settle_step R t c x l s = (x', l', s')" "circuit_inv (circuit l)"
  shows "circuit_inv (circuit l')"
    and "probeActive (circuit l') \<Longrightarrow> probing (after_settle x') \<or> \<not> probing ph \<and> probeActive (circuit l)"
proof -
  have "circuit_inv (circuit_record t b (circuit l))" "circuit_inv (cancelProbe (circuit l))" for b
    using assms(4) by (simp_all add: circuit_record_inv cancelProbe_inv)
  then show "circuit_inv (circuit l')"
    using assms(3,4) by (cases c; cases x) (auto simp: Let_def split: if_splits prod.splits dest: circuit_of_methods)
  assume "probeActive (circuit l')"
  then show "probing (after_settle x') \<or> \<not> probing ph \<and> probeActive (circuit l)"
    using assms probe_resolved[OF assms(4)]
    by (cases ph; cases c; cases x) (auto simp: Let_def split: if_splits prod.splits dest: circuit_of_methods)
qed

lemma probes_ok_move:
  assumes "probes_ok home g" "threads_ok (g\<lparr>procs := (procs g)(home r := l'), server := s', phase_of := (phase_of g)(r := ph'), todo := td, stray := n, lapsed := b\<rparr>)"
    and "circuit_inv (circuit l')" "probeActive (circuit l') \<Longrightarrow> probing ph' \<or> \<not> probing (phase_of g r) \<and> probeActive (circuit (procs g (home r)))"
  shows "probes_ok home (g\<lparr>procs := (procs g)(home r := l'), server := s', phase_of := (phase_of g)(r := ph'), todo := td, stray := n, lapsed := b\<rparr>)"
proof -
  have old: "\<exists>q. home q = j \<and> probing (phase_of g q)" if "probeActive (circuit (procs g j))" for j
    using assms(1) that by (simp add: probes_ok_def)
  have "\<exists>q. home q = j \<and> probing (((phase_of g)(r := ph')) q)" if pa: "probeActive (circuit (((procs g)(home r := l')) j))" for j
  proof (cases "j = home r")
    case True
    then show ?thesis using assms(4) pa old[of j] by (cases "probing ph'") (auto intro: exI[of _ r])
  next
    case False
    then obtain q where "home q = j" "probing (phase_of g q)" using False pa old[of j] by auto
    then show ?thesis using False by (intro exI[of _ q]) auto
  qed
  then show ?thesis using assms(1-3) by (auto simp: probes_ok_def)
qed

lemma probes_ok_step:
  assumes "gateway_step R view home g g'" "probes_ok home g"
  shows "probes_ok home g'"
proof -
  have th: "threads_ok g" "threads_ok g'" and inv: "circuit_inv (circuit (procs g j))" for j
    using assms threads_ok_step[OF assms(1)] by (auto simp: probes_ok_def)
  show ?thesis
    using assms(1)
  proof cases
    case (allow r a p ok rest t a' l' s')
    have "thread_ok (phase_of g r) (TAllow p ok # rest)" using th(1) allow(3) by (metis threads_ok_def)
    note pr = allow_probe[OF allow(2) this allow(5) inv]
    show ?thesis using probes_ok_move[OF assms(2) _ pr] th(2) unfolding allow(1) by blast
  next
    case (settle r x c rest t x' l' s')
    have "thread_ok (phase_of g r) (c # rest)" using th(1) settle(3) by (metis threads_ok_def)
    note pr = settle_probe[OF settle(2) this settle(5) inv]
    show ?thesis using probes_ok_move[OF assms(2) _ pr] th(2) unfolding settle(1) by blast
  next
    case (others s')
    then show ?thesis using assms(2) th(2) by (auto simp: probes_ok_def)
  qed
qed

lemma probes_ok_reachable: "(gateway_step R view home)\<^sup>*\<^sup>* g g' \<Longrightarrow> probes_ok home g \<Longrightarrow> probes_ok home g'"
  by (induction rule: rtranclp_induct) (auto intro: probes_ok_step)

section \<open>The calls of a chat request\<close>

abbreviation limiter_calls :: "'w chat_state \<Rightarrow> call list" where
  "limiter_calls s \<equiv> filter limiter_call (cs_trace s)"

lemma chat_failed_calls: "\<exists>c. settles_for p c \<and> limiter_calls (chat_failed h E L S D reqID p n result e s) = limiter_calls s @ [c]"
  by (auto simp: chat_failed_def persistConversation_def split: option.splits)

lemma chat_finish_calls: "limiter_calls (chat_finish E reqID result s) = limiter_calls s"
  by (auto simp: chat_finish_def Let_def split: prod.splits)

lemma chat_succeeded_calls:
  "limiter_calls (chat_succeeded h E L S reqID p n result s) = limiter_calls s @ [TRecord p (res_TotalTokens result)]"
  by (auto simp: chat_succeeded_def Let_def chat_finish_calls note_call_def split: prod.splits option.splits dest!: recordSuccess_trace do_set_trace)

lemma limiter_call_beside: "beside_stream limiter_call"
  by (simp add: beside_stream_def)

lemma chat_stream_calls:
  assumes "chat_stream h E L S (router_dify H Hb base maxB mu pe r) reqID p n query inputs conv s = Some s'"
  shows "\<exists>c. settles_for p c \<and> limiter_calls s' = limiter_calls s @ [c]"
proof -
  let ?D = "router_dify H Hb base maxB mu pe r"
  obtain result err s1 where "limiter_calls s1 = limiter_calls s"
    and s': "s' = (case err of Some e \<Rightarrow> chat_failed h E L S ?D reqID p n result e s1 | None \<Rightarrow> chat_succeeded h E L S reqID p n result s1)"
    using chat_stream_beside[OF assms limiter_call_beside] .
  then show ?thesis
    using chat_failed_calls[of p h E L S ?D reqID n result _ s1] chat_succeeded_calls[of h E L S reqID p n result s1]
    by (cases err) auto
qed

lemma chat_resolved_calls:
  assumes "chat_resolved h E L S asm (router_dify H Hb base maxB mu pe r) reqID p n query conv s = Some s'"
  shows "\<exists>c. settles_for p c \<and> limiter_calls s' = limiter_calls s @ [c]"
  using assms chat_stream_calls[of h E L S H Hb base maxB mu pe r reqID p n query]
  by (fastforce simp: chat_resolved_def Let_def split: sum.splits prod.splits if_splits)

lemma resolveConversation_calls:
  "resolveConversation h E S p n cc s = Some (conv, u, s') \<Longrightarrow> limiter_calls s' = limiter_calls s"
  by (auto simp: resolveConversation_def split: prod.splits sum.splits if_splits option.splits dest!: do_get_trace)

lemma HandleChat_plan:
  assumes "h_dify h = Some (router_dify H Hb base maxB mu pe r)" "HandleChat h E sess req s = Some s'" "cs_trace s = []"
  shows "chat_plan (limiter_calls s')"
proof (cases "\<exists>L S asm w conv u s1 s2. resolveConversation h E S (playerID sess) (TrimSpace (chat_GetNpcId req)) (chat_GetConversationId req)
      (note_call (TAllow (playerID sess) True) (s\<lparr>cs_world := w\<rparr>)) = Some (conv, u, s1) \<and>
    chat_resolved h E L S asm (router_dify H Hb base maxB mu pe r) (chat_GetRequestId req) (playerID sess) (TrimSpace (chat_GetNpcId req))
      (TrimSpace (chat_GetQuery req)) conv s1 = Some s2 \<and> s' = (case u of None \<Rightarrow> s2 | Some x \<Rightarrow> do_unlock S x s2)")
  case True
  then obtain L S asm w conv u s1 s2 where r: "resolveConversation h E S (playerID sess) (TrimSpace (chat_GetNpcId req)) (chat_GetConversationId req)
      (note_call (TAllow (playerID sess) True) (s\<lparr>cs_world := w\<rparr>)) = Some (conv, u, s1)"
    and c: "chat_resolved h E L S asm (router_dify H Hb base maxB mu pe r) (chat_GetRequestId req) (playerID sess) (TrimSpace (chat_GetNpcId req))
      (TrimSpace (chat_GetQuery req)) conv s1 = Some s2" and s': "s' = (case u of None \<Rightarrow> s2 | Some x \<Rightarrow> do_unlock S x s2)" by blast
  have "limiter_calls s1 = [TAllow (playerID sess) True]" using resolveConversation_calls[OF r] assms(3) by simp
  then obtain k where "settles_for (playerID sess) k" "limiter_calls s2 = [TAllow (playerID sess) True, k]" using chat_resolved_calls[OF c] by auto
  moreover have "limiter_calls s' = limiter_calls s2" using s' by (cases u) simp_all
  ultimately show ?thesis by (auto simp: chat_plan_def)
next
  case False
  then show ?thesis
    using assms by (auto simp: HandleChat_def Let_def chat_admitted_def chat_plan_def split: if_splits option.splits prod.splits) blast+
qed

section \<open>Whole methods\<close>

text \<open>A request can run a method without interruption.\<close>

lemma allow_at_after: "\<forall>ok e. a \<noteq> Returned ok e \<Longrightarrow> allow_at (after_allow a) = Some a"
  by (cases a) auto

lemma settle_at_after: "\<forall>e. x \<noteq> SettleReturned e \<Longrightarrow> settle_at (after_settle x) = Some x"
  by (cases x) simp_all

lemma allow_serial_le:
  assumes "allow_step R t p est a l s = (a', l', s')" "memberSerial l \<noteq> - 1"
  shows "unat (memberSerial l') \<le> Suc (unat (memberSerial l))"
  using assms next_serial_unat[OF assms(2)]
  by (cases a; auto simp: acquireInflight_def releaseInflight_def allowRate_def next_serial_def onCircuit_def countLimited_def Let_def
      split: if_splits prod.splits option.splits bool.splits sum.splits)

context redis_server
begin

text \<open>At one and the same time no lease runs out.\<close>

lemma runs_out_iff: "runs_out view t s \<longleftrightarrow> (\<exists>m sc. leases view s m = Some sc \<and> 0 \<le> sc \<and> sc \<le> unix_milli t)"
  by (auto simp: runs_out_def outside_def fun_eq_iff split: option.splits)

lemma acquire_runs_out:
  assumes "acquireInflight R (\<lambda>_. t) l s = (e, l', s')" "no_str (view s inflightKey)" "\<not> runs_out view t s"
  shows "\<not> runs_out view t s'"
proof -
  let ?f = "acquireInflightScript R inflightKey (unix_milli t) (maxInflight l) (unix_milli t + millis_at_least_1 (inflightTTL l))
    (fresh_token l t) (millis_at_least_1 (inflightTTL l))"
  define P where "P s1 \<longleftrightarrow> no_str (view s1 inflightKey) \<and> \<not> runs_out view t s1" for s1
  have pos: "\<not> unix_milli t + millis_at_least_1 (inflightTTL l) \<le> unix_milli t" using millis_pos(1)[of "inflightTTL l"] by linarith
  have step: "P (snd (?f s1))" if "P s1" for s1
    using that acquire_script(2)[of s1 inflightKey "millis_at_least_1 (inflightTTL l)" "unix_milli t" "maxInflight l"] pos
    by (auto simp: P_def runs_out_iff leases_def outside_Some_iff split: if_splits)
  have "s' = snd (rRun R ?f s)" using acquireInflight_world[of "\<lambda>_. t" l s] assms(1) by simp
  moreover have "P (snd (rRun R ?f s))" using step assms(2,3) by (intro run_preserves[where P = P]) (auto simp: P_def)
  ultimately show ?thesis by (simp add: P_def)
qed

lemma allow_runs_out:
  assumes st: "allow_step R t p est a l s = (a', l', s')" and "no_str (view s inflightKey)" "\<not> runs_out view t s" "\<And>e. a \<noteq> Undo e"
  shows "\<not> runs_out view t s'"
proof (cases "a = Acquire")
  case True
  obtain e l1 s1 where q: "acquireInflight R (\<lambda>_. t) l s = (e, l1, s1)" by (metis prod_cases3)
  then show ?thesis using st True acquire_runs_out[OF q assms(2,3)] by (auto split: option.splits)
next
  case False
  then have "view s' inflightKey = view s inflightKey"
    using st quiet_leases(1)[of "\<lambda>_. t" "TrimSpace p" l s] quiet_leases(3)[of "\<lambda>_. t" "TrimSpace p" est l s] assms(4)
    by (cases a) (auto simp: Let_def split: if_splits prod.splits option.splits bool.splits)
  then show ?thesis using assms(3) by (simp add: runs_out_iff leases_def)
qed

lemma allow_iter_refused: "allow_iter R now p est k (Undo x, l, s) = (Returned ok e, l', s') \<Longrightarrow> \<not> ok"
proof -
  assume it: "allow_iter R now p est k (Undo x, l, s) = (Returned ok e, l', s')"
  obtain e1 l1 s1 where "releaseInflight R (\<lambda>_. now s) l s = (e1, l1, s1)" by (metis prod_cases3)
  then show ?thesis using it by (cases k; cases "k - 1") (auto simp: Let_def)
qed

lemma allow_reachable:
  assumes "allow_iter R (\<lambda>_. t) p 0 k (a, procs g (home r), server g) = (Returned ok' e, l', s')"
    and "allow_at (phase_of g r) = Some a" "\<And>ok e. a \<noteq> Returned ok e" "todo g r = TAllow p ok # rest" "ok = (ok' \<and> e = None)"
    and "unat (memberSerial (procs g (home r))) + k < 2 ^ 64"
  shows "\<exists>g'. (gateway_step R view home)\<^sup>*\<^sup>* g g' \<and> procs g' = (procs g)(home r := l') \<and> server g' = s' \<and>
     phase_of g' = (phase_of g)(r := if ok then Held else Out) \<and> todo g' = (todo g)(r := rest) \<and>
     (ok \<and> no_str (view (server g) inflightKey) \<and> \<not> runs_out view t (server g) \<longrightarrow> lapsed g' = lapsed g)"
  using assms
proof (induction k arbitrary: g a)
  case 0
  then show ?case by simp
next
  case (Suc k)
  let ?l = "procs g (home r)"
  obtain a1 l1 s1 where st: "allow_step R t p 0 a ?l (server g) = (a1, l1, s1)" by (metis prod_cases3)
  have serial: "memberSerial ?l \<noteq> - 1"
  proof
    assume "memberSerial ?l = - 1"
    then have "unat (memberSerial ?l) = 2 ^ 64 - 1" by (simp add: unsigned_minus_1_eq_mask mask_eq_exp_minus_1)
    then show False using Suc.prems(6) by simp
  qed
  have iter: "allow_iter R (\<lambda>_. t) p 0 k (a1, l1, s1) = (Returned ok' e, l', s')" using Suc.prems(1) st by simp
  have ans: "a1 = Returned ok1 e1 \<Longrightarrow> ok = (ok1 \<and> e1 = None)" for ok1 e1 using iter Suc.prems(5) by auto
  let ?g = "g\<lparr>procs := (procs g)(home r := l1), server := s1, phase_of := (phase_of g)(r := after_allow a1),
          todo := (todo g)(r := (case a1 of Returned _ _ \<Rightarrow> rest | _ \<Rightarrow> TAllow p ok # rest)),
          stray := stray g + of_bool (allow_stray R view t a ?l (server g)),
          lapsed := (lapsed g \<or> allow_purges a \<and> runs_out view t (server g))\<rparr>"
  have one: "gateway_step R view home g ?g"
    by (rule gateway_step.allow[where r = r and a = a and p = p and ok = ok and rest = rest and t = t]) (fact Suc.prems(2,4) serial st ans)+
  have keeps: "ok \<Longrightarrow> no_str (view (server g) inflightKey) \<Longrightarrow> \<not> runs_out view t (server g) \<Longrightarrow> no_str (view s1 inflightKey) \<and> \<not> runs_out view t s1"
    using allow_slots[OF st] allow_runs_out[OF st] allow_iter_refused[of "\<lambda>_. t" p 0 "Suc k" _ ?l "server g"] Suc.prems(1,5) by metis
  show ?case
  proof (cases "\<exists>ok1 e1. a1 = Returned ok1 e1")
    case True
    then obtain ok1 e1 where a1: "a1 = Returned ok1 e1" by blast
    then have "l1 = l'" "s1 = s'" "ok = (ok1 \<and> e1 = None)" using iter ans[OF a1] by simp_all
    then show ?thesis using r_into_rtranclp[of "gateway_step R view home", OF one] a1 by (intro exI[of _ ?g] conjI) simp_all
  next
    case False
    have "\<exists>g'. (gateway_step R view home)\<^sup>*\<^sup>* ?g g' \<and> procs g' = (procs ?g)(home r := l') \<and> server g' = s' \<and>
       phase_of g' = (phase_of ?g)(r := if ok then Held else Out) \<and> todo g' = (todo ?g)(r := rest) \<and>
       (ok \<and> no_str (view (server ?g) inflightKey) \<and> \<not> runs_out view t (server ?g) \<longrightarrow> lapsed g' = lapsed ?g)"
      by (rule Suc.IH[where a = a1]) (use iter False Suc.prems(5,6) allow_serial_le[OF st serial] allow_at_after[of a1] in \<open>auto split: allow_phase.splits\<close>)
    then obtain g' where g': "(gateway_step R view home)\<^sup>*\<^sup>* ?g g'" "procs g' = (procs g)(home r := l')" "server g' = s'"
        "phase_of g' = (phase_of g)(r := if ok then Held else Out)" "todo g' = (todo g)(r := rest)"
        "ok \<and> no_str (view s1 inflightKey) \<and> \<not> runs_out view t s1 \<longrightarrow> lapsed g' = lapsed ?g"
      by auto
    have "(gateway_step R view home)\<^sup>*\<^sup>* g g'" by (rule converse_rtranclp_into_rtranclp[of "gateway_step R view home", OF one g'(1)])
    then show ?thesis using g'(2-6) keeps by (intro exI[of _ g']) auto
  qed
qed

end

lemma settle_reachable:
  assumes "settle_iter R (\<lambda>_. t) c k (x, procs g (home r), server g) = (SettleReturned e, l', s')"
    and "settle_at (phase_of g r) = Some x" "\<And>e. x \<noteq> SettleReturned e" "todo g r = c # rest" "is_settle c"
  shows "\<exists>g'. (gateway_step R view home)\<^sup>*\<^sup>* g g' \<and> procs g' = (procs g)(home r := l') \<and> server g' = s' \<and>
     phase_of g' = (phase_of g)(r := Out) \<and> todo g' = (todo g)(r := rest)"
  using assms
proof (induction k arbitrary: g x)
  case 0
  then show ?case by simp
next
  case (Suc k)
  let ?l = "procs g (home r)"
  obtain x1 l1 s1 where st: "settle_step R t c x ?l (server g) = (x1, l1, s1)" by (metis prod_cases3)
  have iter: "settle_iter R (\<lambda>_. t) c k (x1, l1, s1) = (SettleReturned e, l', s')" using Suc.prems(1) st by simp
  let ?g = "g\<lparr>procs := (procs g)(home r := l1), server := s1, phase_of := (phase_of g)(r := after_settle x1),
          todo := (todo g)(r := (case x1 of SettleReturned _ \<Rightarrow> rest | _ \<Rightarrow> c # rest)),
          stray := stray g + of_bool (settle_releases c x \<and> release_failed R t ?l (server g)),
          lapsed := (lapsed g \<or> settle_releases c x \<and> runs_out view t (server g))\<rparr>"
  have one: "gateway_step R view home g ?g" by (rule gateway_step.settle[where r = r and x = x and c = c and rest = rest and t = t]) (fact Suc.prems(2,4,5) st)+
  show ?case
  proof (cases "\<exists>e1. x1 = SettleReturned e1")
    case True
    moreover have "settle_iter R (\<lambda>_. t) c k (SettleReturned e1, l1, s1) = (SettleReturned e1, l1, s1)" for e1 by (induction k) simp_all
    ultimately show ?thesis using one iter by (intro exI[of _ ?g]) auto
  next
    case False
    have "\<exists>g'. (gateway_step R view home)\<^sup>*\<^sup>* ?g g' \<and> procs g' = (procs ?g)(home r := l') \<and> server g' = s' \<and>
       phase_of g' = (phase_of ?g)(r := Out) \<and> todo g' = (todo ?g)(r := rest)"
      by (rule Suc.IH[where x = x1]) (use iter False Suc.prems(5) settle_at_after[of x1] in \<open>auto split: settle_phase.splits\<close>)
    then show ?thesis using one by (auto intro: converse_rtranclp_into_rtranclp)
  qed
qed

section \<open>The guarantees\<close>

definition gateway_start :: "(nat \<Rightarrow> redisLimiter) \<Rightarrow> 's \<Rightarrow> (nat \<Rightarrow> call list) \<Rightarrow> 's gateway_sys" where
  "gateway_start ps s plan = \<lparr>procs = ps, server = s, phase_of = (\<lambda>_. Out), todo = plan, stray = 0, lapsed = False\<rparr>"

text \<open>Each plan is empty or the limiter calls of one run of \<open>HandleChat\<close>, in any world.\<close>

definition chat_calls :: "'w handler \<Rightarrow> (nat \<Rightarrow> call list) \<Rightarrow> bool" where
  "chat_calls h plan \<longleftrightarrow> (\<forall>r. plan r = [] \<or> (\<exists>E sess req s s'. HandleChat h E sess req s = Some s' \<and> cs_trace s = [] \<and> plan r = limiter_calls s'))"

lemma gateway_start_simps [simp]:
  "procs (gateway_start ps s plan) = ps" "server (gateway_start ps s plan) = s" "phase_of (gateway_start ps s plan) = (\<lambda>_. Out)"
  "todo (gateway_start ps s plan) = plan" "stray (gateway_start ps s plan) = 0" "lapsed (gateway_start ps s plan) = False"
  "holders (gateway_start ps s plan) = {}"
  by (simp_all add: gateway_start_def holders_def)

lemma start_threads:
  assumes "h_dify h = Some (router_dify H Hb base maxB mu pe r)" "chat_calls h plan"
  shows "threads_ok (gateway_start ps s plan)"
proof -
  have "chat_plan (plan r)" for r
  proof (cases "plan r = []")
    case False
    then obtain E sess req s s' where "HandleChat h E sess req s = Some s'" "cs_trace s = []" "plan r = limiter_calls s'"
      using assms(2) unfolding chat_calls_def by blast
    then show ?thesis using HandleChat_plan[OF assms(1)] by metis
  qed (simp add: chat_plan_def)
  then show ?thesis by (simp add: threads_ok_def)
qed

lemma all_made: "threads_ok g \<Longrightarrow> todo g r = [] \<Longrightarrow> phase_of g r = Out"
  unfolding threads_ok_def by (metis thread_finished)

text \<open>C8: no slot is left behind. Any number of chat requests in any number of gateway processes, interleaved
  between all their round trips, with any clocks and a Redis that may fail, retry or expire keys: at
  every moment there are at most as many leases as requests between acquiring and releasing a slot,
  plus one for each round trip whose failure left a lease behind. Once every request has made all
  its calls, only the latter remain.\<close>

theorem slots_never_leak:
  assumes "redis_server R view pttl"
    and "h_dify h = Some (router_dify H Hb base maxB mu pe rt)" and "chat_calls h plan"
    and "view s inflightKey = None"
    and "(gateway_step R view home)\<^sup>*\<^sup>* (gateway_start ps s plan) g"
  shows "card (dom (leases view (server g))) \<le> card {r. holds (phase_of g r)} + stray g \<and>
     ((\<forall>r. todo g r = []) \<longrightarrow> card (dom (leases view (server g))) \<le> stray g)"
proof -
  have "slots_ok view (gateway_start ps s plan)"
    using start_threads[OF assms(2,3)] assms(4) by (simp add: slots_ok_def leases_def)
  then have ok: "slots_ok view g" by (rule redis_server.slots_ok_reachable[OF assms(1,5)])
  then have "holders g = {}" if "\<forall>r. todo g r = []" using that all_made[of g] by (auto simp: slots_ok_def holders_def)
  then show ?thesis using ok by (auto simp: slots_ok_def holders_def)
qed

text \<open>C9: the semaphore bounds what really runs. Over a Redis that answers, with processes that share
  \<open>MaxInflightUpstream\<close> and have distinct instance ids: as long as no lease has run out, the requests of
  all processes that hold a slot, and so all upstream calls in progress, are exactly as many as the
  leases and never more than that bound, in every interleaving.\<close>

theorem upstream_calls_bounded:
  assumes "redis_reliable R view pttl"
    and "h_dify h = Some (router_dify H Hb base maxB mu pe rt)" and "chat_calls h plan"
    and "view s inflightKey = None" and "inj (\<lambda>j. instanceID (ps j))" and "\<forall>j. maxInflight (ps j) = M" and "0 \<le> M"
    and "(gateway_step R view home)\<^sup>*\<^sup>* (gateway_start ps s plan) g" and "\<not> lapsed g"
  shows "finite {r. holds (phase_of g r)} \<and> card {r. holds (phase_of g r)} = card (dom (leases view (server g))) \<and>
     int (card {r. holds (phase_of g r)}) \<le> M"
proof -
  have "exact_ok view M (gateway_start ps s plan)"
    using start_threads[OF assms(2,3)] assms(4-7)
    by (simp add: exact_ok_def slots_ok_def tokens_ok_def inflight_ok_def leases_def)
  then have "exact_ok view M g" by (rule redis_reliable.exact_ok_reachable[OF assms(1,8)])
  then show ?thesis using assms(9) by (auto simp: exact_ok_def slots_ok_def inflight_ok_def holders_def leases_def)
qed

text \<open>C10: no probe is stranded. Under the same interleavings, whatever Redis does, when a process has no
  request between the breaker's \<open>allow\<close> and the call that resolves it, its breaker has no probe
  outstanding: it is closed, or lets a request through as soon as its open window is over. In
  particular so once every request has made all its calls.\<close>

theorem no_probe_stranded:
  assumes "h_dify h = Some (router_dify H Hb base maxB mu pe rt)" and "chat_calls h plan"
    and "\<forall>j. circuit_inv (circuit (ps j)) \<and> \<not> probeActive (circuit (ps j))"
    and "(gateway_step R view home)\<^sup>*\<^sup>* (gateway_start ps s plan) g"
    and "\<forall>r. home r = j \<longrightarrow> \<not> probing (phase_of g r) \<or> todo g r = []"
  shows "\<not> probeActive (circuit (procs g j)) \<and>
     ((state (circuit (procs g j)) = CircuitOpen \<longrightarrow> OpenDuration (cfg (circuit (procs g j))) \<le> time_sub t (openedAt (circuit (procs g j)))) \<longrightarrow>
       fst (circuit_allow t (circuit (procs g j))))"
proof -
  have "probes_ok home (gateway_start ps s plan)" using start_threads[OF assms(1,2)] assms(3) by (simp add: probes_ok_def)
  then have ok: "probes_ok home g" by (rule probes_ok_reachable[OF assms(4)])
  then have out: "phase_of g r = Out" if "todo g r = []" for r using that all_made[of g r] by (simp add: probes_ok_def)
  have "\<not> probing (phase_of g r)" if "home r = j" for r using assms(5) that out[of r] by (metis probing.simps(1))
  then have "\<not> probeActive (circuit (procs g j))" using ok unfolding probes_ok_def by blast
  then show ?thesis by (auto simp: allow_eq_ready circuit_ready_def split: CircuitState.splits)
qed

section \<open>An example\<close>

text \<open>One request of the demo handler, admitted by the limiter over the in-memory server and settled.\<close>

definition demo_plan :: "nat \<Rightarrow> call list" where
  "demo_plan r = (if r = 0 then [TAllow ''p1'' True, TRecord ''p1'' 5] else [])"

lemma demo_plan_calls: "chat_calls (demo_handler AllowAll) demo_plan"
proof -
  obtain s' where s': "demo_run AllowAll = Some s'" "limiter_calls s' = [TAllow ''p1'' True, TRecord ''p1'' 5]" using demo_trace by auto
  then have "\<exists>E sess req s s'. HandleChat (demo_handler AllowAll) E sess req s = Some s' \<and> cs_trace s = [] \<and> demo_plan 0 = limiter_calls s'"
    unfolding demo_run_def by (intro exI[of _ demo_env] exI[of _ demo_session] exI[of _ demo_req] exI[of _ demo_start] exI[of _ s'])
      (simp add: demo_plan_def demo_start_def)
  then show ?thesis unfolding chat_calls_def by (simp add: demo_plan_def)
qed

lemma p1_trim: "TrimSpace ''p1'' = ''p1''"
  by (simp add: TrimSpace_graphic is_graphic_def)

lemma demo_admitted:
  "\<exists>l' s'. limiter_Allow mem_redis (\<lambda>_. 5 * second) ''p1'' 0 (sample_procs 0) empty_mem = ((True, None), l', s')"
proof -
  have "circuit_ready (5 * second) default_breaker" by (simp add: circuit_ready_def default_breaker_def)
  then have "allow_spec mem_view (5 * second) ''p1'' 0 (sample_procs 0) empty_mem = None"
    by (simp add: allow_spec_def used_tokens_def live_slots_def window_calls_def dom_outside sample_procs_def)
      (simp add: sample_limiter_def wrap64_def)
  then show ?thesis
    using mrr.Allow_guarded[of "\<lambda>_. 5 * second" "5 * second" empty_mem "''p1''" "sample_procs 0" "''p1''" 0] p1_trim
    by (auto simp: dom_outside)
qed

abbreviation demo_begin :: "mem gateway_sys" where
  "demo_begin \<equiv> gateway_start sample_procs empty_mem demo_plan"

lemma demo_held:
  "\<exists>g. (gateway_step mem_redis mem_view (\<lambda>_. 0))\<^sup>*\<^sup>* demo_begin g \<and> phase_of g = (\<lambda>_. Out)(0 := Held) \<and>
     todo g = demo_plan(0 := [TRecord ''p1'' 5]) \<and> \<not> lapsed g"
proof -
  obtain l' s' where a: "limiter_Allow mem_redis (\<lambda>_. 5 * second) ''p1'' 0 (sample_procs 0) empty_mem = ((True, None), l', s')"
    using demo_admitted by blast
  have "unat (memberSerial (sample_procs 0)) + 7 < 2 ^ 64" by (simp add: sample_procs_def)
  moreover have "allow_iter mem_redis (\<lambda>_. 5 * second) ''p1'' 0 7 (Entry, procs demo_begin 0, server demo_begin) = (Returned True None, l', s')"
    using allow_steps[OF a] by simp
  ultimately show ?thesis
    using mr.allow_reachable[of "5 * second" "''p1''" 7 Entry demo_begin "\<lambda>_. 0" 0 True None l' s' True "[TRecord ''p1'' 5]"]
    by (auto simp: demo_plan_def mr.runs_out_iff leases_def)
qed

lemma demo_settled:
  "\<exists>g. (gateway_step mem_redis mem_view (\<lambda>_. 0))\<^sup>*\<^sup>* demo_begin g \<and> (\<forall>r. todo g r = [])"
proof -
  obtain g where g: "(gateway_step mem_redis mem_view (\<lambda>_. 0))\<^sup>*\<^sup>* demo_begin g" "phase_of g = (\<lambda>_. Out)(0 := Held)"
      "todo g = demo_plan(0 := [TRecord ''p1'' 5])"
    using demo_held by blast
  obtain e l' s' where r: "limiter_Record mem_redis (\<lambda>_. 5 * second) ''p1'' 5 (procs g 0) (server g) = (e, l', s')" by (metis prod_cases3)
  obtain g' where "(gateway_step mem_redis mem_view (\<lambda>_. 0))\<^sup>*\<^sup>* g g'" "todo g' = (todo g)(0 := [])"
    using settle_reachable[where g = g and home = "\<lambda>_. 0" and r = 0 and x = SettleEntry and k = 3 and rest = "[]" and view = mem_view,
      OF settle_steps(1)[OF r]] g by auto
  then show ?thesis using g by (intro exI[of _ g'] conjI rtranclp_trans[OF g(1)]) (auto simp: demo_plan_def)
qed

theorem slots_never_leak_witness:
  "\<exists>g. (gateway_step mem_redis mem_view (\<lambda>_. 0))\<^sup>*\<^sup>* demo_begin g \<and> card (dom (leases mem_view (server g))) \<le> stray g"
proof -
  obtain g where g: "(gateway_step mem_redis mem_view (\<lambda>_. 0))\<^sup>*\<^sup>* demo_begin g" "\<forall>r. todo g r = []" using demo_settled by blast
  from slots_never_leak[OF mr.redis_server_axioms demo_dify_eq demo_plan_calls _ g(1)] g show ?thesis by auto
qed

theorem upstream_calls_bounded_witness:
  "\<exists>g. (gateway_step mem_redis mem_view (\<lambda>_. 0))\<^sup>*\<^sup>* demo_begin g \<and>
     card {r. holds (phase_of g r)} = 1 \<and> card (dom (leases mem_view (server g))) = 1"
proof -
  obtain g where g: "(gateway_step mem_redis mem_view (\<lambda>_. 0))\<^sup>*\<^sup>* demo_begin g" "phase_of g = (\<lambda>_. Out)(0 := Held)" "\<not> lapsed g"
    using demo_held by blast
  have "{r. holds (phase_of g r)} = {0}" using g(2) by auto
  moreover have "inj (\<lambda>j. instanceID (sample_procs j))" by (auto simp: sample_procs_def inj_def)
  ultimately show ?thesis
    using upstream_calls_bounded[OF mrr.redis_reliable_axioms demo_dify_eq demo_plan_calls _ _ _ _ g(1,3), of 2] g(1) by (auto simp: sample_procs_def)
qed

theorem no_probe_stranded_witness:
  "\<exists>g. (gateway_step mem_redis mem_view (\<lambda>_. 0))\<^sup>*\<^sup>* demo_begin g \<and> \<not> probeActive (circuit (procs g 0))"
proof -
  obtain g where g: "(gateway_step mem_redis mem_view (\<lambda>_. 0))\<^sup>*\<^sup>* demo_begin g" "\<forall>r. todo g r = []" using demo_settled by blast
  have "circuit_inv default_breaker \<and> \<not> probeActive default_breaker"
    by (simp add: default_breaker_def circuit_inv_def config_ok_def max_int64_def)
  then show ?thesis using no_probe_stranded[OF demo_dify_eq demo_plan_calls _ g(1), of 0] g by (auto simp: sample_procs_def)
qed

end
