(* ===== verification/Creation.thy ===== *)
theory Creation
  imports Runtime
begin

text \<open>
  Concurrent first messages. \<open>resolveConversation\<close> of \<^verbatim>\<open>pipeline/handler.go\<close> is cut at its calls of the store
  (\<open>resolve_step\<close>); run alone the pieces are the function over the Redis store (\<open>resolveConversation_moves\<close>). \<open>creation_step\<close>
  interleaves any number of requests of one player to one npc, from the first look-up to the release
  of the creation lock, with resets and with later writes of the mapping, in the orders a chat request
  makes them (\<open>HandleChat_writes\<close>). Shown: between two resets at most one request creates the conversation.
\<close>

section \<open>Resolving a conversation, one step per call of the store\<close>

datatype resolve_phase =
    Look | Await | Relook | GiveBack "store_error + string"
  | Resolved "store_error + string" bool

text \<open>\<open>Resolved conv kept\<close>: the function has returned \<open>conv\<close>; \<open>kept\<close> tells whether with an \<open>unlock\<close>. \<open>Await\<close> is one round of
  the loop of \<open>AcquireConversationLock\<close>, which has drawn \<open>token\<close>.\<close>

fun resolve_step ::
  "'s redis \<Rightarrow> 's redis \<Rightarrow> ('s \<Rightarrow> string option \<times> 's) \<Rightarrow> store_error + string \<Rightarrow> int \<Rightarrow> string \<Rightarrow> string \<Rightarrow> string \<Rightarrow>
   resolve_phase \<Rightarrow> 's \<Rightarrow> resolve_phase \<times> 's" where
  "resolve_step R Rd wait token ttl clientConvID p n Look s =
     (case GetConversation R p n s of
        (Inl e, s1) \<Rightarrow> (Resolved (Inl e) False, s1)
      | (Inr conv, s1) \<Rightarrow>
          if conv \<noteq> [] then (Resolved (Inr conv) False, s1)
          else if TrimSpace clientConvID \<noteq> [] then (Resolved (Inr (TrimSpace clientConvID)) False, s1)
          else (Await, s1))"
| "resolve_step R Rd wait token ttl clientConvID p n Await s =
     (case token of
        Inl e \<Rightarrow> (Resolved (Inl e) False, s)
      | Inr tok \<Rightarrow>
          (case try_lock R (lockKey p n) tok ttl s of
             (Inl e, s1) \<Rightarrow> (Resolved (Inl e) False, s1)
           | (Inr ok, s1) \<Rightarrow>
               if ok then (Relook, s1)
               else (case wait s1 of
                       (Some e, s2) \<Rightarrow> (Resolved (Inl (StoreCtx e)) False, s2)
                     | (None, s2) \<Rightarrow> (Await, s2))))"
| "resolve_step R Rd wait token ttl clientConvID p n Relook s =
     (case GetConversation R p n s of
        (Inl e, s1) \<Rightarrow> (GiveBack (Inl e), s1)
      | (Inr conv, s1) \<Rightarrow> if conv \<noteq> [] then (GiveBack (Inr conv), s1) else (Resolved (Inr []) True, s1))"
| "resolve_step R Rd wait token ttl clientConvID p n (GiveBack conv) s =
     (case token of
        Inl e \<Rightarrow> (Resolved conv False, s)
      | Inr tok \<Rightarrow> (Resolved conv False, snd (call_unlock Rd (releaser (lockKey p n) tok) s)))"
| "resolve_step R Rd wait token ttl clientConvID p n (Resolved conv kept) s = (Resolved conv kept, s)"

text \<open>Run alone, the steps are \<open>resolveConversation\<close> over the Redis store.\<close>

definition resolve_move ::
  "'s redis \<Rightarrow> 's redis \<Rightarrow> ('s \<Rightarrow> string option \<times> 's) \<Rightarrow> store_error + string \<Rightarrow> int \<Rightarrow> string \<Rightarrow> string \<Rightarrow> string \<Rightarrow>
   resolve_phase \<times> 's \<Rightarrow> resolve_phase \<times> 's \<Rightarrow> bool" where
  "resolve_move R Rd wait token ttl cc p n x y \<longleftrightarrow> resolve_step R Rd wait token ttl cc p n (fst x) (snd x) = y"

lemma move_step: "resolve_step R Rd wait token ttl cc p n ph s = y \<Longrightarrow> (resolve_move R Rd wait token ttl cc p n)\<^sup>*\<^sup>* (ph, s) y"
  by (rule r_into_rtranclp) (simp add: resolve_move_def)

lemma acquire_loop_moves:
  "acquire_loop R' wait' key tok ttl s = Some y \<Longrightarrow> R' = R \<longrightarrow> wait' = wait \<longrightarrow> key = lockKey p n \<longrightarrow>
   (resolve_move R Rd wait (Inr tok) ttl cc p n)\<^sup>*\<^sup>* (Await, s) (case fst y of Inl e \<Rightarrow> Resolved (Inl e) False | Inr u \<Rightarrow> Relook, snd y) \<and>
   (\<forall>u. fst y = Inr u \<longrightarrow> u = releaser (lockKey p n) tok)"
proof (induction rule: acquire_loop.raw_induct[rotated, consumes 1, case_names step])
  case (step loop R' wait' key tok ttl s y)
  show ?case
  proof (intro impI)
    assume eqs: "R' = R" "wait' = wait" "key = lockKey p n"
    obtain r s1 where r: "try_lock R (lockKey p n) tok ttl s = (r, s1)" by (cases "try_lock R (lockKey p n) tok ttl s")
    obtain e s2 where w: "wait s1 = (e, s2)" by (cases "wait s1")
    note body = step(2)[unfolded eqs r prod.case]
    show "(resolve_move R Rd wait (Inr tok) ttl cc p n)\<^sup>*\<^sup>* (Await, s) (case fst y of Inl e \<Rightarrow> Resolved (Inl e) False | Inr u \<Rightarrow> Relook, snd y) \<and>
       (\<forall>u. fst y = Inr u \<longrightarrow> u = releaser (lockKey p n) tok)"
    proof (cases "r = Inr False \<and> e = None")
      case True
      then have "loop R wait (lockKey p n) tok ttl s2 = Some y" using body w by simp
      note IH = step(1)[OF this, simplified]
      have "resolve_step R Rd wait (Inr tok) ttl cc p n Await s = (Await, s2)" using True r w by simp
      from rtranclp_trans[OF move_step[OF this]] IH show ?thesis by blast
    next
      case False
      then show ?thesis using body r w by (auto intro!: move_step split: sum.splits option.splits if_splits)
    qed
  qed
qed

lemma do_get_redis:
  "do_get (redis_store R Rd wait lr) p n t = (g, t') \<Longrightarrow> GetConversation R p n (gw_redis (cs_world t)) = (g, gw_redis (cs_world t'))"
  by (auto simp: do_get_def redis_store_def with_redis_def note_call_def split: prod.splits)

text \<open>The second look-up, under the lock.\<close>

lemma relook_moves:
  assumes get: "do_get (redis_store R Rd wait lr) p n s2 = (g, s3)" and v: "v = releaser (lockKey p n) tok"
    and res: "(conv, u, s') = (case g of Inl e \<Rightarrow> (Inl e, None, do_unlock (redis_store R Rd wait lr) v s3)
      | Inr c \<Rightarrow> if c \<noteq> [] then (Inr c, None, do_unlock (redis_store R Rd wait lr) v s3) else (Inr c, Some v, s3))"
  shows "(resolve_move R Rd wait (Inr tok) ttl cc p n)\<^sup>*\<^sup>* (Relook, gw_redis (cs_world s2)) (Resolved conv (u \<noteq> None), gw_redis (cs_world s'))"
    and "u = Some x \<Longrightarrow> x = v"
proof -
  let ?x2 = "gw_redis (cs_world s2)" and ?x3 = "gw_redis (cs_world s3)"
  note g = do_get_redis[OF get]
  have x3: "gw_redis (cs_world (do_unlock (redis_store R Rd wait lr) v s3)) = snd (call_unlock Rd v ?x3)"
    by (simp add: note_call_def do_unlock_def redis_store_def)
  show "(resolve_move R Rd wait (Inr tok) ttl cc p n)\<^sup>*\<^sup>* (Relook, ?x2) (Resolved conv (u \<noteq> None), gw_redis (cs_world s'))"
  proof (cases "g = Inr []")
    case True
    then show ?thesis using g res by (intro move_step) simp
  next
    case False
    then have "(resolve_move R Rd wait (Inr tok) ttl cc p n)\<^sup>*\<^sup>* (Relook, ?x2) (GiveBack g, ?x3)" using g by (intro move_step) (auto split: sum.splits)
    moreover have "(resolve_move R Rd wait (Inr tok) ttl cc p n)\<^sup>*\<^sup>* (GiveBack g, ?x3) (Resolved g False, snd (call_unlock Rd v ?x3))"
      using v by (intro move_step) simp
    moreover have "conv = g" "u = None" "s' = do_unlock (redis_store R Rd wait lr) v s3" using res False by (auto split: sum.splits if_splits)
    ultimately show ?thesis using x3 by (auto intro: rtranclp_trans)
  qed
  show "u = Some x \<Longrightarrow> x = v" using res by (auto split: sum.splits if_splits)
qed

lemma locked_moves:
  assumes "sLock (redis_store R Rd wait lr) p n ttl (cs_world s1) = Some (r, w)"
    and "(conv, u, s') = (case r of Inl e \<Rightarrow> (Inl e, None, note_call (TLock p n False) (s1\<lparr>cs_world := w\<rparr>))
      | Inr v \<Rightarrow> (case do_get (redis_store R Rd wait lr) p n (note_call (TLock p n True) (s1\<lparr>cs_world := w\<rparr>)) of (g, s3) \<Rightarrow>
          (case g of Inl e \<Rightarrow> (Inl e, None, do_unlock (redis_store R Rd wait lr) v s3)
           | Inr c \<Rightarrow> if c \<noteq> [] then (Inr c, None, do_unlock (redis_store R Rd wait lr) v s3) else (Inr c, Some v, s3))))"
  shows "(resolve_move R Rd wait (newToken (lr (gw_redis (cs_world s1)))) ttl cc p n)\<^sup>*\<^sup>* (Await, gw_redis (cs_world s1))
      (Resolved conv (u \<noteq> None), gw_redis (cs_world s')) \<and>
    (\<forall>x. u = Some x \<longrightarrow> (\<exists>tok. newToken (lr (gw_redis (cs_world s1))) = Inr tok \<and> x = releaser (lockKey p n) tok))"
proof (cases "newToken (lr (gw_redis (cs_world s1)))")
  case (Inl e)
  then show ?thesis using assms by (auto simp: redis_store_def AcquireConversationLock_def note_call_def intro!: move_step)
next
  case (Inr tok)
  let ?x1 = "gw_redis (cs_world s1)"
  obtain x2 where a: "acquire_loop R wait (lockKey p n) tok ttl ?x1 = Some (r, x2)" and w: "w = (cs_world s1)\<lparr>gw_redis := x2\<rparr>"
    using assms(1) Inr by (auto simp: redis_store_def AcquireConversationLock_def split: option.splits)
  note m = acquire_loop_moves[OF a, of R wait p n Rd cc, simplified]
  show ?thesis
  proof (cases r)
    case (Inl e)
    then show ?thesis using m assms(2) w Inr by (simp add: note_call_def)
  next
    case (Inr v)
    let ?s2 = "note_call (TLock p n True) (s1\<lparr>cs_world := w\<rparr>)"
    obtain g s3 where g: "do_get (redis_store R Rd wait lr) p n ?s2 = (g, s3)" by (cases "do_get (redis_store R Rd wait lr) p n ?s2")
    have v: "v = releaser (lockKey p n) tok" using m Inr by simp
    have look: "(resolve_move R Rd wait (Inr tok) ttl cc p n)\<^sup>*\<^sup>* (Await, ?x1) (Relook, gw_redis (cs_world ?s2))"
      using m Inr w by (simp add: note_call_def)
    have res: "(conv, u, s') = (case g of Inl e \<Rightarrow> (Inl e, None, do_unlock (redis_store R Rd wait lr) v s3)
      | Inr c \<Rightarrow> if c \<noteq> [] then (Inr c, None, do_unlock (redis_store R Rd wait lr) v s3) else (Inr c, Some v, s3))"
      using assms(2) Inr g by simp
    show ?thesis
      using rtranclp_trans[OF look relook_moves(1)[OF g v res]] relook_moves(2)[OF g v res] \<open>newToken _ = Inr tok\<close> v by auto
  qed
qed

lemma resolveConversation_moves:
  assumes "resolveConversation h E (redis_store R Rd wait lr) p n cc s = Some (conv, u, s')"
  shows "\<exists>token ttl. (resolve_move R Rd wait token ttl cc p n)\<^sup>*\<^sup>* (Look, gw_redis (cs_world s)) (Resolved conv (u \<noteq> None), gw_redis (cs_world s')) \<and>
     (\<forall>x. u = Some x \<longrightarrow> (\<exists>tok. token = Inr tok \<and> x = releaser (lockKey p n) tok))"
proof -
  let ?S = "redis_store R Rd wait lr" and ?x = "gw_redis (cs_world s)"
  obtain g s1 where g: "do_get ?S p n s = (g, s1)" by (cases "do_get ?S p n s")
  let ?x1 = "gw_redis (cs_world s1)"
  note x1 = do_get_redis[OF g]
  show ?thesis
  proof (cases "g = Inr [] \<and> TrimSpace cc = []")
    case False
    then have st: "u = None" "s' = s1" "resolve_step R Rd wait (Inr []) 0 cc p n Look ?x = (Resolved conv False, ?x1)"
      using assms g x1 by (auto simp: resolveConversation_def split: sum.splits if_splits)
    show ?thesis using st(1,2) move_step[OF st(3)] by (intro exI[of _ "Inr []"] exI[of _ 0]) simp
  next
    case True
    let ?ttl = "lock_ttl E (h_conversationLockTTL h) (cs_world s1)" and ?token = "newToken (lr ?x1)"
    have look: "(resolve_move R Rd wait ?token ?ttl cc p n)\<^sup>*\<^sup>* (Look, ?x) (Await, ?x1)" using True x1 by (intro move_step) simp
    obtain r w where l: "sLock ?S p n ?ttl (cs_world s1) = Some (r, w)"
      using assms g True by (auto simp: resolveConversation_def split: option.splits)
    note m = locked_moves[OF l, of conv u s' cc]
    show ?thesis
    proof (intro exI conjI)
      show "(resolve_move R Rd wait ?token ?ttl cc p n)\<^sup>*\<^sup>* (Look, ?x) (Resolved conv (u \<noteq> None), gw_redis (cs_world s'))"
        using assms g True l by (intro rtranclp_trans[OF look] m[THEN conjunct1])
          (auto simp: resolveConversation_def split: sum.splits prod.splits if_splits)
      show "\<forall>x. u = Some x \<longrightarrow> (\<exists>tok. ?token = Inr tok \<and> x = releaser (lockKey p n) tok)"
        using assms g True l by (intro m[THEN conjunct2])
          (auto simp: resolveConversation_def split: sum.splits prod.splits if_splits)
    qed
  qed
qed

section \<open>What a chat request does to the mapping\<close>

text \<open>The calls of a chat request that change the mapping or the lock: it stores at most one id, never the
  empty one, and stores it between its lock and its \<open>unlock\<close> if it kept the lock. These are the orders in
  which \<open>creation_step\<close> lets a request move.\<close>

fun store_write :: "call \<Rightarrow> bool" where
  "store_write (TLock _ _ ok) = ok"
| "store_write (TSet _ _ _) = True"
| "store_write (TDelete _ _) = True"
| "store_write TUnlock = True"
| "store_write _ = False"

abbreviation store_writes :: "'w chat_state \<Rightarrow> call list" where
  "store_writes s \<equiv> filter store_write (cs_trace s)"

definition may_store :: "string \<Rightarrow> string \<Rightarrow> call list \<Rightarrow> bool" where
  "may_store p n cs \<longleftrightarrow> cs = [] \<or> (\<exists>c. c \<noteq> [] \<and> cs = [TSet p n c])"

lemma may_store_simps [simp]: "may_store p n []" "may_store p n [TSet p n c] \<longleftrightarrow> c \<noteq> []"
  by (auto simp: may_store_def)

lemma chat_failed_writes: "\<exists>cs. may_store p n cs \<and> store_writes (chat_failed h E L S D reqID p n result e s) = store_writes s @ cs"
  by (auto simp: chat_failed_def persistConversation_def may_store_def split: option.splits)

lemma chat_finish_writes: "store_writes (chat_finish E reqID result s) = store_writes s"
  by (auto simp: chat_finish_def Let_def split: prod.splits)

lemma chat_succeeded_writes: "\<exists>cs. may_store p n cs \<and> store_writes (chat_succeeded h E L S reqID p n result s) = store_writes s @ cs"
proof -
  obtain e s1 s2 d s3 where r: "recordSuccess L p (res_TotalTokens result) s = (e, s1)"
    and s2: "s2 = (if 0 < res_TotalTokens result then note_call (TTokens (res_TotalTokens result)) s1 else s1)"
    and st: "do_set S False p n (res_ConversationID result) (h_conversationTTL h) s2 = (d, s3)"
    and eq: "chat_succeeded h E L S reqID p n result s =
       (if e \<noteq> None then send_error E reqID ''INTERNAL'' ''usage accounting failed'' ''error'' s1
        else if res_ConversationID result = [] then chat_finish E reqID result s2
        else if d \<noteq> None then send_error E reqID ''INTERNAL'' ''conversation state unavailable'' ''error'' s3
        else chat_finish E reqID result s3)"
    by (rule chat_succeeded_ran)
  have "store_writes s1 = store_writes s" using recordSuccess_trace[OF r] by simp
  then have s2': "store_writes s2 = store_writes s" by (simp add: s2)
  have "store_writes (chat_succeeded h E L S reqID p n result s) =
      store_writes s @ (if e = None \<and> res_ConversationID result \<noteq> [] then [TSet p n (res_ConversationID result)] else [])"
    unfolding eq using \<open>store_writes s1 = store_writes s\<close> s2' do_set_trace[OF st] by (simp add: chat_finish_writes)
  then show ?thesis by (intro exI conjI[rotated]) (assumption, simp)
qed

lemma store_write_beside: "beside_stream store_write"
  by (simp add: beside_stream_def)

lemma chat_stream_writes:
  assumes "chat_stream h E L S (router_dify H Hb base maxB mu pe r) reqID p n query inputs conv s = Some s'"
  shows "\<exists>cs. may_store p n cs \<and> store_writes s' = store_writes s @ cs"
proof -
  let ?D = "router_dify H Hb base maxB mu pe r"
  obtain result err s1 where "store_writes s1 = store_writes s"
    and s': "s' = (case err of Some e \<Rightarrow> chat_failed h E L S ?D reqID p n result e s1 | None \<Rightarrow> chat_succeeded h E L S reqID p n result s1)"
    using chat_stream_beside[OF assms store_write_beside] .
  then show ?thesis
    using chat_failed_writes[of p n h E L S ?D reqID result _ s1] chat_succeeded_writes[of p n h E L S reqID result s1]
    by (cases err) auto
qed

lemma chat_resolved_writes:
  assumes "chat_resolved h E L S asm (router_dify H Hb base maxB mu pe r) reqID p n query conv s = Some s'"
  shows "\<exists>cs. may_store p n cs \<and> store_writes s' = store_writes s @ cs"
  using assms chat_stream_writes[of h E L S H Hb base maxB mu pe r reqID p n query]
  by (fastforce simp: chat_resolved_def Let_def split: sum.splits prod.splits if_splits)

lemma resolveConversation_writes:
  assumes "resolveConversation h E S p n cc s = Some (conv, u, s')"
  shows "store_writes s' = store_writes s @ (if u = None then [] else [TLock p n True]) \<or>
     u = None \<and> store_writes s' = store_writes s @ [TLock p n True, TUnlock]"
  using assms by (auto simp: resolveConversation_def split: prod.splits sum.splits if_splits option.splits dest!: do_get_trace)

lemma chat_admitted_writes:
  assumes "chat_admitted h E L S asm (router_dify H Hb base maxB mu pe r) reqID p n query cc s = Some s'"
  shows "\<exists>cs. may_store p n cs \<and> (\<exists>k. k \<in> {cs, [TLock p n True, TUnlock] @ cs, TLock p n True # cs @ [TUnlock]} \<and>
     store_writes s' = store_writes s @ k)"
proof -
  obtain conv u s1 s2 where r: "resolveConversation h E S p n cc s = Some (conv, u, s1)"
    and c: "chat_resolved h E L S asm (router_dify H Hb base maxB mu pe r) reqID p n query conv s1 = Some s2"
    and s': "s' = (case u of None \<Rightarrow> s2 | Some x \<Rightarrow> do_unlock S x s2)"
    using assms by (auto simp: chat_admitted_def split: option.splits)
  obtain cs where cs: "may_store p n cs" "store_writes s2 = store_writes s1 @ cs" using chat_resolved_writes[OF c] by blast
  show ?thesis using resolveConversation_writes[OF r] cs s' 
    by (intro exI[of _ cs] conjI exI[of _ "drop (length (store_writes s)) (store_writes s')"]) (cases u; elim disjE; simp)+
qed

lemma HandleChat_writes:
  assumes "h_dify h = Some (router_dify H Hb base maxB mu pe r)" "HandleChat h E sess req s = Some s'"
  shows "\<exists>cs. may_store (playerID sess) (TrimSpace (chat_GetNpcId req)) cs \<and>
     (\<exists>k. k \<in> {cs, [TLock (playerID sess) (TrimSpace (chat_GetNpcId req)) True, TUnlock] @ cs,
               TLock (playerID sess) (TrimSpace (chat_GetNpcId req)) True # cs @ [TUnlock]} \<and>
          store_writes s' = store_writes s @ k)"
proof (cases "store_writes s' = store_writes s")
  case True
  then show ?thesis by (intro exI[of _ "[]"]) simp
next
  case False
  then obtain L S asm w where "chat_admitted h E L S asm (router_dify H Hb base maxB mu pe r) (chat_GetRequestId req) (playerID sess)
      (TrimSpace (chat_GetNpcId req)) (TrimSpace (chat_GetQuery req)) (chat_GetConversationId req)
      (note_call (TAllow (playerID sess) True) (s\<lparr>cs_world := w\<rparr>)) = Some s'"
    using assms by (auto simp: HandleChat_def Let_def split: if_splits option.splits prod.splits)
  from chat_admitted_writes[OF this] show ?thesis by (simp add: note_call_def)
qed

section \<open>Requests side by side\<close>

text \<open>\<open>Leaving\<close>: the chat of a request that kept the lock is over, the deferred \<open>unlock\<close> is next.\<close>

datatype creation_phase = Resolving resolve_phase | Leaving | Gone

record 's creation_sys =
  cr_server :: 's
  cr_phase :: "nat \<Rightarrow> creation_phase"
  made :: "nat set"

text \<open>All requests are for player \<open>p\<close> and npc \<open>n\<close>; request \<open>r\<close> draws \<open>token r\<close> and asks for a lock of \<open>ttl r\<close>. \<open>made\<close> is a
  ghost: the requests that have stored the conversation they created since the mapping was last
  removed. A chat that created a conversation stores it if Dify named one (\<open>create\<close>) or ends without
  (\<open>give_up\<close>); a chat that continued one stores its id again (\<open>renew\<close>), without a lock. \<open>forget\<close> is a reset or the
  end of the mapping's time to live; \<open>others\<close> is any other use of the server.\<close>

inductive creation_step ::
  "'s redis \<Rightarrow> 's redis \<Rightarrow> ('s \<Rightarrow> string \<Rightarrow> rval option) \<Rightarrow> ('s \<Rightarrow> string option \<times> 's) \<Rightarrow> (nat \<Rightarrow> store_error + string) \<Rightarrow>
   (nat \<Rightarrow> int) \<Rightarrow> (nat \<Rightarrow> string) \<Rightarrow> string \<Rightarrow> string \<Rightarrow> 's creation_sys \<Rightarrow> 's creation_sys \<Rightarrow> bool"
  for R Rd view wait token ttl cc p n where
  resolve: "cr_phase g r = Resolving ph \<Longrightarrow>
     resolve_step R Rd wait (token r) (ttl r) (cc r) p n ph (cr_server g) = (ph', s') \<Longrightarrow>
     creation_step R Rd view wait token ttl cc p n g (g\<lparr>cr_server := s', cr_phase := (cr_phase g)(r := Resolving ph')\<rparr>)"
| create: "cr_phase g r = Resolving (Resolved conv True) \<Longrightarrow> c \<noteq> [] \<Longrightarrow>
     SetConversation (if detached then Rd else R) p n c d (cr_server g) = (e, s') \<Longrightarrow>
     creation_step R Rd view wait token ttl cc p n g
       (g\<lparr>cr_server := s', cr_phase := (cr_phase g)(r := Leaving), made := (if e = None then insert r (made g) else made g)\<rparr>)"
| give_up: "cr_phase g r = Resolving (Resolved conv True) \<Longrightarrow>
     creation_step R Rd view wait token ttl cc p n g (g\<lparr>cr_phase := (cr_phase g)(r := Leaving)\<rparr>)"
| unlock: "cr_phase g r = Leaving \<Longrightarrow> token r = Inr tok \<Longrightarrow>
     creation_step R Rd view wait token ttl cc p n g
       (g\<lparr>cr_server := snd (call_unlock Rd (releaser (lockKey p n) tok) (cr_server g)), cr_phase := (cr_phase g)(r := Gone)\<rparr>)"
| renew: "cr_phase g r = Resolving (Resolved (Inr conv) False) \<Longrightarrow> c \<noteq> [] \<Longrightarrow>
     SetConversation (if detached then Rd else R) p n c d (cr_server g) = (e, s') \<Longrightarrow>
     creation_step R Rd view wait token ttl cc p n g (g\<lparr>cr_server := s', cr_phase := (cr_phase g)(r := Gone)\<rparr>)"
| forget: "DeleteConversation R p n (cr_server g) = (e, s') \<or>
       view s' = (view (cr_server g))(conversationKey p n := None) \<Longrightarrow>
     creation_step R Rd view wait token ttl cc p n g (g\<lparr>cr_server := s', made := {}\<rparr>)"
| others: "view s' (conversationKey p n) = view (cr_server g) (conversationKey p n) \<Longrightarrow>
     view s' (lockKey p n) = view (cr_server g) (lockKey p n) \<Longrightarrow>
     creation_step R Rd view wait token ttl cc p n g (g\<lparr>cr_server := s'\<rparr>)"

fun has_lock :: "creation_phase \<Rightarrow> bool" where
  "has_lock (Resolving ph) = (case ph of Relook \<Rightarrow> True | GiveBack _ \<Rightarrow> True | Resolved _ kept \<Rightarrow> kept | _ \<Rightarrow> False)"
| "has_lock Leaving = True"
| "has_lock Gone = False"

definition creation_inv :: "('s \<Rightarrow> string \<Rightarrow> rval option) \<Rightarrow> (nat \<Rightarrow> store_error + string) \<Rightarrow> string \<Rightarrow> string \<Rightarrow> 's creation_sys \<Rightarrow> bool" where
  "creation_inv view token p n g \<longleftrightarrow>
     no_zset (view (cr_server g) (conversationKey p n)) \<and> no_zset (view (cr_server g) (lockKey p n)) \<and>
     (\<forall>r. has_lock (cr_phase g r) \<longrightarrow> (\<exists>tok. token r = Inr tok \<and> view (cr_server g) (lockKey p n) = Some (RStr tok))) \<and>
     (made g \<noteq> {} \<longrightarrow> conv_of view (cr_server g) p n \<noteq> [] \<and> (\<forall>r conv. cr_phase g r \<noteq> Resolving (Resolved conv True))) \<and>
     (\<exists>r. made g \<subseteq> {r})"

definition own_tokens :: "(nat \<Rightarrow> store_error + string) \<Rightarrow> bool" where
  "own_tokens token \<longleftrightarrow> (\<forall>r q tok. token r = Inr tok \<longrightarrow> token q = Inr tok \<longrightarrow> r = q)"

lemma one_holder:
  assumes "creation_inv view token p n g" "own_tokens token" "has_lock (cr_phase g r)" "has_lock (cr_phase g q)"
  shows "r = q"
  using assms unfolding creation_inv_def own_tokens_def by (metis option.inject rval.inject(1))

section \<open>At most one creation\<close>

text \<open>The requests reach one server through the client \<open>R\<close> of their own contexts and the detached \<open>Rd\<close>.\<close>

locale creation_server =
  rq: redis_server R view pttl + dt: redis_server Rd view pttl
  for R :: "'s redis" and Rd :: "'s redis" and view :: "'s \<Rightarrow> string \<Rightarrow> rval option" and pttl :: "'s \<Rightarrow> string \<Rightarrow> int option" +
  fixes wait :: "'s \<Rightarrow> string option \<times> 's" and token :: "nat \<Rightarrow> store_error + string" and ttl :: "nat \<Rightarrow> int"
  assumes wait_idle: "view (snd (wait s)) = view s"
    and distinct_tokens: "own_tokens token"
    and ttl_pos: "0 < ttl r"
begin

lemma get_conv:
  assumes "GetConversation R p n s = (x, s')"
  shows "view s' = view s" "x = Inr c \<Longrightarrow> no_zset (view s (conversationKey p n)) \<Longrightarrow> c = conv_of view s p n"
  using assms by (auto simp: GetConversation_def conv_of_def split: prod.splits sum.splits option.splits dest: rq.get_view rq.get_call)

lemma set_conv:
  assumes "SetConversation (if detached then Rd else R) p n c d s = (e, s')"
  shows "view s' = view s \<and> e \<noteq> None \<or> view s' = (view s)(conversationKey p n := Some (RStr c))"
  using assms rq.set_ok[of "conversationKey p n" c d s s'] rq.set_err[of "conversationKey p n" c d s _ s']
    dt.set_ok[of "conversationKey p n" c d s s'] dt.set_err[of "conversationKey p n" c d s _ s']
  by (cases detached) (auto simp: SetConversation_def split: if_splits prod.splits sum.splits)

lemma lock_conv:
  assumes "try_lock R (lockKey p n) tok (ttl r) s = (x, s')"
  shows "view s' = view s \<and> x \<noteq> Inr True \<or> view s (lockKey p n) = None \<and> view s' = (view s)(lockKey p n := Some (RStr tok))"
  using assms rq.setnx_ok[of "lockKey p n" tok "ttl r" s _ s'] rq.setnx_err[of "lockKey p n" tok "ttl r" s _ s'] ttl_pos
  by (auto simp: try_lock_def split: prod.splits sum.splits if_splits)

lemma del_conv:
  "DeleteConversation R p n s = (e, s') \<Longrightarrow> view s' = view s \<or> view s' = (view s)(conversationKey p n := None)"
  using rq.del_ok[of "conversationKey p n" s s'] rq.del_err[of "conversationKey p n" s _ s']
  by (auto simp: DeleteConversation_def split: prod.splits sum.splits)

text \<open>A step that leaves the server's two keys alone and moves one request.\<close>

lemma inv_move:
  assumes "creation_inv view token p n g" "view s' (conversationKey p n) = view (cr_server g) (conversationKey p n)"
    and "view s' (lockKey p n) = view (cr_server g) (lockKey p n)" "has_lock ph' \<Longrightarrow> has_lock (cr_phase g r)"
    and "\<And>conv. ph' = Resolving (Resolved conv True) \<Longrightarrow> conv_of view s' p n = []"
  shows "creation_inv view token p n (g\<lparr>cr_server := s', cr_phase := (cr_phase g)(r := ph')\<rparr>)"
proof -
  have "conv_of view s' p n = conv_of view (cr_server g) p n" using assms(2) by (simp add: conv_of_def)
  then show ?thesis using assms unfolding creation_inv_def by auto
qed

lemma inv_unlock:
  assumes "creation_inv view token p n g" "has_lock (cr_phase g r)" "token r = Inr tok" "\<not> has_lock ph'" "\<And>conv. ph' \<noteq> Resolving (Resolved conv True)"
  shows "creation_inv view token p n (g\<lparr>cr_server := snd (call_unlock Rd (releaser (lockKey p n) tok) (cr_server g)), cr_phase := (cr_phase g)(r := ph')\<rparr>)"
proof -
  let ?s = "snd (call_unlock Rd (releaser (lockKey p n) tok) (cr_server g))"
  have v: "view ?s = view (cr_server g) \<or> view ?s = (view (cr_server g))(lockKey p n := None)"
    using dt.unlock_view[of "cr_server g" "lockKey p n" tok] assms(1) unfolding creation_inv_def by blast
  then have c: "conv_of view ?s p n = conv_of view (cr_server g) p n" "no_zset (view ?s (conversationKey p n))" "no_zset (view ?s (lockKey p n))"
    using assms(1) by (auto simp: conv_of_def creation_inv_def)
  have "\<not> has_lock (((cr_phase g)(r := ph')) q)" for q
    using assms(2,4) one_holder[OF assms(1) distinct_tokens, of q r] by (cases "q = r") auto
  then show ?thesis using assms(1,5) c unfolding creation_inv_def by auto
qed

lemma inv_await:
  assumes inv: "creation_inv view token p n g"
    and st: "resolve_step R Rd wait (token r) (ttl r) c p n Await (cr_server g) = (ph', s')"
  shows "creation_inv view token p n (g\<lparr>cr_server := s', cr_phase := (cr_phase g)(r := Resolving ph')\<rparr>)"
proof (cases "token r")
  case (Inl e)
  then show ?thesis using st by (intro inv_move[OF inv]) auto
next
  case (Inr tok)
  obtain x s1 where l: "try_lock R (lockKey p n) tok (ttl r) (cr_server g) = (x, s1)" by (cases "try_lock R (lockKey p n) tok (ttl r) (cr_server g)")
  obtain e s2 where w: "wait s1 = (e, s2)" by (cases "wait s1")
  have v2: "view s2 = view s1" using wait_idle[of s1] w by simp
  have s': "view s' = view s1" "has_lock (Resolving ph') \<longleftrightarrow> x = Inr True" "\<And>conv. ph' \<noteq> Resolved conv True"
    using st Inr l w v2 by (auto split: sum.splits if_splits option.splits)
  consider "view s1 = view (cr_server g)" "x \<noteq> Inr True"
    | "view (cr_server g) (lockKey p n) = None" "view s1 = (view (cr_server g))(lockKey p n := Some (RStr tok))"
    using lock_conv[OF l] by (elim disjE conjE)
  then show ?thesis
  proof cases
    case 1
    then show ?thesis using s' by (intro inv_move[OF inv]) auto
  next
    case 2
    have "\<not> has_lock (cr_phase g q)" for q using inv 2(1) unfolding creation_inv_def by auto
    then show ?thesis using inv 2 s' Inr unfolding creation_inv_def by (auto simp: conv_of_def)
  qed
qed

lemma inv_resolve:
  assumes inv: "creation_inv view token p n g" and ph: "cr_phase g r = Resolving ph"
    and st: "resolve_step R Rd wait (token r) (ttl r) c p n ph (cr_server g) = (ph', s')"
  shows "creation_inv view token p n (g\<lparr>cr_server := s', cr_phase := (cr_phase g)(r := Resolving ph')\<rparr>)"
proof (cases ph)
  case Look
  obtain x s1 where g: "GetConversation R p n (cr_server g) = (x, s1)" by (cases "GetConversation R p n (cr_server g)")
  then have "s' = s1" "\<not> has_lock (Resolving ph')" using st Look by (auto split: sum.splits if_splits)
  then show ?thesis using get_conv(1)[OF g] by (intro inv_move[OF inv]) auto
next
  case Relook
  obtain x s1 where g: "GetConversation R p n (cr_server g) = (x, s1)" by (cases "GetConversation R p n (cr_server g)")
  then have s: "s' = s1" "ph' = Resolved conv kept \<Longrightarrow> x = Inr [] \<and> conv = Inr []" for conv kept using st Relook by (auto split: sum.splits if_splits)
  have "conv_of view s' p n = []" if "ph' = Resolved conv True" for conv
  proof -
    have "x = Inr []" using s(2)[OF that] by simp
    then have "conv_of view (cr_server g) p n = []" using get_conv(2)[OF g, of "[]"] inv by (simp add: creation_inv_def)
    then show ?thesis using get_conv(1)[OF g] s(1) by (simp add: conv_of_def)
  qed
  then show ?thesis using get_conv(1)[OF g] s(1) ph Relook by (intro inv_move[OF inv]) simp_all
next
  case (GiveBack x)
  have "has_lock (cr_phase g r)" using ph GiveBack by simp
  then obtain tok where tok: "token r = Inr tok" using inv unfolding creation_inv_def by blast
  then have s: "s' = snd (call_unlock Rd (releaser (lockKey p n) tok) (cr_server g))" "ph' = Resolved x False" using st GiveBack by auto
  show ?thesis unfolding s by (rule inv_unlock[OF inv \<open>has_lock _\<close> tok]) auto
next
  case (Resolved x kept)
  then have "s' = cr_server g" "(cr_phase g)(r := Resolving ph') = cr_phase g" using st ph by (auto intro: fun_upd_idem)
  then show ?thesis using inv by (simp add: creation_inv_def)
next
  case Await
  then show ?thesis using inv_await[OF inv] st by simp
qed

lemma inv_step:
  assumes "creation_step R Rd view wait token ttl cc p n g g'" "creation_inv view token p n g"
  shows "creation_inv view token p n g'"
  using assms(1)
proof cases
  case (resolve r ph ph' s')
  then show ?thesis using inv_resolve[OF assms(2)] by blast
next
  case (create r conv c detached d e s')
  have none: "made g = {}" using assms(2) create(2) unfolding creation_inv_def by blast
  have r: "has_lock (cr_phase g r)" using create(2) by simp
  have "cr_phase g q \<noteq> Resolving (Resolved x True)" if "q \<noteq> r" for q x
    using one_holder[OF assms(2) distinct_tokens _ r, of q] that by auto
  then show ?thesis
    using assms(2) r none set_conv[OF create(4)] create(3) unfolding create(1) creation_inv_def
    by (auto simp: conv_of_def)
next
  case (give_up r conv)
  then show ?thesis using inv_move[OF assms(2), of "cr_server g" Leaving r] by simp
next
  case (unlock r tok)
  then show ?thesis using inv_unlock[OF assms(2), of r tok Gone] by simp
next
  case (renew r conv c detached d e s')
  then show ?thesis using assms(2) set_conv[OF renew(4)] unfolding renew(1) creation_inv_def by (auto simp: conv_of_def)
next
  case (forget e s')
  then show ?thesis using assms(2) del_conv unfolding creation_inv_def by fastforce
next
  case (others s')
  then show ?thesis using assms(2) unfolding creation_inv_def by (auto simp: conv_of_def)
qed

lemma inv_reachable:
  "(creation_step R Rd view wait token ttl cc p n)\<^sup>*\<^sup>* g g' \<Longrightarrow> creation_inv view token p n g \<Longrightarrow> creation_inv view token p n g'"
  by (induction rule: rtranclp_induct) (auto intro: inv_step)

end

section \<open>The guarantee\<close>

definition creation_start :: "'s \<Rightarrow> 's creation_sys" where
  "creation_start s = \<lparr>cr_server = s, cr_phase = (\<lambda>_. Resolving Look), made = {}\<rparr>"


definition demo_token :: "nat \<Rightarrow> store_error + string" where
  "demo_token r = Inr (nat_str r)"

lemma demo_tokens: "own_tokens demo_token"
  by (simp add: own_tokens_def demo_token_def)

interpretation demo_creation: creation_server mem_redis mem_redis mem_view mem_pttl "\<lambda>s. (None, s)" demo_token "\<lambda>_. 15 * second"
  by unfold_locales (simp_all add: demo_tokens)

lemma demo_created:
  "\<exists>g. (creation_step mem_redis mem_redis mem_view (\<lambda>s. (None, s)) demo_token (\<lambda>_. 15 * second) (\<lambda>_. []) ''p'' ''n'')\<^sup>*\<^sup>* (creation_start empty_store) g \<and>
     made g = {0}"
proof -
  let ?st = "creation_step mem_redis mem_redis mem_view (\<lambda>s. (None, s)) demo_token (\<lambda>_. 15 * second) (\<lambda>_. []) ''p'' ''n''"
  let ?s1 = "mem_set (lockKey ''p'' ''n'') (nat_str 0) (15 * second) empty_store"
  let ?g = "\<lambda>ph s. \<lparr>cr_server = s, cr_phase = (\<lambda>_. Resolving Look)(0 := Resolving ph), made = {}\<rparr>"
  have get: "GetConversation mem_redis ''p'' ''n'' s = (Inr [], s)" if "s = empty_store \<or> s = ?s1" for s
    using that by (auto simp: GetConversation_def mem_redis_def mem_str_def mem_set_def empty_store_def)
  have lock: "try_lock mem_redis (lockKey ''p'' ''n'') (nat_str 0) (15 * second) empty_store = (Inr True, ?s1)"
    by (simp add: try_lock_def mem_redis_def mem_str_def mem_zset_def empty_store_def)
  have "?st (creation_start empty_store) (?g Await empty_store)"
    using creation_step.resolve[where r = 0 and g = "creation_start empty_store" and ph = Look and ph' = Await and s' = empty_store] get
    by (simp add: creation_start_def)
  moreover have "?st (?g Await empty_store) (?g Relook ?s1)"
    using creation_step.resolve[where r = 0 and g = "?g Await empty_store" and ph = Await and ph' = Relook and s' = ?s1] lock
    by (simp add: demo_token_def)
  moreover have "?st (?g Relook ?s1) (?g (Resolved (Inr []) True) ?s1)"
    using creation_step.resolve[where r = 0 and g = "?g Relook ?s1" and ph = Relook and ph' = "Resolved (Inr []) True" and s' = ?s1] get
    by simp
  moreover obtain s2 where s2: "SetConversation mem_redis ''p'' ''n'' ''c'' second ?s1 = (None, s2)"
    by (simp add: SetConversation_def mem_redis_def)
  have "?st (?g (Resolved (Inr []) True) ?s1)
     \<lparr>cr_server = s2, cr_phase = (\<lambda>_. Resolving Look)(0 := Leaving), made = {0}\<rparr>"
    using creation_step.create[where r = 0 and g = "?g (Resolved (Inr []) True) ?s1" and conv = "Inr []" and c = "''c''" and detached = False
        and d = second and e = None and s' = s2] s2 by simp
  ultimately have "?st\<^sup>*\<^sup>* (creation_start empty_store) \<lparr>cr_server = s2, cr_phase = (\<lambda>_. Resolving Look)(0 := Leaving), made = {0}\<rparr>"
    by (meson rtranclp.rtrancl_into_rtrancl rtranclp.rtrancl_refl)
  then show ?thesis by (rule exI[of _ "\<lparr>cr_server = s2, cr_phase = (\<lambda>_. Resolving Look)(0 := Leaving), made = {0}\<rparr>", OF conjI]) simp
qed


end
