(* ===== verification/Budget.thy ===== *)
theory Budget
  imports Limiter_Props
begin

text \<open>
  The daily token budget over whole histories: any number of processes record the tokens of any
  number of players, at any times, while the clock runs; the counter of a player and a UTC date is
  the sum of what was recorded for that player on that date.
\<close>

text \<open>\<open>hist\<close> lists the recorded calls: player (trimmed), clock reading, tokens. \<open>others\<close> is everything else that happens to the
  server; the counter does not expire on its own date.\<close>

inductive budget_trace ::
  "'s redis \<Rightarrow> ('s \<Rightarrow> string \<Rightarrow> rval option) \<Rightarrow> string \<Rightarrow> 's \<Rightarrow> (string \<times> int \<times> int) list \<Rightarrow> bool"
  for R view key where
  start: "view s key = None \<Longrightarrow> budget_trace R view key s []"
| recorded: "budget_trace R view key s hist \<Longrightarrow> no_str (view s inflightKey) \<Longrightarrow> TrimSpace q \<noteq> [] \<Longrightarrow> 0 \<le> n \<Longrightarrow>
     limiter_Record R (\<lambda>_. t) q n l s = (e, l', s') \<Longrightarrow> budget_trace R view key s' ((TrimSpace q, t, n) # hist)"
| others: "budget_trace R view key s hist \<Longrightarrow> view s' key = view s key \<Longrightarrow> budget_trace R view key s' hist"

definition charged :: "string \<Rightarrow> (string \<times> int \<times> int) list \<Rightarrow> int" where
  "charged key hist = sum_list (map (\<lambda>(q, t, n). n) (filter (\<lambda>(q, t, n). budgetKey q t = key) hist))"

lemma charged_simps [simp]:
  "charged key [] = 0"
  "charged key ((q, t, n) # hist) = (if budgetKey q t = key then n else 0) + charged key hist"
  by (simp_all add: charged_def)

text \<open>The key of a counter determines the player and the date.\<close>

lemma zero_pad_no_colon: "CHR '':'' \<notin> set (zero_pad k v)"
  by (auto simp: zero_pad_def Let_def nat_str_no_colon)

lemma format_date_no_colon: "CHR '':'' \<notin> set (format_date t)"
  by (auto simp: format_date_def zero_pad_no_colon split: prod.splits)

lemma budgetKey_eq_iff: "budgetKey q t = budgetKey p d \<longleftrightarrow> q = p \<and> format_date t = format_date d"
  using split_at_last[OF format_date_no_colon format_date_no_colon, of "''budget:'' @ q" t "''budget:'' @ p" d] by (simp add: budgetKey_def)

lemma budget_nonneg: "budget_trace R view key s hist \<Longrightarrow> 0 \<le> charged key hist"
  by (induction rule: budget_trace.induct) auto

context redis_reliable
begin

lemma record_parts:
  assumes "no_str (view s inflightKey)" "TrimSpace q \<noteq> []" "0 \<le> n" "limiter_Record R (\<lambda>_. t) q n l s = (e, l', s')"
  obtains s1 e2 where "\<And>k. k \<noteq> inflightKey \<Longrightarrow> view s1 k = view s k" "recordTokens R (\<lambda>_. t) (TrimSpace q) n s1 = (e2, s')"
proof -
  obtain g s1 where r: "releaseInflight R (\<lambda>_. t) l s = (None, l\<lparr>inflightGauge := g\<rparr>, s1)" "\<forall>k. k \<noteq> inflightKey \<longrightarrow> view s1 k = view s k"
    using releaseInflight_result[OF assms(1), of "\<lambda>_. t" t l] by auto
  moreover obtain e2 where "recordTokens R (\<lambda>_. t) (TrimSpace q) n s1 = (e2, s')"
    using assms(2-4) r(1) by (auto simp: limiter_Record_def Let_def split: prod.splits)
  ultimately show ?thesis using that by blast
qed

lemma record_here:
  assumes "no_str (view s inflightKey)" "TrimSpace q \<noteq> []" "0 \<le> n" "limiter_Record R (\<lambda>_. t) q n l s = (e, l', s')"
    and "no_zset (view s (budgetKey (TrimSpace q) t))" "used_tokens view (TrimSpace q) t s = Some u" "in_int64 n" "in_int64 (u + n)"
  shows "used_tokens view (TrimSpace q) t s' = Some (u + n) \<and> no_zset (view s' (budgetKey (TrimSpace q) t))"
proof -
  obtain s1 e2 where s1: "\<And>k. k \<noteq> inflightKey \<Longrightarrow> view s1 k = view s k" and k: "recordTokens R (\<lambda>_. t) (TrimSpace q) n s1 = (e2, s')"
    using record_parts[OF assms(1-4)] by blast
  have v: "view s1 (budgetKey (TrimSpace q) t) = view s (budgetKey (TrimSpace q) t)" by (simp add: s1)
  show ?thesis
    using recordTokens_result[of s1 "TrimSpace q" t "\<lambda>_. t" u n] assms(5-8) k v by (auto simp: used_tokens_def)
qed

lemma record_elsewhere:
  assumes "no_str (view s inflightKey)" "TrimSpace q \<noteq> []" "0 \<le> n" "limiter_Record R (\<lambda>_. t) q n l s = (e, l', s')"
    and "key \<noteq> budgetKey (TrimSpace q) t" "key \<noteq> inflightKey"
  shows "view s' key = view s key"
proof -
  obtain s1 e2 where s1: "\<And>k. k \<noteq> inflightKey \<Longrightarrow> view s1 k = view s k" and k: "recordTokens R (\<lambda>_. t) (TrimSpace q) n s1 = (e2, s')"
    using record_parts[OF assms(1-4)] by blast
  have "view (snd (recordTokens R (\<lambda>_. t) (TrimSpace q) n s1)) key = view s1 key"
    unfolding recordTokens_world
    using assms(5) by (auto simp: script_frames intro!: run_preserves[where P = "\<lambda>s2. view s2 key = view s1 key"])
  then show ?thesis using k s1[OF assms(6)] by simp
qed

lemma budget_adds_up:
  assumes "budget_trace R view key s hist" "key = budgetKey p d" "\<forall>(q, t, n) \<in> set hist. in_int64 n" "in_int64 (charged key hist)"
  shows "used_tokens view p d s = Some (charged key hist) \<and> no_zset (view s key)"
  using assms
proof (induction rule: budget_trace.induct)
  case (start s)
  then show ?case by (simp add: used_tokens_def)
next
  case (recorded s hist q n t l e l' s')
  have nn: "0 \<le> charged key hist" using budget_nonneg[OF recorded(1)] .
  have i: "in_int64 (charged key hist)" "in_int64 n"
    using recorded.prems(2,3) recorded(4) nn by (auto simp: in_int64_def min_int64_def split: if_splits)
  have IH: "used_tokens view p d s = Some (charged key hist)" "no_zset (view s key)" using recorded.IH recorded.prems i by auto
  show ?case
  proof (cases "budgetKey (TrimSpace q) t = key")
    case True
    then have "TrimSpace q = p" "in_int64 (charged key hist + n)" using recorded.prems(1,3) by (simp_all add: budgetKey_eq_iff add.commute)
    then show ?thesis
      using record_here[OF recorded(2-5), of "charged key hist"] IH i True recorded.prems(1) by (auto simp: used_tokens_def add.commute)
  next
    case False
    then have "view s' key = view s key" using record_elsewhere[OF recorded(2-5), of key] recorded.prems(1) by auto
    then show ?thesis using IH False recorded.prems(1) by (simp add: used_tokens_def)
  qed
next
  case (others s hist s')
  then show ?case by (auto simp: used_tokens_def)
qed

end



end
