(* ===== verification/Testsupport.thy ===== *)
theory Testsupport
  imports Codec Pipeline
begin

text \<open>
  \<^verbatim>\<open>internal/testsupport/testsupport.go\<close>: the no-op dependencies and the client side of the access protocol. A
  connection is the reader of what the server sent, and a writer with its state. A server
  envelope whose body is not set is \<open>None\<close>.
\<close>

section \<open>No-op dependencies\<close>

definition ts_Verify :: "string \<Rightarrow> 'w \<Rightarrow> auth_error + string" where
  "ts_Verify token w = Inr token"

definition ts_Limiter :: "'w limiter_if" where
  "ts_Limiter = \<lparr>lAllow = (\<lambda>_ _ w. ((True, None), w)), lRecord = (\<lambda>_ _ w. (None, w)),
     lRecordFailure = (\<lambda>w. (None, w)), lRelease = (\<lambda>w. (None, w))\<rparr>"

definition ts_Store :: "string \<Rightarrow> 'w store_if" where
  "ts_Store conversation = \<lparr>sGet = (\<lambda>_ _ w. (Inr conversation, w)), sSet = (\<lambda>_ _ _ _ _ w. (None, w)), sDelete = (\<lambda>_ _ w. (None, w)),
     sLock = (\<lambda>_ _ _ w. Some (Inr (releaser [] []), w)), sUnlock = (\<lambda>_ w. w)\<rparr>"

definition ts_Build :: "string \<Rightarrow> string \<Rightarrow> 'w \<Rightarrow> (vars \<times> string option) \<times> 'w" where
  "ts_Build p n w = ((Map.empty, None), w)"

section \<open>The client\<close>

datatype client_error = ClientCodec codec_error | AuthRejected string

definition server_AuthOk :: "ServerEnvelope option \<Rightarrow> bool" where
  "server_AuthOk env = (case env of Some (ServerEnvelope_AuthResult a) \<Rightarrow> ar_Ok a | _ \<Rightarrow> False)"

definition server_AuthReason :: "ServerEnvelope option \<Rightarrow> string" where
  "server_AuthReason env = (case env of Some (ServerEnvelope_AuthResult a) \<Rightarrow> ar_Reason a | _ \<Rightarrow> [])"

definition client_Authenticate ::
  "(ClientEnvelope \<Rightarrow> string + byte list) \<Rightarrow> (byte list \<Rightarrow> string + ServerEnvelope option) \<Rightarrow> 'w writer \<Rightarrow> string \<Rightarrow>
   'w \<Rightarrow> reader \<Rightarrow> client_error option \<times> 'w \<times> reader" where
  "client_Authenticate marshal unmarshal write player w r =
     (case WriteEnvelope marshal write
             \<lparr>ClientBodyField = Some (ClientEnvelope_Auth (Some \<lparr>SessionToken = player, AuthPlayerId = player\<rparr>))\<rparr> w of
        (Inl e, w1) \<Rightarrow> (Some (ClientCodec e), w1, r)
      | (Inr _, w1) \<Rightarrow>
          (case ReadServerEnvelope unmarshal r of
             (Inl e, r1) \<Rightarrow> (Some (ClientCodec e), w1, r1)
           | (Inr env, r1) \<Rightarrow>
               (if \<not> server_AuthOk env then Some (AuthRejected (server_AuthReason env)) else None, w1, r1)))"

definition SendChat ::
  "(ClientEnvelope \<Rightarrow> string + byte list) \<Rightarrow> 'w writer \<Rightarrow> string \<Rightarrow> string \<Rightarrow> string \<Rightarrow> 'w \<Rightarrow> (codec_error + unit) \<times> 'w" where
  "SendChat marshal write reqID npc query w =
     WriteEnvelope marshal write
       \<lparr>ClientBodyField = Some (ClientEnvelope_Chat (Some \<lparr>ChatRequestId = reqID, ChatConversationId = [], ChatNpcId = npc,
          ChatQuery = query, ChatContext = Map.empty\<rparr>))\<rparr> w"

lemma ReadServerEnvelope_consumes:
  "ReadServerEnvelope unmarshal r = (Inr env, r') \<Longrightarrow> length (rd_bytes r') < length (rd_bytes r)"
  by (auto simp: ReadServerEnvelope_def dest: ReadFrame_consumes split: prod.splits sum.splits)

text \<open>\<open>since\<close> is the time from \<open>start\<close> to the moment the remaining bytes are \<open>r\<close>.\<close>

function read_turn ::
  "(byte list \<Rightarrow> string + ServerEnvelope option) \<Rightarrow> (reader \<Rightarrow> int) \<Rightarrow> int \<Rightarrow> bool \<Rightarrow> reader \<Rightarrow> (bool \<times> int \<times> bool) \<times> reader" where
  "read_turn unmarshal since firstToken sawToken r =
     (case ReadServerEnvelope unmarshal r of
        (Inl e, r1) \<Rightarrow> ((False, 0, sawToken), r1)
      | (Inr env, r1) \<Rightarrow>
          (case env of
             Some (ServerEnvelope_Chunk _) \<Rightarrow>
               if \<not> sawToken then read_turn unmarshal since (since r1) True r1
               else read_turn unmarshal since firstToken sawToken r1
           | Some (ServerEnvelope_Done _) \<Rightarrow> ((True, firstToken, sawToken), r1)
           | Some (ServerEnvelope_Blocked _) \<Rightarrow> ((True, firstToken, sawToken), r1)
           | Some (ServerEnvelope_Error _) \<Rightarrow> ((False, firstToken, sawToken), r1)
           | _ \<Rightarrow> read_turn unmarshal since firstToken sawToken r1))"
  by pat_completeness auto
termination
  by (relation "measure (\<lambda>(_, _, _, _, r). length (rd_bytes r))") (auto dest: ReadServerEnvelope_consumes[OF sym])

declare read_turn.simps [simp del]

definition ReadTurn :: "(byte list \<Rightarrow> string + ServerEnvelope option) \<Rightarrow> (reader \<Rightarrow> int) \<Rightarrow> reader \<Rightarrow> (bool \<times> int \<times> bool) \<times> reader" where
  "ReadTurn unmarshal since r = read_turn unmarshal since 0 False r"

section \<open>A turn is read to its end\<close>

text \<open>Protobuf: what was marshalled within the frame size is unmarshalled to the same envelope.\<close>

definition wire_law :: "(ServerEnvelope \<Rightarrow> byte list) \<Rightarrow> (byte list \<Rightarrow> string + ServerEnvelope option) \<Rightarrow> ServerEnvelope list \<Rightarrow> bool" where
  "wire_law marshal unmarshal fs \<longleftrightarrow> list_all (\<lambda>f. length (marshal f) \<le> MaxFrameSize \<and> unmarshal (marshal f) = Inr (Some f)) fs"

fun ends_turn :: "ServerEnvelope \<Rightarrow> bool" where
  "ends_turn (ServerEnvelope_Done _) = True"
| "ends_turn (ServerEnvelope_Blocked _) = True"
| "ends_turn (ServerEnvelope_Error _) = True"
| "ends_turn _ = False"

definition turn_ok :: "ServerEnvelope \<Rightarrow> bool" where
  "turn_ok f = (case f of ServerEnvelope_Error _ \<Rightarrow> False | _ \<Rightarrow> True)"

abbreviation wire :: "(ServerEnvelope \<Rightarrow> byte list) \<Rightarrow> ServerEnvelope list \<Rightarrow> byte list" where
  "wire marshal fs \<equiv> concat (map (\<lambda>f. frame_bytes (marshal f)) fs)"

lemma read_turn_frames:
  assumes "wire_law marshal unmarshal (map (chunk reqID) texts @ [f])" "ends_turn f"
  shows "\<exists>first. read_turn unmarshal since ft saw \<lparr>rd_bytes = wire marshal (map (chunk reqID) texts @ [f]) @ rest, rd_end = e\<rparr> =
     ((turn_ok f, first, saw \<or> texts \<noteq> []), \<lparr>rd_bytes = rest, rd_end = e\<rparr>)"
  using assms
proof (induction texts arbitrary: ft saw)
  case Nil
  then show ?case
    by (subst read_turn.simps) (cases f; auto simp: ReadServerEnvelope_def wire_law_def turn_ok_def)
next
  case (Cons x texts)
  let ?r = "\<lparr>rd_bytes = wire marshal (map (chunk reqID) texts @ [f]) @ rest, rd_end = e\<rparr>"
  have w: "wire_law marshal unmarshal (map (chunk reqID) texts @ [f])" using Cons.prems(1) by (simp add: wire_law_def)
  have "read_turn unmarshal since ft saw \<lparr>rd_bytes = wire marshal (map (chunk reqID) (x # texts) @ [f]) @ rest, rd_end = e\<rparr> =
      read_turn unmarshal since (if saw then ft else since ?r) True ?r"
    using Cons.prems(1) by (subst read_turn.simps) (cases saw; simp add: ReadServerEnvelope_def wire_law_def chunk_def)
  then show ?case using Cons.IH[OF w Cons.prems(2), of "if saw then ft else since ?r" True] by simp
qed

text \<open>The client reads exactly one turn. On the frames of a turn (chunks, then a frame that ends it), written
  one after another on the connection, \<open>ReadTurn\<close> returns, stops right behind the terminal frame
  whatever follows, reports success exactly when that frame is not an error, and reports a token
  exactly when there was a chunk.\<close>

theorem ReadTurn_reads_turn:
  assumes "wire_law marshal unmarshal (map (chunk reqID) texts @ [f])" and "ends_turn f"
  shows "\<exists>first. ReadTurn unmarshal since \<lparr>rd_bytes = wire marshal (map (chunk reqID) texts @ [f]) @ rest, rd_end = e\<rparr> =
     ((turn_ok f, first, texts \<noteq> []), \<lparr>rd_bytes = rest, rd_end = e\<rparr>)"
  using read_turn_frames[OF assms, of since 0 False rest e] by (simp add: ReadTurn_def)

text \<open>Two frame kinds are enough for the witness: a chunk is the byte 1, anything else the byte 2.\<close>

theorem ReadTurn_reads_turn_witness:
  "\<exists>first. ReadTurn (\<lambda>b. Inr (Some (if b = [1] then chunk ''r'' ''x'' else done_envelope ''r'' ''c'' 5))) (\<lambda>_. 7)
     \<lparr>rd_bytes = wire (\<lambda>f. if f = chunk ''r'' ''x'' then [1] else [2]) (map (chunk ''r'') [''x'', ''x''] @ [done_envelope ''r'' ''c'' 5]) @ [9], rd_end = EOF\<rparr> =
     ((True, first, True), \<lparr>rd_bytes = [9], rd_end = EOF\<rparr>)"
proof -
  let ?m = "\<lambda>f. if f = chunk ''r'' ''x'' then [1] else [2 :: byte]"
  let ?u = "\<lambda>b. Inr (Some (if b = [1] then chunk ''r'' ''x'' else done_envelope ''r'' ''c'' 5)) :: string + ServerEnvelope option"
  have "wire_law ?m ?u (map (chunk ''r'') [''x'', ''x''] @ [done_envelope ''r'' ''c'' 5])"
    by (simp add: wire_law_def MaxFrameSize_def chunk_def done_envelope_def)
  moreover have "ends_turn (done_envelope ''r'' ''c'' 5)" "turn_ok (done_envelope ''r'' ''c'' 5)" by (simp_all add: done_envelope_def turn_ok_def)
  ultimately show ?thesis using ReadTurn_reads_turn[of ?m ?u "''r''" "[''x'', ''x'']" "done_envelope ''r'' ''c'' 5" "\<lambda>_. 7" "[9]" EOF] by auto
qed

end
