(* ===== verification/Difymock.thy ===== *)
theory Difymock
  imports Dify_Api Dify_Props
begin

text \<open>
  \<^verbatim>\<open>internal/difymock/difymock.go\<close>: the scriptable Dify server of the integration tests. Its state, behind one
  mutex, is the record \<open>mock_server\<close>; each handler is a function from a request to the response and the
  new state. JSON encoding and decoding, URL unescaping, the timer of a delayed event and the
  response writer are parameters. The responses of \<open>handleChat\<close> other than a plain error are values:
  hang until the client leaves, or stream a script.
\<close>

section \<open>State\<close>

record Event =
  me_Event :: string
  me_Delay :: int
  me_Answer :: string
  me_TaskID :: string
  me_MessageID :: string
  me_ConversationID :: string
  me_Code :: string
  me_Message :: string
  me_TotalTokens :: int

record ChatBehavior =
  cb_Status :: int
  cb_Body :: string
  cb_RetryAfter :: string
  cb_FailTimes :: int
  cb_FailForever :: bool
  cb_Hang :: bool
  cb_Events :: "Event list"

record MockChatRequest =
  mc_Authorization :: string
  mc_Accept :: string
  mc_Query :: string
  mc_User :: string
  mc_ConversationID :: string
  mc_ResponseMode :: string
  mc_Inputs :: "string \<rightharpoonup> string"

record StopCall =
  sc_TaskID :: string
  sc_User :: string

record mock_server =
  mk_apiKey :: string
  mk_chat :: ChatBehavior
  mk_chatN :: int
  mk_chatReqs :: "MockChatRequest list"
  mk_stopCalls :: "StopCall list"

definition zeroBehavior :: ChatBehavior where
  "zeroBehavior = \<lparr>cb_Status = 0, cb_Body = [], cb_RetryAfter = [], cb_FailTimes = 0, cb_FailForever = False, cb_Hang = False, cb_Events = []\<rparr>"

definition mock_New :: "string \<Rightarrow> mock_server" where
  "mock_New key = \<lparr>mk_apiKey = key, mk_chat = zeroBehavior, mk_chatN = 0, mk_chatReqs = [], mk_stopCalls = []\<rparr>"

record mock_request =
  mq_Method :: string
  mq_EscapedPath :: string
  mq_Authorization :: string
  mq_Accept :: string
  mq_Body :: string

definition authorized :: "mock_server \<Rightarrow> mock_request \<Rightarrow> bool" where
  "authorized s r \<longleftrightarrow> mk_apiKey s = [] \<or> mq_Authorization r = ''Bearer '' @ mk_apiKey s"

definition SetChat :: "ChatBehavior \<Rightarrow> mock_server \<Rightarrow> mock_server" where
  "SetChat b s = s\<lparr>mk_chat := b, mk_chatN := 0\<rparr>"

definition ChatRequests :: "mock_server \<Rightarrow> MockChatRequest list" where
  "ChatRequests s = mk_chatReqs s"

definition StopCalls :: "mock_server \<Rightarrow> StopCall list" where
  "StopCalls s = mk_stopCalls s"

section \<open>Chat\<close>

text \<open>\<open>http.Error\<close> ends the body with a newline.\<close>

datatype mock_response =
    MockReply (mr_Status: int) (mr_RetryAfter: string) (mr_Body: string)
  | MockHang
  | MockStream "Event list"

definition http_Error :: "string \<Rightarrow> int \<Rightarrow> mock_response" where
  "http_Error body status = MockReply status [] (body @ [CHR 0x0A])"

definition mock_handleChat ::
  "(string \<Rightarrow> MockChatRequest) \<Rightarrow> mock_request \<Rightarrow> mock_server \<Rightarrow> mock_response \<times> mock_server" where
  "mock_handleChat decode r s =
     (if mq_Method r \<noteq> ''POST'' then (http_Error ''method not allowed'' 405, s)
      else
        (let captured = (decode (mq_Body r))\<lparr>mc_Authorization := mq_Authorization r, mc_Accept := mq_Accept r\<rparr>;
             s1 = s\<lparr>mk_chatReqs := mk_chatReqs s @ [captured], mk_chatN := mk_chatN s + 1\<rparr>;
             attempt = mk_chatN s1; b = mk_chat s1
         in if \<not> authorized s1 r then (http_Error ''{\"code\":\"unauthorized\"}'' 401, s1)
            else if mc_Query captured = [] \<or> mc_User captured = [] then (http_Error ''{\"code\":\"invalid_param\"}'' 400, s1)
            else if cb_Status b \<ge> 400 \<and> (cb_FailForever b \<or> attempt \<le> cb_FailTimes b)
            then (MockReply (cb_Status b) (cb_RetryAfter b) (cb_Body b @ [CHR 0x0A]), s1)
            else if cb_Hang b then (MockHang, s1)
            else (MockStream (cb_Events b), s1)))"

section \<open>The event stream\<close>

datatype json = JString string | JNumber int | JObject "(string \<times> json) list"

text \<open>The map \<open>encodeEvent\<close> fills, in the order of its assignments.\<close>

definition event_fields :: "Event \<Rightarrow> (string \<times> json) list" where
  "event_fields ev =
     [(''event'', JString (me_Event ev))] @
     (if me_TaskID ev \<noteq> [] then [(''task_id'', JString (me_TaskID ev))] else []) @
     (if me_MessageID ev \<noteq> [] then [(''message_id'', JString (me_MessageID ev))] else []) @
     (if me_ConversationID ev \<noteq> [] then [(''conversation_id'', JString (me_ConversationID ev))] else []) @
     (if me_Answer ev \<noteq> [] then [(''answer'', JString (me_Answer ev))] else []) @
     (if me_Code ev \<noteq> [] then [(''code'', JString (me_Code ev))] else []) @
     (if me_Message ev \<noteq> [] then [(''message'', JString (me_Message ev))] else []) @
     (if me_Event ev = ''message_end''
      then [(''metadata'', JObject [(''usage'', JObject [(''total_tokens'', JNumber (me_TotalTokens ev))])])] else [])"

definition encodeEvent :: "(json \<Rightarrow> string) \<Rightarrow> Event \<Rightarrow> string" where
  "encodeEvent marshal ev = marshal (JObject (event_fields ev))"

text \<open>The loop of \<open>streamSSE\<close>: \<open>sleep\<close> tells whether the request ended during a delay, \<open>write\<close> whether the
  write failed.\<close>

fun stream_events ::
  "(json \<Rightarrow> string) \<Rightarrow> (int \<Rightarrow> 'w \<Rightarrow> bool \<times> 'w) \<Rightarrow> (string \<Rightarrow> 'w \<Rightarrow> bool \<times> 'w) \<Rightarrow> string \<Rightarrow> Event list \<Rightarrow> 'w \<Rightarrow> 'w" where
  "stream_events marshal sleep write streamTaskID [] w = w"
| "stream_events marshal sleep write streamTaskID (ev0 # evs) w =
     (let streamTaskID' = (if me_TaskID ev0 \<noteq> [] then me_TaskID ev0 else streamTaskID);
          ev = (if me_TaskID ev0 \<noteq> [] then ev0 else ev0\<lparr>me_TaskID := streamTaskID\<rparr>)
      in case (if 0 < me_Delay ev then sleep (me_Delay ev) w else (False, w)) of
           (True, w1) \<Rightarrow> w1
         | (False, w1) \<Rightarrow>
             (case write (''data: '' @ encodeEvent marshal ev @ [CHR 0x0A, CHR 0x0A]) w1 of
                (True, w2) \<Rightarrow> w2
              | (False, w2) \<Rightarrow> stream_events marshal sleep write streamTaskID' evs w2))"

definition streamSSE ::
  "(json \<Rightarrow> string) \<Rightarrow> (int \<Rightarrow> 'w \<Rightarrow> bool \<times> 'w) \<Rightarrow> (string \<Rightarrow> 'w \<Rightarrow> bool \<times> 'w) \<Rightarrow> bool \<Rightarrow> Event list \<Rightarrow> 'w \<Rightarrow> mock_response option \<times> 'w" where
  "streamSSE marshal sleep write flusher events w =
     (if \<not> flusher then (Some (http_Error ''streaming unsupported'' 500), w)
      else (None, stream_events marshal sleep write [] events w))"

section \<open>Stop\<close>

definition TrimPrefix :: "string \<Rightarrow> string \<Rightarrow> string" where
  "TrimPrefix s p = (if prefix p s then drop (length p) s else s)"

definition TrimSuffix :: "string \<Rightarrow> string \<Rightarrow> string" where
  "TrimSuffix s p = (if suffix p s then take (length s - length p) s else s)"

definition mock_handleStop ::
  "(string \<Rightarrow> string option) \<Rightarrow> (string \<Rightarrow> StopCall) \<Rightarrow> mock_request \<Rightarrow> mock_server \<Rightarrow> mock_response \<times> mock_server" where
  "mock_handleStop pathUnescape decode r s =
     (if mq_Method r \<noteq> ''POST'' then (http_Error ''method not allowed'' 405, s)
      else if \<not> authorized s r then (http_Error ''{\"code\":\"unauthorized\"}'' 401, s)
      else
        (let rest = TrimPrefix (mq_EscapedPath r) ''/chat-messages/''; enc = TrimSuffix rest ''/stop'' in
         if enc = rest \<or> enc = [] then (http_Error ''404 page not found'' 404, s)
         else case pathUnescape enc of
           None \<Rightarrow> (http_Error ''{\"code\":\"invalid_param\"}'' 400, s)
         | Some taskID \<Rightarrow>
             (MockReply 200 [] ''{\"result\":\"success\"}'',
              s\<lparr>mk_stopCalls := mk_stopCalls s @ [(decode (mq_Body r))\<lparr>sc_TaskID := taskID\<rparr>]\<rparr>)))"

section \<open>The client understands the script\<close>

text \<open>The script with the task ids \<open>streamSSE\<close> fills in, and an event as the client should see it.\<close>

fun stamp :: "string \<Rightarrow> Event list \<Rightarrow> Event list" where
  "stamp t [] = []"
| "stamp t (ev # evs) =
     (if me_TaskID ev \<noteq> [] then ev # stamp (me_TaskID ev) evs else ev\<lparr>me_TaskID := t\<rparr> # stamp t evs)"

definition event_seen :: "Event \<Rightarrow> sseEvent" where
  "event_seen ev =
     \<lparr>ev_Event = me_Event ev, ev_TaskID = me_TaskID ev, ev_MessageID = me_MessageID ev, ev_ConversationID = me_ConversationID ev,
      ev_Answer = me_Answer ev, ev_Code = me_Code ev, ev_Message = me_Message ev,
      ev_TotalTokens = (if me_Event ev = ''message_end'' then me_TotalTokens ev else 0)\<rparr>"

text \<open>What \<open>json.Unmarshal\<close> puts into the client's \<open>sseEvent\<close>: each tagged field the object has, the others zero.\<close>

definition string_field :: "(string \<times> json) list \<Rightarrow> string \<Rightarrow> string" where
  "string_field fs k = (case map_of fs k of Some (JString x) \<Rightarrow> x | _ \<Rightarrow> [])"

definition object_field :: "(string \<times> json) list \<Rightarrow> string \<Rightarrow> (string \<times> json) list" where
  "object_field fs k = (case map_of fs k of Some (JObject m) \<Rightarrow> m | _ \<Rightarrow> [])"

definition number_field :: "(string \<times> json) list \<Rightarrow> string \<Rightarrow> int" where
  "number_field fs k = (case map_of fs k of Some (JNumber n) \<Rightarrow> n | _ \<Rightarrow> 0)"

definition unmarshal_event :: "(string \<times> json) list \<Rightarrow> sseEvent" where
  "unmarshal_event fs =
     \<lparr>ev_Event = string_field fs ''event'', ev_TaskID = string_field fs ''task_id'', ev_MessageID = string_field fs ''message_id'',
      ev_ConversationID = string_field fs ''conversation_id'', ev_Answer = string_field fs ''answer'', ev_Code = string_field fs ''code'',
      ev_Message = string_field fs ''message'',
      ev_TotalTokens = number_field (object_field (object_field fs ''metadata'') ''usage'') ''total_tokens''\<rparr>"

text \<open>JSON on the objects of a script: the text is one line of valid UTF-8 that starts and ends with a
  brace, so with no space, and decodes to the object's fields.\<close>

definition json_law :: "(json \<Rightarrow> string) \<Rightarrow> (string \<Rightarrow> string + sseEvent) \<Rightarrow> Event list \<Rightarrow> bool" where
  "json_law marshal decode evs \<longleftrightarrow> list_all (\<lambda>ev. let x = marshal (JObject (event_fields ev)) in
     word x \<and> CHR 0x0A \<notin> set x \<and> hd x = CHR ''{'' \<and> decode x = Inr (unmarshal_event (event_fields ev))) evs"

lemma optional_field:
  "map_of ((if b then [(k', v)] else []) @ r) k = (if k = k' \<and> b then Some v else map_of r k)"
  "map_of (if b then [(k', v)] else []) k = (if k = k' \<and> b then Some v else None)"
  by auto

lemma string_field_if: "string_field fs k = x" if "map_of fs k = (if x \<noteq> [] then Some (JString x) else None)"
  using that by (auto simp: string_field_def)

lemma map_of_event_fields:
  "map_of (event_fields ev) ''event'' = Some (JString (me_Event ev))"
  "map_of (event_fields ev) ''task_id'' = (if me_TaskID ev \<noteq> [] then Some (JString (me_TaskID ev)) else None)"
  "map_of (event_fields ev) ''message_id'' = (if me_MessageID ev \<noteq> [] then Some (JString (me_MessageID ev)) else None)"
  "map_of (event_fields ev) ''conversation_id'' = (if me_ConversationID ev \<noteq> [] then Some (JString (me_ConversationID ev)) else None)"
  "map_of (event_fields ev) ''answer'' = (if me_Answer ev \<noteq> [] then Some (JString (me_Answer ev)) else None)"
  "map_of (event_fields ev) ''code'' = (if me_Code ev \<noteq> [] then Some (JString (me_Code ev)) else None)"
  "map_of (event_fields ev) ''message'' = (if me_Message ev \<noteq> [] then Some (JString (me_Message ev)) else None)"
  "map_of (event_fields ev) ''metadata'' = (if me_Event ev = ''message_end''
     then Some (JObject [(''usage'', JObject [(''total_tokens'', JNumber (me_TotalTokens ev))])]) else None)"
  unfolding event_fields_def append_Cons append_Nil map_of.simps fst_conv snd_conv fun_upd_apply optional_field by simp_all

lemma unmarshal_event_fields: "unmarshal_event (event_fields ev) = event_seen ev"
  unfolding unmarshal_event_def event_seen_def
  by (simp add: string_field_if map_of_event_fields)
    (simp add: string_field_def object_field_def number_field_def map_of_event_fields)

lemma sse_data_word:
  assumes "word x" "hd x = CHR ''{''"
  shows "sse_data (''data: '' @ x) = Some x"
proof -
  have "utf8 [100, 97, 116, 97, 58] = ''data:''" by code_simp
  then have d: "word ''data:''" using word_utf8[of "[100, 97, 116, 97, 58]"] by (simp add: scalar_def IsSpace_def)
  have "TrimSpace (''data: '' @ x) = ''data: '' @ x" using word_trim[OF word_join[OF d assms(1), of "CHR '' ''"]] by simp
  moreover have "x \<noteq> []" "x \<noteq> ''[DONE]''" using assms word_trim[OF assms(1)] by auto
  ultimately show ?thesis using TrimSpace_space_word[OF assms(1)] by (simp add: sse_data_def Let_def)
qed

lemma sse_data_Nil: "sse_data [] = None"
proof -
  have "TrimSpace [] = []" by code_simp
  then show ?thesis by (simp add: sse_data_def)
qed

definition append_body :: "string \<Rightarrow> string \<Rightarrow> bool \<times> string" where
  "append_body d w = (False, w @ d)"

definition sse_text :: "(json \<Rightarrow> string) \<Rightarrow> Event \<Rightarrow> string" where
  "sse_text marshal ev = ''data: '' @ encodeEvent marshal ev @ [CHR 0x0A, CHR 0x0A]"

lemma stream_events_body:
  assumes "\<And>d w. sleep d w = (False, w)"
  shows "stream_events marshal sleep append_body t evs w = w @ concat (map (sse_text marshal) (stamp t evs))"
  by (induction evs arbitrary: t w) (simp_all add: assms append_body_def sse_text_def Let_def)

lemma payloads_lines:
  assumes "json_law marshal decode evs"
  shows "payloads decode (split_on (CHR 0x0A) (concat (map (sse_text marshal) evs))) = map (\<lambda>ev. Inr (event_seen ev)) evs"
  using assms
proof (induction evs)
  case Nil
  then show ?case by (simp add: payloads_def map_filter_simps sse_data_Nil)
next
  case (Cons ev evs)
  let ?x = "encodeEvent marshal ev" and ?rest = "concat (map (sse_text marshal) evs)"
  have x: "word ?x" "CHR 0x0A \<notin> set ?x" "hd ?x = CHR ''{''" "decode ?x = Inr (event_seen ev)" and law: "json_law marshal decode evs"
    using Cons.prems by (simp_all add: json_law_def encodeEvent_def unmarshal_event_fields Let_def)
  have "CHR 0x0A \<notin> set (''data: '' @ ?x)" using x(2) by simp
  from split_on_sep[OF this, of "CHR 0x0A # ?rest"]
  have "split_on (CHR 0x0A) (sse_text marshal ev @ ?rest) = (''data: '' @ ?x) # [] # split_on (CHR 0x0A) ?rest" by (simp add: sse_text_def)
  then show ?case
    using Cons.IH[OF law] sse_data_word[OF x(1,3)] x(4) by (simp add: payloads_def map_filter_simps sse_data_Nil)
qed


definition demo_event :: Event where
  "demo_event = \<lparr>me_Event = ''message'', me_Delay = 0, me_Answer = ''hi'', me_TaskID = ''t'', me_MessageID = [], me_ConversationID = ''c'',
     me_Code = [], me_Message = [], me_TotalTokens = 0\<rparr>"


section \<open>A stop reaches its task\<close>

text \<open>The client's transport when the base URL leads to the mock.\<close>

definition mock_request_of :: "string \<Rightarrow> http_request \<Rightarrow> mock_request" where
  "mock_request_of base rq =
     \<lparr>mq_Method = hr_Method rq, mq_EscapedPath = drop (length base) (hr_URL rq),
      mq_Authorization = (case map_of (hr_Header rq) ''Authorization'' of None \<Rightarrow> [] | Some v \<Rightarrow> v),
      mq_Accept = (case map_of (hr_Header rq) ''Accept'' of None \<Rightarrow> [] | Some v \<Rightarrow> v), mq_Body = hr_Body rq\<rparr>"

definition to_mock :: "string \<Rightarrow> (string \<Rightarrow> string option) \<Rightarrow> (string \<Rightarrow> StopCall) \<Rightarrow> (mock_server, string) http \<Rightarrow> bool" where
  "to_mock base pathUnescape decode H \<longleftrightarrow>
     (\<forall>m u. newRequestErr H m u = None) \<and>
     (\<forall>rq s. prefix (base @ ''/chat-messages/'') (hr_URL rq) \<longrightarrow> httpDo H rq s =
        (case mock_handleStop pathUnescape decode (mock_request_of base rq) s of
           (r, s') \<Rightarrow> (Inr \<lparr>StatusCode = mr_Status r, RetryAfterHeader = mr_RetryAfter r, Body = mr_Body r\<rparr>, s')))"

lemma TrimSuffix_append [simp]: "TrimSuffix (x @ p) p = x"
  by (simp add: TrimSuffix_def suffix_def)

lemma TrimPrefix_append [simp]: "TrimPrefix (p @ x) p = x"
  by (simp add: TrimPrefix_def)

text \<open>A stop reaches its task. When the client's \<open>Stop\<close> is sent to the mock with the right key, the mock
  records exactly one stop call, for that task and that user, and the client reports success; this
  holds for every task id, slashes included, because the client escapes it and the mock
  unescapes one path segment.\<close>

theorem stop_reaches_task:
  assumes "to_mock (baseURL c) unesc decode H" and "unesc (esc tid) = Some tid" and "esc tid \<noteq> []"
    and "TrimSpace tid \<noteq> []" and "TrimSpace usr \<noteq> []" and "marshalUser usr = Inr body" and "sc_User (decode body) = usr"
    and "mk_apiKey s = [] \<or> mk_apiKey s = apiKey c"
  shows "\<exists>s'. dify_Stop H marshalUser esc c tid usr s = (None, s') \<and> StopCalls s' = StopCalls s @ [\<lparr>sc_TaskID = tid, sc_User = usr\<rparr>]"
proof -
  define rq where "rq = \<lparr>hr_Method = ''POST'', hr_URL = baseURL c @ ''/chat-messages/'' @ esc tid @ ''/stop'', hr_Body = body,
     hr_Header = [(''Authorization'', ''Bearer '' @ apiKey c), (''Content-Type'', ''application/json'')]\<rparr>"
  let ?s' = "s\<lparr>mk_stopCalls := mk_stopCalls s @ [(decode body)\<lparr>sc_TaskID := tid\<rparr>]\<rparr>"
  have "TrimPrefix (''/chat-messages/'' @ esc tid @ ''/stop'') ''/chat-messages/'' = esc tid @ ''/stop''" by (rule TrimPrefix_append)
  moreover have "TrimSuffix (esc tid @ ''/stop'') ''/stop'' = esc tid" by (rule TrimSuffix_append)
  ultimately have m: "mock_handleStop unesc decode (mock_request_of (baseURL c) rq) s = (MockReply 200 [] ''{\"result\":\"success\"}'', ?s')"
    using assms(2,3,8) by (auto simp: mock_handleStop_def mock_request_of_def rq_def authorized_def Let_def)
  have "prefix (baseURL c @ ''/chat-messages/'') (hr_URL rq)" by (simp add: rq_def)
  then have "httpDo H rq s = (Inr \<lparr>StatusCode = 200, RetryAfterHeader = [], Body = ''{\"result\":\"success\"}''\<rparr>, ?s')"
    using assms(1) m unfolding to_mock_def by simp
  then have "call_api H ''stop'' rq s = (Inr \<lparr>StatusCode = 200, RetryAfterHeader = [], Body = ''{\"result\":\"success\"}''\<rparr>, ?s')"
    using assms(1) by (simp add: call_api_def to_mock_def)
  then have "dify_Stop H marshalUser esc c tid usr s = (None, ?s')" using assms(4-6) by (simp add: dify_Stop_def rq_def)
  moreover have "(decode body)\<lparr>sc_TaskID := tid\<rparr> = \<lparr>sc_TaskID = tid, sc_User = usr\<rparr>" using assms(7) by (cases "decode body") simp
  ultimately show ?thesis by (auto simp: StopCalls_def)
qed

definition mock_http :: "string \<Rightarrow> (mock_server, string) http" where
  "mock_http base = \<lparr>newRequestErr = (\<lambda>_ _. None),
     httpDo = (\<lambda>rq s. case mock_handleStop Some (\<lambda>b. \<lparr>sc_TaskID = [], sc_User = b\<rparr>) (mock_request_of base rq) s of
        (r, s') \<Rightarrow> (Inr \<lparr>StatusCode = mr_Status r, RetryAfterHeader = mr_RetryAfter r, Body = mr_Body r\<rparr>, s')),
     readLimited = (\<lambda>n b w. (take n b, w)), scanLine = (\<lambda>_ w. (ScanEOF, w)), sleepTimer = (\<lambda>_ w. (None, w)), marshalPayload = (\<lambda>_. Inr []),
     decodeResponse = (\<lambda>_ w. (Inl [], w)), decodeEvent = (\<lambda>_. Inl [])\<rparr>"

theorem stop_reaches_task_witness:
  "\<exists>s'. dify_Stop (mock_http ''http://m'') Inr (\<lambda>x. x) (NewClient ''http://m'' ''k'') ''t1'' ''p:n'' (mock_New ''k'') = (None, s') \<and>
     StopCalls s' = [\<lparr>sc_TaskID = ''t1'', sc_User = ''p:n''\<rparr>]"
proof -
  have c: "NewClient ''http://m'' ''k'' = \<lparr>baseURL = ''http://m'', apiKey = ''k''\<rparr>" by code_simp
  have "TrimSpace ''t1'' \<noteq> []" "TrimSpace ''p:n'' \<noteq> []" by (simp_all add: TrimSpace_graphic is_graphic_def)
  moreover have "to_mock ''http://m'' Some (\<lambda>b. \<lparr>sc_TaskID = [], sc_User = b\<rparr>) (mock_http ''http://m'')"
    by (simp add: to_mock_def mock_http_def)
  ultimately show ?thesis
    using stop_reaches_task[of "\<lparr>baseURL = ''http://m'', apiKey = ''k''\<rparr>" Some "\<lambda>b. \<lparr>sc_TaskID = [], sc_User = b\<rparr>" "mock_http ''http://m''" "\<lambda>x. x" "''t1''" "''p:n''" Inr "''p:n''" "mock_New ''k''"]
    by (simp add: c mock_New_def StopCalls_def)
qed

end
